(* ===== verification/Prelude.thy ===== *)
theory Prelude
  imports Main "HOL-Library.Word"
begin

unbundle bit_operations_syntax

text \<open>
  Shared vocabulary of the development.
  \<^item> Machine integers. Addresses and sizes (\<open>uintptr_t\<close>, \<open>size_t\<close>, \<open>uint64_t\<close>) are
    natural numbers, with the 64-bit wrap-around written out by \<open>add64\<close>, \<open>sub64\<close> and
    \<open>mul64\<close>; flag words and bytes are values of type \<open>'a word\<close>.
  \<^item> Linked structures. \<open>linked nxt nil p xs\<close> says that following \<open>nxt\<close> from \<open>p\<close> visits
    exactly the nodes \<open>xs\<close> and then reaches the null value \<open>nil\<close>. The page freelist, the frame
    hash chains and the heap's free list are all read through it.
  \<^item> Byte encodings of 32-bit words, little endian as on x86-64.
\<close>

section \<open>Machine integers\<close>

named_theorems wrap_simps \<open>rules that remove a wrap-around which cannot happen\<close>

type_synonym addr = nat
type_synonym byte = "8 word"
type_synonym u32 = "32 word"

definition add64 :: "nat \<Rightarrow> nat \<Rightarrow> nat" where
  "add64 a b = (a + b) mod 2 ^ 64"

definition sub64 :: "nat \<Rightarrow> nat \<Rightarrow> nat" where
  "sub64 a b = (a + (2 ^ 64 - b mod 2 ^ 64)) mod 2 ^ 64"

definition mul64 :: "nat \<Rightarrow> nat \<Rightarrow> nat" where
  "mul64 a b = (a * b) mod 2 ^ 64"

lemma add64_id [wrap_simps]: "a + b < 2 ^ 64 \<Longrightarrow> add64 a b = a + b"
  by (simp add: add64_def)

lemma sub64_id [wrap_simps]: "b \<le> a \<Longrightarrow> a < 2 ^ 64 \<Longrightarrow> sub64 a b = a - b"
proof -
  assume "b \<le> a" and "a < 2 ^ 64"
  then have "a + (2 ^ 64 - b mod 2 ^ 64) = (a - b) + 2 ^ 64" and "a - b < 2 ^ 64"
    by auto
  then show ?thesis by (simp add: sub64_def)
qed

lemma mul64_id [wrap_simps]: "a * b < 2 ^ 64 \<Longrightarrow> mul64 a b = a * b"
  by (simp add: mul64_def)

lemma add64_bound: "add64 a b < 2 ^ 64"
  by (simp add: add64_def)

lemma add64_wraps: "a < 2 ^ 64 \<Longrightarrow> b < 2 ^ 64 \<Longrightarrow> 2 ^ 64 \<le> a + b \<Longrightarrow> add64 a b = a + b - 2 ^ 64"
  by (simp add: add64_def mod_if)

lemma add64_less_iff:
  "a < 2 ^ 64 \<Longrightarrow> b < 2 ^ 64 \<Longrightarrow> add64 a b < a \<longleftrightarrow> 2 ^ 64 \<le> a + b"
  by (auto simp: add64_def mod_if)

subsection \<open>Alignment\<close>

text \<open>\<open>v & ~(a - 1)\<close> and \<open>(v + (a - 1)) & ~(a - 1)\<close> on 64-bit values.\<close>

definition align_down64 :: "nat \<Rightarrow> nat \<Rightarrow> nat" where
  "align_down64 v a = unat ((of_nat v :: 64 word) AND NOT (of_nat a - 1))"

definition align_up64 :: "nat \<Rightarrow> nat \<Rightarrow> nat" where
  "align_up64 v a = align_down64 (add64 v (sub64 a 1)) a"

lemma word_and_not_mask: "(w :: 64 word) AND NOT (mask k) = w - take_bit k w"
proof -
  have "w = (w AND NOT (mask k)) OR (w AND mask k)"
    by (simp flip: bit.conj_disj_distrib)
  also have "\<dots> = (w AND NOT (mask k)) + (w AND mask k)"
    by (rule disjunctive_add [symmetric]) (auto simp: bit_simps)
  finally show ?thesis
    by (simp add: take_bit_eq_mask algebra_simps)
qed

lemma align_down64_pow2:
  assumes "k < 64" and "v < 2 ^ 64"
  shows "align_down64 v (2 ^ k) = v div 2 ^ k * 2 ^ k"
proof -
  let ?w = "of_nat v :: 64 word"
  have "of_nat (2 ^ k) - 1 = (mask k :: 64 word)"
    by (simp add: mask_eq_exp_minus_1)
  then have "align_down64 v (2 ^ k) = unat (?w - take_bit k ?w)"
    by (simp only: align_down64_def word_and_not_mask)
  also have "\<dots> = unat ?w - unat (take_bit k ?w)"
    by (rule unat_sub) (simp add: word_le_nat_alt unsigned_take_bit_eq take_bit_nat_less_eq_self)
  also have "\<dots> = v - v mod 2 ^ k"
    using assms
    by (simp add: unsigned_take_bit_eq unat_of_nat flip: take_bit_eq_mod)
  finally show ?thesis by (simp add: minus_mod_eq_div_mult)
qed

lemma align_up64_pow2:
  assumes "k < 64" and "v + (2 ^ k - 1) < 2 ^ 64"
  shows "align_up64 v (2 ^ k) = (v + (2 ^ k - 1)) div 2 ^ k * 2 ^ k"
proof -
  have "(2::nat) ^ k < 2 ^ 64"
    using assms(1) by (rule power_strict_increasing) simp
  then have "sub64 (2 ^ k) 1 = 2 ^ k - 1"
    by (intro sub64_id) auto
  then have "add64 v (sub64 (2 ^ k) 1) = v + (2 ^ k - 1)"
    using assms(2) by (simp add: add64_id)
  then show ?thesis
    using assms by (simp add: align_up64_def align_down64_pow2)
qed

lemma align_down64_le: "v < 2 ^ 64 \<Longrightarrow> k < 64 \<Longrightarrow> align_down64 v (2 ^ k) \<le> v"
  by (simp add: align_down64_pow2 div_times_less_eq_dividend)

lemma align_down64_dvd: "v < 2 ^ 64 \<Longrightarrow> k < 64 \<Longrightarrow> 2 ^ k dvd align_down64 v (2 ^ k)"
  by (simp add: align_down64_pow2)

lemma align_up64_ge: "k < 64 \<Longrightarrow> v + (2 ^ k - 1) < 2 ^ 64 \<Longrightarrow> v \<le> align_up64 v (2 ^ k)"
proof -
  assume k: "k < 64" and b: "v + (2 ^ k - 1) < 2 ^ 64"
  have "v + (2 ^ k - 1) < 2 ^ k + (v + (2 ^ k - 1)) div 2 ^ k * 2 ^ k"
    by (rule dividend_less_div_times) simp
  then have "v \<le> (v + (2 ^ k - 1)) div 2 ^ k * 2 ^ k"
    by linarith
  then show ?thesis by (simp add: align_up64_pow2 [OF k b])
qed

lemma align_up64_bound: "align_up64 v a < 2 ^ 64"
  unfolding align_up64_def align_down64_def
  using unsigned_less [of "(of_nat (add64 v (sub64 a 1)) :: 64 word) AND NOT (of_nat a - 1)"]
  by simp

section \<open>Linked structures\<close>

primrec linked :: "('a \<Rightarrow> 'a) \<Rightarrow> 'a \<Rightarrow> 'a \<Rightarrow> 'a list \<Rightarrow> bool" where
  "linked nxt nil p [] \<longleftrightarrow> p = nil"
| "linked nxt nil p (x # xs) \<longleftrightarrow> p = x \<and> x \<noteq> nil \<and> linked nxt nil (nxt x) xs"

lemma linked_nil_iff [simp]: "linked nxt nil nil xs \<longleftrightarrow> xs = []"
  by (cases xs) auto

lemma linked_not_nil:
  "p \<noteq> nil \<Longrightarrow> linked nxt nil p xs \<longleftrightarrow> (\<exists>ys. xs = p # ys \<and> linked nxt nil (nxt p) ys)"
  by (cases xs) auto

lemma linked_nil_notin: "linked nxt nil p xs \<Longrightarrow> nil \<notin> set xs"
  by (induction xs arbitrary: p) auto

lemma linked_unique: "linked nxt nil p xs \<Longrightarrow> linked nxt nil p ys \<Longrightarrow> xs = ys"
proof (induction xs arbitrary: p ys)
  case Nil
  then show ?case by simp
next
  case (Cons x xs)
  then obtain zs where "ys = x # zs" and "linked nxt nil (nxt x) zs"
    by (cases ys) auto
  with Cons show ?case by auto
qed

lemma linked_suffix:
  "linked nxt nil p (xs @ y # ys) \<Longrightarrow> linked nxt nil y (y # ys)"
  by (induction xs arbitrary: p) auto

lemma linked_distinct: "linked nxt nil p xs \<Longrightarrow> distinct xs"
proof (induction xs arbitrary: p)
  case Nil
  then show ?case by simp
next
  case (Cons x xs)
  have "x \<notin> set xs"
  proof
    assume "x \<in> set xs"
    then obtain as bs where xs: "xs = as @ x # bs"
      by (meson split_list)
    have "linked nxt nil x (x # bs)"
      using Cons.prems linked_suffix [of nxt nil p "x # as" x bs] xs by simp
    moreover have "linked nxt nil x (x # xs)"
      using Cons.prems by simp
    ultimately have "x # bs = x # xs"
      by (rule linked_unique)
    then show False using xs by simp
  qed
  with Cons show ?case by auto
qed

lemma linked_cong:
  "(\<And>x. x \<in> set xs \<Longrightarrow> nxt x = nxt' x) \<Longrightarrow> linked nxt nil p xs = linked nxt' nil p xs"
  by (induction xs arbitrary: p) auto

lemma linked_update [simp]:
  "y \<notin> set xs \<Longrightarrow> linked (nxt(y := v)) nil p xs = linked nxt nil p xs"
  "y \<notin> set xs \<Longrightarrow> linked (\<lambda>a. if a = y then v else nxt a) nil p xs = linked nxt nil p xs"
  by (rule linked_cong, (auto)[1])+

lemma linked_append:
  "linked nxt nil p (xs @ ys) \<Longrightarrow> ys \<noteq> [] \<Longrightarrow> linked nxt nil (hd ys) ys"
  by (induction xs arbitrary: p) (auto simp: neq_Nil_conv)

text \<open>Unlinking \<open>x\<close> behind a predecessor: the predecessor takes over its link.\<close>

lemma linked_unlink:
  assumes "linked nxt nil p (xs @ x # ys)" and "xs \<noteq> []"
  shows "linked (nxt(last xs := nxt x)) nil p (xs @ ys)"
proof -
  have d: "distinct (xs @ x # ys)" using linked_distinct [OF assms(1)] .
  show ?thesis using assms d
  proof (induction xs arbitrary: p)
    case (Cons w ws)
    show ?case
    proof (cases "ws = []")
      case True
      then show ?thesis using Cons.prems by (cases ys) auto
    next
      case False
      have l: "last ws \<noteq> w" using Cons.prems(3) False last_in_set [OF False] by auto
      have "linked nxt nil (nxt w) (ws @ x # ys)" "distinct (ws @ x # ys)" using Cons.prems by auto
      with Cons.IH [OF _ False] have "linked (nxt(last ws := nxt x)) nil (nxt w) (ws @ ys)" by blast
      then show ?thesis using Cons.prems(1) False l by (simp add: fun_upd_def)
    qed
  qed simp
qed

lemma linked_push:
  assumes "linked nxt nil p xs" and "y \<notin> set xs" and "y \<noteq> nil"
  shows "linked (nxt(y := p)) nil y (y # xs)"
  using assms by simp

section \<open>Little-endian 32-bit words in byte buffers\<close>

definition enc32 :: "u32 \<Rightarrow> byte list" where
  "enc32 w = [ucast w, ucast (drop_bit 8 w), ucast (drop_bit 16 w), ucast (drop_bit 24 w)]"

definition dec32 :: "byte \<Rightarrow> byte \<Rightarrow> byte \<Rightarrow> byte \<Rightarrow> u32" where
  "dec32 b0 b1 b2 b3 =
     ucast b0 OR push_bit 8 (ucast b1) OR push_bit 16 (ucast b2) OR push_bit 24 (ucast b3)"

lemma length_enc32 [simp]: "length (enc32 w) = 4"
  by (simp add: enc32_def)

lemma dec32_enc32:
  "dec32 (ucast w) (ucast (drop_bit 8 w)) (ucast (drop_bit 16 w)) (ucast (drop_bit 24 w)) = w"
proof (rule bit_word_eqI)
  fix n assume "n < LENGTH(32)"
  then consider "n < 8" | "8 \<le> n" "n < 16" | "16 \<le> n" "n < 24" | "24 \<le> n" "n < 32"
    by fastforce
  then show "bit (dec32 (ucast w) (ucast (drop_bit 8 w)) (ucast (drop_bit 16 w))
      (ucast (drop_bit 24 w))) n = bit w n"
    by cases (auto simp: dec32_def bit_simps)
qed

text \<open>The array of 32-bit words that a byte buffer holds, and its bytes.\<close>

fun dec32s :: "byte list \<Rightarrow> u32 list" where
  "dec32s (b0 # b1 # b2 # b3 # bs) = dec32 b0 b1 b2 b3 # dec32s bs"
| "dec32s _ = []"

definition enc32s :: "u32 list \<Rightarrow> byte list" where
  "enc32s ws = concat (map enc32 ws)"

lemma enc32s_simps [simp]: "enc32s [] = []" "enc32s (w # ws) = enc32 w @ enc32s ws"
  by (simp_all add: enc32s_def)

lemma enc32s_append [simp]: "enc32s (xs @ ys) = enc32s xs @ enc32s ys"
  by (simp add: enc32s_def)

lemma length_enc32s [simp]: "length (enc32s ws) = 4 * length ws"
  by (induction ws) auto

lemma dec32s_enc32s [simp]: "dec32s (enc32s ws) = ws"
  by (induction ws) (auto simp: enc32_def dec32_enc32)

section \<open>Lists\<close>

lemma take_nth_upt: "n \<le> length xs \<Longrightarrow> map (\<lambda>i. xs ! i) [0..<n] = take n xs"
  by (rule nth_equalityI) auto

lemma length_dec32s: "length (dec32s xs) = length xs div 4"
  by (induction xs rule: dec32s.induct) auto

lemma dec32s_append: "4 dvd length xs \<Longrightarrow> dec32s (xs @ ys) = dec32s xs @ dec32s ys"
proof (induction xs rule: dec32s.induct)
  case (1 b0 b1 b2 b3 bs)
  then have "4 dvd length bs" by (simp add: numeral_eq_Suc dvd_def) presburger
  with 1 show ?case by simp
qed (auto dest: dvd_imp_le)

lemma dec32s_enc32 [simp]: "dec32s (enc32 w) = [w]"
  using dec32s_enc32s [of "[w]"] by simp

section \<open>Scanning a table\<close>

text \<open>The index of the first entry that satisfies a condition, as a \<open>for\<close> loop finds it.\<close>

fun findi :: "('a \<Rightarrow> bool) \<Rightarrow> 'a list \<Rightarrow> nat option" where
  "findi P [] = None"
| "findi P (x # xs) = (if P x then Some 0 else map_option Suc (findi P xs))"

lemma findi_None: "findi P xs = None \<longleftrightarrow> (\<forall>x \<in> set xs. \<not> P x)"
  by (induction xs) auto

lemma findi_Some:
  "findi P xs = Some i \<longleftrightarrow> i < length xs \<and> P (xs ! i) \<and> (\<forall>j < i. \<not> P (xs ! j))"
proof (induction xs arbitrary: i)
  case (Cons x xs)
  then show ?case by (cases i) (auto simp: less_Suc_eq_0_disj)
qed simp

lemma findi_SomeD: "findi P xs = Some i \<Longrightarrow> i < length xs \<and> P (xs ! i)"
  by (simp add: findi_Some)

section \<open>Byte memory\<close>

text \<open>Reading and writing a list of bytes at an address of a byte-addressed memory.\<close>

type_synonym cmem = "addr \<Rightarrow> byte"

definition mput :: "cmem \<Rightarrow> addr \<Rightarrow> byte list \<Rightarrow> cmem" where
  "mput m a bs = (\<lambda>x. if a \<le> x \<and> x < a + length bs then bs ! (x - a) else m x)"

definition mget :: "cmem \<Rightarrow> addr \<Rightarrow> nat \<Rightarrow> byte list" where
  "mget m a n = map (\<lambda>i. m (a + i)) [0..<n]"

lemma length_mget [simp]: "length (mget m a n) = n"
  by (simp add: mget_def)

lemma nth_mget [simp]: "i < n \<Longrightarrow> mget m a n ! i = m (a + i)"
  by (simp add: mget_def)

lemma mput_Nil [simp]: "mput m a [] = m"
  by (auto simp: mput_def fun_eq_iff)

lemma mput_Cons: "mput m a (b # bs) = mput (m(a := b)) (Suc a) bs"
  by (auto simp: mput_def fun_eq_iff nth_Cons' Suc_le_eq)

lemma mput_snoc: "mput m a (bs @ [b]) = (mput m a bs)(a + length bs := b)"
  by (auto simp: mput_def fun_eq_iff nth_append)

lemma mput_at: "i < length bs \<Longrightarrow> mput m a bs (a + i) = bs ! i"
  by (simp add: mput_def)

lemma mput_outside: "x < a \<or> a + length bs \<le> x \<Longrightarrow> mput m a bs x = m x"
  by (auto simp: mput_def fun_eq_iff)

lemma mget_mput [simp]: "length bs = n \<Longrightarrow> mget (mput m a bs) a n = bs"
  by (rule nth_equalityI) (auto simp: mput_def)

lemma mget_cong: "(\<And>i. i < n \<Longrightarrow> m (a + i) = m' (b + i)) \<Longrightarrow> mget m a n = mget m' b n"
  by (simp add: mget_def)

lemma mget_0 [simp]: "mget m a 0 = []"
  by (simp add: mget_def)

lemma mget_Suc: "mget m a (Suc n) = m a # mget m (Suc a) n"
  by (rule nth_equalityI) (auto simp: nth_Cons')

lemma mget_append: "mget m a (k + n) = mget m a k @ mget m (a + k) n"
  by (rule nth_equalityI) (auto simp: nth_append add.assoc)

lemma mput_append: "mput m a (xs @ ys) = mput (mput m (a + length xs) ys) a xs"
  by (auto simp: mput_def fun_eq_iff nth_append)

lemma mget_outside:
  "a + n \<le> x \<or> x < a \<Longrightarrow> mget (m(x := b)) a n = mget m a n"
  by (auto simp: mget_def)

text \<open>A C string: the bytes \<open>s\<close>, none of them 0, followed by 0.\<close>

definition cstr :: "cmem \<Rightarrow> addr \<Rightarrow> byte list \<Rightarrow> bool" where
  "cstr m p s \<longleftrightarrow> (\<forall>i < length s. m (p + i) = s ! i) \<and> m (p + length s) = 0 \<and> 0 \<notin> set s"

lemma cstr_Nil [simp]: "cstr m p [] \<longleftrightarrow> m p = 0"
  by (simp add: cstr_def)

lemma cstr_Cons: "cstr m p (c # s) \<longleftrightarrow> m p = c \<and> c \<noteq> 0 \<and> cstr m (Suc p) s"
  by (auto simp: cstr_def nth_Cons' gr0_conv_Suc less_Suc_eq_0_disj)

lemma cstr_unique: "cstr m p s \<Longrightarrow> cstr m p t \<Longrightarrow> s = t"
proof (induction s arbitrary: p t)
  case Nil
  then show ?case by (cases t) (auto simp: cstr_Cons)
next
  case (Cons c s)
  then show ?case by (cases t) (auto simp: cstr_Cons)
qed

lemma cstr_cong:
  "(\<And>i. i \<le> length s \<Longrightarrow> m' (p + i) = m (p + i)) \<Longrightarrow> cstr m' p s = cstr m p s"
  by (auto simp: cstr_def)

lemma cstr_mput: "0 \<notin> set s \<Longrightarrow> cstr (mput m p (s @ [0])) p s"
  by (auto simp: cstr_def mput_def nth_append)

end
