(* ===== verification/Pmm.thy ===== *)
theory Pmm
  imports Prelude
begin

text \<open>
  The physical page pool, \<open>mem/pmm.c\<close>: an arena of 4 KiB pages whose free pages form an
  intrusive list, each free page storing the address of the next one in its first word.
  The state is the file's static variables plus the words stored in the arena
  (\<open>pmm_mem\<close>, the identity-mapped memory the code dereferences). The spinlock makes each
  operation atomic, so an operation is one state transformer; \<open>kprintf\<close> is left out.

  The locale \<open>page_pool\<close> is the contract the frame layer relies on: pages handed out are
  never on the free stack, and free and owned pages partition the arena. It is interpreted on
  the operations below. \<open>pmm_step\<close> lets any client allocate, write to its own pages and free
  them; its reachable states never hand out a page that is owned.
\<close>

section \<open>State and operations\<close>

definition PAGE_SIZE_4K :: nat where
  "PAGE_SIZE_4K = 4096"

definition MMIO_IDENTITY_LIMIT :: nat where
  "MMIO_IDENTITY_LIMIT = 0x100000000"

record pmm_state =
  pmm_base :: addr
  pmm_end :: addr
  pmm_free_head :: addr
  pmm_mem :: "addr \<Rightarrow> nat"
  pmm_total :: nat
  pmm_free :: nat
  pmm_inited :: bool

definition pmm_align_up :: "nat \<Rightarrow> nat \<Rightarrow> nat" where
  "pmm_align_up v a = align_up64 v a"

definition pmm_align_down :: "nat \<Rightarrow> nat \<Rightarrow> nat" where
  "pmm_align_down v a = align_down64 v a"

text \<open>
  The carving loop of \<open>pmm_init\<close>: thread the pages of \<open>[p, hi)\<close> onto the list and count
  them. \<open>hi\<close> is at most \<open>MMIO_IDENTITY_LIMIT\<close> there, so \<open>p + PAGE_SIZE_4K\<close> cannot wrap.
\<close>

function pmm_carve :: "addr \<Rightarrow> addr \<Rightarrow> nat \<Rightarrow> pmm_state \<Rightarrow> pmm_state \<times> nat" where
  "pmm_carve p hi n s =
     (if p + PAGE_SIZE_4K \<le> hi
      then pmm_carve (p + PAGE_SIZE_4K) hi (Suc n)
             (s\<lparr>pmm_mem := (pmm_mem s)(p := pmm_free_head s), pmm_free_head := p\<rparr>)
      else (s, n))"
  by pat_completeness auto
termination
  by (relation "measure (\<lambda>(p, hi, n, s). hi - p)") (auto simp: PAGE_SIZE_4K_def)

declare pmm_carve.simps [simp del]

definition pmm_init :: "addr \<Rightarrow> addr \<Rightarrow> pmm_state \<Rightarrow> pmm_state" where
  "pmm_init lo0 hi0 s =
     (let lo = pmm_align_up lo0 PAGE_SIZE_4K;
          hi1 = pmm_align_down hi0 PAGE_SIZE_4K
      in if hi1 \<le> add64 lo PAGE_SIZE_4K then s
         else let hi = (if MMIO_IDENTITY_LIMIT < hi1
                        then pmm_align_down MMIO_IDENTITY_LIMIT PAGE_SIZE_4K else hi1);
                  s1 = s\<lparr>pmm_base := lo, pmm_end := hi, pmm_free_head := 0,
                         pmm_total := 0, pmm_free := 0\<rparr>;
                  (s2, n) = pmm_carve lo hi 0 s1
              in s2\<lparr>pmm_total := n, pmm_free := n, pmm_inited := (0 < n)\<rparr>)"

definition pmm_ready :: "pmm_state \<Rightarrow> bool" where
  "pmm_ready s = pmm_inited s"

text \<open>The result is the page's address, 0 standing for \<open>NULL\<close>.\<close>

definition pmm_alloc_page :: "pmm_state \<Rightarrow> pmm_state \<times> addr" where
  "pmm_alloc_page s =
     (if \<not> pmm_inited s then (s, 0)
      else let page = pmm_free_head s
           in if page = 0 then (s, 0)
              else (s\<lparr>pmm_free_head := pmm_mem s page,
                      pmm_free := (if 0 < pmm_free s then pmm_free s - 1 else pmm_free s)\<rparr>,
                    page))"

definition pmm_free_page :: "pmm_state \<Rightarrow> addr \<Rightarrow> pmm_state" where
  "pmm_free_page s pa =
     (if \<not> pmm_inited s \<or> pa = 0 then s
      else if pa < pmm_base s \<or> pmm_end s \<le> pa then s
      else if pa mod PAGE_SIZE_4K \<noteq> 0 then s
      else s\<lparr>pmm_mem := (pmm_mem s)(pa := pmm_free_head s), pmm_free_head := pa,
             pmm_free := pmm_free s + 1\<rparr>)"

definition pmm_total_pages :: "pmm_state \<Rightarrow> nat" where
  "pmm_total_pages s = pmm_total s"

definition pmm_free_pages :: "pmm_state \<Rightarrow> nat" where
  "pmm_free_pages s = pmm_free s"

text \<open>What a client does with a page it owns: store to the page's first word.\<close>

definition pmm_client_write :: "pmm_state \<Rightarrow> addr \<Rightarrow> nat \<Rightarrow> pmm_state" where
  "pmm_client_write s p v = s\<lparr>pmm_mem := (pmm_mem s)(p := v)\<rparr>"

section \<open>The contract of a page pool\<close>

locale page_pool =
  fixes alloc :: "'s \<Rightarrow> 's \<times> addr"
    and free :: "'s \<Rightarrow> addr \<Rightarrow> 's"
    and store :: "'s \<Rightarrow> addr \<Rightarrow> nat \<Rightarrow> 's"
    and rep :: "'s \<Rightarrow> addr list \<Rightarrow> bool"
    and arena :: "'s \<Rightarrow> addr set"
  assumes alloc_nil: "rep s [] \<Longrightarrow> alloc s = (s, 0)"
    and alloc_cons: "rep s (p # ps) \<Longrightarrow> \<exists>s'. alloc s = (s', p) \<and> rep s' ps \<and> arena s' = arena s"
    and free_rep: "rep s ps \<Longrightarrow> p \<in> arena s \<Longrightarrow> p \<notin> set ps \<Longrightarrow> rep (free s p) (p # ps)"
    and free_arena: "arena (free s p) = arena s"
    and store_rep: "rep s ps \<Longrightarrow> p \<notin> set ps \<Longrightarrow> rep (store s p v) ps"
    and store_arena: "arena (store s p v) = arena s"
    and rep_distinct: "rep s ps \<Longrightarrow> distinct ps"
    and rep_arena: "rep s ps \<Longrightarrow> set ps \<subseteq> arena s"
    and null_arena: "0 \<notin> arena s"
begin

text \<open>Free and owned pages partition the arena.\<close>

definition pool_inv :: "'s \<Rightarrow> addr set \<Rightarrow> bool" where
  "pool_inv s own \<longleftrightarrow> (\<exists>ps. rep s ps \<and> set ps \<inter> own = {} \<and> set ps \<union> own = arena s)"

lemma pool_alloc:
  assumes "pool_inv s own" and "alloc s = (s', p)" and "p \<noteq> 0"
  shows "p \<in> arena s" and "p \<notin> own" and "pool_inv s' (insert p own)" and "arena s' = arena s"
proof -
  obtain ps where ps: "rep s ps" "set ps \<inter> own = {}" "set ps \<union> own = arena s"
    using assms(1) by (auto simp: pool_inv_def)
  then obtain qs where qs: "ps = p # qs" and s': "rep s' qs" "arena s' = arena s"
    using assms(2,3) by (cases ps) (auto dest: alloc_nil alloc_cons)
  have "p \<notin> set qs" using rep_distinct [OF ps(1)] qs by simp
  with ps qs s' show "p \<in> arena s" "p \<notin> own" "pool_inv s' (insert p own)" "arena s' = arena s"
    by (auto simp: pool_inv_def)
qed

lemma pool_alloc_null:
  assumes "pool_inv s own" and "alloc s = (s', 0)"
  shows "s' = s" and "own = arena s"
proof -
  obtain ps where ps: "rep s ps" "set ps \<inter> own = {}" "set ps \<union> own = arena s"
    using assms(1) by (auto simp: pool_inv_def)
  have "ps = []"
  proof (cases ps)
    case (Cons q qs)
    then have "q = 0" using assms(2) ps(1) by (auto dest: alloc_cons)
    then show ?thesis using Cons rep_arena [OF ps(1)] null_arena by auto
  qed simp
  with ps assms(2) show "s' = s" "own = arena s"
    by (auto dest: alloc_nil)
qed

lemma pool_free:
  assumes "pool_inv s own" and "p \<in> own"
  shows "pool_inv (free s p) (own - {p})"
proof -
  obtain ps where ps: "rep s ps" "set ps \<inter> own = {}" "set ps \<union> own = arena s"
    using assms(1) by (auto simp: pool_inv_def)
  then have "rep (free s p) (p # ps)"
    using assms(2) by (intro free_rep) auto
  with ps assms(2) show ?thesis
    unfolding pool_inv_def free_arena by (intro exI [of _ "p # ps"]) auto
qed

lemma pool_store: "pool_inv s own \<Longrightarrow> p \<in> own \<Longrightarrow> pool_inv (store s p v) own"
  unfolding pool_inv_def store_arena by (blast intro: store_rep)

lemma pool_own_arena: "pool_inv s own \<Longrightarrow> own \<subseteq> arena s"
  by (auto simp: pool_inv_def)

end

section \<open>The invariant of the pool\<close>

definition pmm_page_ok :: "pmm_state \<Rightarrow> addr \<Rightarrow> bool" where
  "pmm_page_ok s p \<longleftrightarrow> p \<noteq> 0 \<and> pmm_base s \<le> p \<and> p < pmm_end s \<and> p mod PAGE_SIZE_4K = 0"

definition pmm_arena :: "pmm_state \<Rightarrow> addr set" where
  "pmm_arena s = {p. pmm_page_ok s p}"

text \<open>\<open>pmm_rep s ps\<close>: the pool is initialised and its free stack, top first, is \<open>ps\<close>.\<close>

definition pmm_rep :: "pmm_state \<Rightarrow> addr list \<Rightarrow> bool" where
  "pmm_rep s ps \<longleftrightarrow> pmm_inited s \<and> linked (pmm_mem s) 0 (pmm_free_head s) ps \<and>
     pmm_free s = length ps \<and> (\<forall>p \<in> set ps. pmm_page_ok s p)"

lemma pmm_arena_cong:
  "pmm_base s' = pmm_base s \<Longrightarrow> pmm_end s' = pmm_end s \<Longrightarrow> pmm_arena s' = pmm_arena s"
  by (simp add: pmm_arena_def pmm_page_ok_def)

lemma pmm_free_page_arena: "pmm_arena (pmm_free_page s p) = pmm_arena s"
  by (rule pmm_arena_cong) (auto simp: pmm_free_page_def)

lemma pmm_free_page_rep:
  assumes "pmm_rep s ps" and "p \<in> pmm_arena s" and "p \<notin> set ps"
  shows "pmm_rep (pmm_free_page s p) (p # ps)"
  using assms by (auto simp: pmm_rep_def pmm_free_page_def pmm_arena_def pmm_page_ok_def)

interpretation pmm_pool: page_pool pmm_alloc_page pmm_free_page pmm_client_write pmm_rep pmm_arena
proof unfold_locales
  show "pmm_rep s [] \<Longrightarrow> pmm_alloc_page s = (s, 0)" for s
    by (simp add: pmm_rep_def pmm_alloc_page_def)
  show "pmm_rep s (p # ps) \<Longrightarrow>
      \<exists>s'. pmm_alloc_page s = (s', p) \<and> pmm_rep s' ps \<and> pmm_arena s' = pmm_arena s" for s p ps
    by (auto simp: pmm_rep_def pmm_alloc_page_def pmm_page_ok_def pmm_arena_def)
  show "pmm_rep s ps \<Longrightarrow> p \<in> pmm_arena s \<Longrightarrow> p \<notin> set ps \<Longrightarrow> pmm_rep (pmm_free_page s p) (p # ps)"
    for s ps p by (rule pmm_free_page_rep)
  show "pmm_arena (pmm_free_page s p) = pmm_arena s" for s p
    by (rule pmm_free_page_arena)
  show "pmm_rep s ps \<Longrightarrow> p \<notin> set ps \<Longrightarrow> pmm_rep (pmm_client_write s p v) ps" for s ps p v
    by (auto simp: pmm_rep_def pmm_client_write_def pmm_page_ok_def)
  show "pmm_arena (pmm_client_write s p v) = pmm_arena s" for s p v
    by (rule pmm_arena_cong) (auto simp: pmm_client_write_def)
  show "pmm_rep s ps \<Longrightarrow> distinct ps" for s ps
    by (auto simp: pmm_rep_def dest: linked_distinct)
  show "pmm_rep s ps \<Longrightarrow> set ps \<subseteq> pmm_arena s" for s ps
    by (auto simp: pmm_rep_def pmm_arena_def)
  show "0 \<notin> pmm_arena s" for s
    by (simp add: pmm_arena_def pmm_page_ok_def)
qed

section \<open>Initialisation carves the whole arena\<close>

text \<open>The pages of \<open>[p, hi)\<close>, in address order.\<close>

definition arena_pages :: "addr \<Rightarrow> addr \<Rightarrow> addr list" where
  "arena_pages p hi = map (\<lambda>i. p + i * PAGE_SIZE_4K) [0..<(hi - p) div PAGE_SIZE_4K]"

lemma arena_pages_rec:
  "arena_pages p hi =
     (if p + PAGE_SIZE_4K \<le> hi then p # arena_pages (p + PAGE_SIZE_4K) hi else [])"
proof (cases "p + PAGE_SIZE_4K \<le> hi")
  case True
  let ?n = "(hi - (p + PAGE_SIZE_4K)) div PAGE_SIZE_4K"
  have n: "(hi - p) div PAGE_SIZE_4K = Suc ?n"
    using True by (subst le_div_geq) (auto simp: PAGE_SIZE_4K_def)
  have "[0..<Suc ?n] = 0 # map Suc [0..<?n]"
    by (simp add: map_Suc_upt upt_conv_Cons del: upt_Suc)
  then show ?thesis
    using True unfolding arena_pages_def n by (simp add: o_def add.assoc del: upt_Suc)
next
  case False
  then show ?thesis by (simp add: arena_pages_def PAGE_SIZE_4K_def)
qed

lemma arena_pages_lower: "q \<in> set (arena_pages p hi) \<Longrightarrow> p \<le> q \<and> q + PAGE_SIZE_4K \<le> hi"
proof -
  assume "q \<in> set (arena_pages p hi)"
  then obtain i where q: "q = p + i * PAGE_SIZE_4K" and i: "i < (hi - p) div PAGE_SIZE_4K"
    unfolding arena_pages_def by fastforce
  have "Suc i * PAGE_SIZE_4K \<le> (hi - p) div PAGE_SIZE_4K * PAGE_SIZE_4K"
    using i by (intro mult_le_mono1) simp
  also have "\<dots> \<le> hi - p" by simp
  finally show ?thesis using q by (simp add: PAGE_SIZE_4K_def)
qed

lemma pmm_carve_spec:
  assumes "linked (pmm_mem s) 0 (pmm_free_head s) ps" and "0 < p" and "\<forall>q \<in> set ps. q < p"
  shows "\<exists>m h. pmm_carve p hi n s =
           (s\<lparr>pmm_mem := m, pmm_free_head := h\<rparr>, n + length (arena_pages p hi)) \<and>
         linked m 0 h (rev (arena_pages p hi) @ ps)"
  using assms
proof (induction p hi n s arbitrary: ps rule: pmm_carve.induct)
  case (1 p hi n s)
  show ?case
  proof (cases "p + PAGE_SIZE_4K \<le> hi")
    case True
    let ?s = "s\<lparr>pmm_mem := (pmm_mem s)(p := pmm_free_head s), pmm_free_head := p\<rparr>"
    have l: "linked (pmm_mem ?s) 0 (pmm_free_head ?s) (p # ps)"
      using "1.prems" by auto
    have lt: "0 < p + PAGE_SIZE_4K" "\<forall>q \<in> set (p # ps). q < p + PAGE_SIZE_4K"
      using "1.prems" by (auto simp: PAGE_SIZE_4K_def trans_less_add1)
    from "1.IH" [OF True l lt] obtain m h where
      c: "pmm_carve (p + PAGE_SIZE_4K) hi (Suc n) ?s =
         (?s\<lparr>pmm_mem := m, pmm_free_head := h\<rparr>, Suc n + length (arena_pages (p + PAGE_SIZE_4K) hi))"
      and m: "linked m 0 h (rev (arena_pages (p + PAGE_SIZE_4K) hi) @ p # ps)"
      by (elim exE conjE)
    have "arena_pages p hi = p # arena_pages (p + PAGE_SIZE_4K) hi"
      using True by (subst arena_pages_rec) simp
    with True c m show ?thesis
      by (intro exI [of _ m] exI [of _ h]) (simp add: pmm_carve.simps [of p hi n s])
  next
    case False
    then have "arena_pages p hi = []"
      by (subst arena_pages_rec) simp
    with False "1.prems"(1) show ?thesis
      by (intro exI [of _ "pmm_mem s"] exI [of _ "pmm_free_head s"])
        (simp add: pmm_carve.simps [of p hi n s])
  qed
qed

lemma pmm_align_4K:
  "v < 2 ^ 64 \<Longrightarrow> pmm_align_down v PAGE_SIZE_4K = v div 4096 * 4096"
  "v + 4095 < 2 ^ 64 \<Longrightarrow> pmm_align_up v PAGE_SIZE_4K = (v + 4095) div 4096 * 4096"
  using align_down64_pow2 [of 12 v] align_up64_pow2 [of 12 v]
  by (simp_all add: pmm_align_down_def pmm_align_up_def PAGE_SIZE_4K_def)

lemma set_arena_pages:
  assumes "p mod PAGE_SIZE_4K = 0" and "hi mod PAGE_SIZE_4K = 0"
  shows "set (arena_pages p hi) = {q. p \<le> q \<and> q < hi \<and> q mod PAGE_SIZE_4K = 0}"
proof (intro equalityI subsetI)
  fix q assume q: "q \<in> set (arena_pages p hi)"
  then have "q mod PAGE_SIZE_4K = 0"
    using assms(1) by (auto simp: arena_pages_def)
  with arena_pages_lower [OF q] show "q \<in> {q. p \<le> q \<and> q < hi \<and> q mod PAGE_SIZE_4K = 0}"
    by (auto simp: PAGE_SIZE_4K_def)
next
  fix q assume "q \<in> {q. p \<le> q \<and> q < hi \<and> q mod PAGE_SIZE_4K = 0}"
  then have q: "p \<le> q" "q < hi" "q mod PAGE_SIZE_4K = 0" by auto
  obtain a b c where abc: "p = a * PAGE_SIZE_4K" "q = b * PAGE_SIZE_4K" "hi = c * PAGE_SIZE_4K"
    using assms q(3) that [of "p div PAGE_SIZE_4K" "q div PAGE_SIZE_4K" "hi div PAGE_SIZE_4K"]
    by (simp flip: minus_mod_eq_div_mult)
  have pos: "0 < PAGE_SIZE_4K" by (simp add: PAGE_SIZE_4K_def)
  have "a \<le> b" "b < c" using q(1,2) pos by (auto simp: abc)
  then have "q = p + (b - a) * PAGE_SIZE_4K" and "b - a < (hi - p) div PAGE_SIZE_4K"
    using pos by (auto simp: abc simp flip: diff_mult_distrib add_mult_distrib)
  then show "q \<in> set (arena_pages p hi)"
    by (auto simp: arena_pages_def)
qed

text \<open>The bounds \<open>pmm_init\<close> works with, and the boot arguments for which it carves an arena.\<close>

definition boot_lo :: "addr \<Rightarrow> addr" where
  "boot_lo lo = (lo + 4095) div 4096 * 4096"

definition boot_hi :: "addr \<Rightarrow> addr" where
  "boot_hi hi = min (hi div 4096 * 4096) MMIO_IDENTITY_LIMIT"

definition pmm_boot_ok :: "addr \<Rightarrow> addr \<Rightarrow> bool" where
  "pmm_boot_ok lo hi \<longleftrightarrow> 0 < lo \<and> lo + 4095 < 2 ^ 64 \<and> hi < 2 ^ 64 \<and>
     boot_lo lo + PAGE_SIZE_4K < boot_hi hi"

lemma boot_lo_pos: "0 < lo \<Longrightarrow> 0 < boot_lo lo"
  by (simp add: boot_lo_def div_greater_zero_iff)

lemma boot_aligned: "boot_lo lo mod PAGE_SIZE_4K = 0" "boot_hi hi mod PAGE_SIZE_4K = 0"
proof -
  have "MMIO_IDENTITY_LIMIT mod 4096 = 0"
    by (simp add: MMIO_IDENTITY_LIMIT_def)
  then show "boot_lo lo mod PAGE_SIZE_4K = 0" "boot_hi hi mod PAGE_SIZE_4K = 0"
    unfolding boot_lo_def boot_hi_def PAGE_SIZE_4K_def min_def by simp_all
qed

lemma pmm_init_spec:
  assumes "pmm_boot_ok lo hi"
  shows "\<exists>m h. pmm_init lo hi s =
    s\<lparr>pmm_base := boot_lo lo, pmm_end := boot_hi hi, pmm_free_head := h, pmm_mem := m,
      pmm_total := length (arena_pages (boot_lo lo) (boot_hi hi)),
      pmm_free := length (arena_pages (boot_lo lo) (boot_hi hi)), pmm_inited := True\<rparr> \<and>
    linked m 0 h (rev (arena_pages (boot_lo lo) (boot_hi hi)))"
proof -
  let ?ps = "arena_pages (boot_lo lo) (boot_hi hi)"
  let ?s1 = "s\<lparr>pmm_base := boot_lo lo, pmm_end := boot_hi hi, pmm_free_head := 0,
                pmm_total := 0, pmm_free := 0\<rparr>"
  have b: "lo + 4095 < 2 ^ 64" "hi < 2 ^ 64" "0 < lo"
    "boot_lo lo + PAGE_SIZE_4K < boot_hi hi"
    using assms by (auto simp: pmm_boot_ok_def)
  have lo: "pmm_align_up lo PAGE_SIZE_4K = boot_lo lo"
    using b(1) by (simp add: pmm_align_4K boot_lo_def)
  have hi: "pmm_align_down hi PAGE_SIZE_4K = hi div 4096 * 4096"
    using b(2) by (simp add: pmm_align_4K)
  have lim: "pmm_align_down MMIO_IDENTITY_LIMIT PAGE_SIZE_4K = MMIO_IDENTITY_LIMIT"
    by (simp add: pmm_align_4K MMIO_IDENTITY_LIMIT_def)
  have "boot_hi hi \<le> MMIO_IDENTITY_LIMIT" and le: "boot_hi hi \<le> hi div 4096 * 4096"
    by (auto simp: boot_hi_def)
  then have "add64 (boot_lo lo) PAGE_SIZE_4K = boot_lo lo + PAGE_SIZE_4K"
    using b(4) by (intro add64_id) (simp add: MMIO_IDENTITY_LIMIT_def)
  then have guard: "\<not> hi div 4096 * 4096 \<le> add64 (boot_lo lo) PAGE_SIZE_4K"
    using b(4) le by simp
  have clamp: "(if MMIO_IDENTITY_LIMIT < hi div 4096 * 4096 then MMIO_IDENTITY_LIMIT
                else hi div 4096 * 4096) = boot_hi hi"
    by (simp add: boot_hi_def min_def)
  have "linked (pmm_mem ?s1) 0 (pmm_free_head ?s1) []" by simp
  from pmm_carve_spec [OF this boot_lo_pos [OF b(3)], of "boot_hi hi" 0]
  obtain m h where c: "pmm_carve (boot_lo lo) (boot_hi hi) 0 ?s1 =
      (?s1\<lparr>pmm_mem := m, pmm_free_head := h\<rparr>, length ?ps)" and l: "linked m 0 h (rev ?ps)"
    by auto
  have "?ps \<noteq> []"
    using b(4) by (subst arena_pages_rec) simp
  then show ?thesis
    using l unfolding pmm_init_def Let_def lo hi lim clamp
    by (intro exI [of _ m] exI [of _ h]) (simp add: guard c)
qed

lemma pmm_init_pool:
  assumes "pmm_boot_ok lo hi"
  shows "pmm_pool.pool_inv (pmm_init lo hi s) {}"
    and "pmm_base (pmm_init lo hi s) = boot_lo lo" "pmm_end (pmm_init lo hi s) = boot_hi hi"
    and "pmm_total (pmm_init lo hi s) = length (arena_pages (boot_lo lo) (boot_hi hi))"
proof -
  let ?ps = "arena_pages (boot_lo lo) (boot_hi hi)" and ?i = "pmm_init lo hi s"
  obtain m h where i: "?i =
    s\<lparr>pmm_base := boot_lo lo, pmm_end := boot_hi hi, pmm_free_head := h, pmm_mem := m,
      pmm_total := length ?ps, pmm_free := length ?ps, pmm_inited := True\<rparr>"
    and l: "linked m 0 h (rev ?ps)"
    using pmm_init_spec [OF assms] by blast
  have "0 < boot_lo lo"
    using assms by (auto simp: pmm_boot_ok_def intro: boot_lo_pos)
  then have arena: "set ?ps = pmm_arena ?i"
    unfolding set_arena_pages [OF boot_aligned] i by (auto simp: pmm_arena_def pmm_page_ok_def)
  then have "pmm_rep ?i (rev ?ps)"
    using l by (auto simp: i pmm_rep_def pmm_arena_def)
  with arena show "pmm_pool.pool_inv ?i {}"
    unfolding pmm_pool.pool_inv_def by (intro exI [of _ "rev ?ps"]) auto
  show "pmm_base ?i = boot_lo lo" "pmm_end ?i = boot_hi hi" "pmm_total ?i = length ?ps"
    by (simp_all add: i)
qed

section \<open>Clients of the pool\<close>

text \<open>
  One step of the pool with its clients: an allocation that succeeds or fails, a client that
  frees a page it owns, a client that writes to a page it owns.
\<close>

inductive pmm_step :: "pmm_state \<times> addr set \<Rightarrow> pmm_state \<times> addr set \<Rightarrow> bool" where
  step_alloc: "pmm_alloc_page s = (s', p) \<Longrightarrow> p \<noteq> 0 \<Longrightarrow> pmm_step (s, own) (s', insert p own)"
| step_oom: "pmm_alloc_page s = (s', 0) \<Longrightarrow> pmm_step (s, own) (s', own)"
| step_free: "p \<in> own \<Longrightarrow> pmm_step (s, own) (pmm_free_page s p, own - {p})"
| step_store: "p \<in> own \<Longrightarrow> pmm_step (s, own) (pmm_client_write s p v, own)"

inductive pmm_reachable :: "addr \<Rightarrow> addr \<Rightarrow> pmm_state \<times> addr set \<Rightarrow> bool" for lo hi where
  reach_init: "pmm_reachable lo hi (pmm_init lo hi s0, {})"
| reach_step: "pmm_reachable lo hi c \<Longrightarrow> pmm_step c c' \<Longrightarrow> pmm_reachable lo hi c'"

lemma pmm_frame_total:
  "pmm_total (fst (pmm_alloc_page s)) = pmm_total s" "pmm_total (pmm_free_page s p) = pmm_total s"
  "pmm_total (pmm_client_write s p v) = pmm_total s"
  by (auto simp: pmm_alloc_page_def pmm_free_page_def pmm_client_write_def Let_def)

text \<open>What every reachable state keeps: the partition, the bounds of the arena and its size.\<close>

definition pmm_sys_inv :: "addr \<Rightarrow> addr \<Rightarrow> pmm_state \<times> addr set \<Rightarrow> bool" where
  "pmm_sys_inv lo hi c \<longleftrightarrow> pmm_pool.pool_inv (fst c) (snd c) \<and>
     pmm_arena (fst c) = set (arena_pages (boot_lo lo) (boot_hi hi)) \<and>
     pmm_total (fst c) = length (arena_pages (boot_lo lo) (boot_hi hi))"

lemma pmm_step_inv: "pmm_step c c' \<Longrightarrow> pmm_sys_inv lo hi c \<Longrightarrow> pmm_sys_inv lo hi c'"
proof (induction rule: pmm_step.induct)
  case (step_alloc s s' p own)
  moreover have "pmm_total s' = pmm_total s"
    using step_alloc pmm_frame_total(1) [of s] by simp
  ultimately show ?case
    using pmm_pool.pool_alloc [of s own s' p] by (simp add: pmm_sys_inv_def)
next
  case (step_oom s s' own)
  then show ?case
    using pmm_pool.pool_alloc_null [of s own s'] by (simp add: pmm_sys_inv_def)
next
  case (step_free p own s)
  then show ?case
    by (simp add: pmm_sys_inv_def pmm_pool.pool_free pmm_pool.free_arena pmm_frame_total)
next
  case (step_store p own s v)
  then show ?case
    by (simp add: pmm_sys_inv_def pmm_pool.pool_store pmm_pool.store_arena pmm_frame_total)
qed

lemma pmm_init_inv:
  assumes "pmm_boot_ok lo hi"
  shows "pmm_sys_inv lo hi (pmm_init lo hi s, {})"
proof -
  have "0 < boot_lo lo"
    using assms by (auto simp: pmm_boot_ok_def intro: boot_lo_pos)
  then have "pmm_arena (pmm_init lo hi s) = set (arena_pages (boot_lo lo) (boot_hi hi))"
    unfolding set_arena_pages [OF boot_aligned] pmm_arena_def pmm_page_ok_def
      pmm_init_pool(2,3) [OF assms] by auto
  with pmm_init_pool [OF assms] show ?thesis
    by (simp add: pmm_sys_inv_def)
qed

lemma pmm_reachable_inv:
  assumes "pmm_reachable lo hi c" and "pmm_boot_ok lo hi"
  shows "pmm_sys_inv lo hi c"
  using assms by (induction rule: pmm_reachable.induct) (auto intro: pmm_init_inv pmm_step_inv)

lemma distinct_arena_pages: "distinct (arena_pages p hi)"
  by (simp add: arena_pages_def distinct_map inj_on_def PAGE_SIZE_4K_def)

lemma pmm_inv_accounting:
  assumes "pmm_sys_inv lo hi (s, own)"
  shows "finite own" and "pmm_free s + card own = pmm_total s"
proof -
  let ?ps = "arena_pages (boot_lo lo) (boot_hi hi)"
  obtain fs where fs: "pmm_rep s fs" "set fs \<inter> own = {}" "set fs \<union> own = set ?ps"
    and total: "pmm_total s = length ?ps"
    using assms by (auto simp: pmm_sys_inv_def pmm_pool.pool_inv_def)
  show "finite own"
    using fs(3) by (metis List.finite_set finite_Un)
  have "card (set fs) + card own = card (set ?ps)"
    using card_Un_disjoint [of "set fs" own] fs \<open>finite own\<close> by simp
  moreover have "card (set fs) = pmm_free s"
    using fs(1) pmm_pool.rep_distinct [OF fs(1)] by (simp add: pmm_rep_def distinct_card)
  ultimately show "pmm_free s + card own = pmm_total s"
    using total by (simp add: distinct_card distinct_arena_pages)
qed

section \<open>Properties\<close>

text \<open>
  C4. Whatever the clients do with the pages they own, an allocation never returns a page that
  is owned: the page returned is a page of the arena \<open>pmm_init\<close> carved, 4 KiB aligned and inside
  the reserved range, and no client owns it.
\<close>

theorem pmm_alloc_exclusive:
  assumes "pmm_boot_ok lo hi" and "pmm_reachable lo hi (s, own)"
    and "pmm_alloc_page s = (s', p)" and "p \<noteq> 0"
  shows "p \<notin> own \<and> p mod PAGE_SIZE_4K = 0 \<and> lo \<le> p \<and> p + PAGE_SIZE_4K \<le> min hi MMIO_IDENTITY_LIMIT"
proof -
  have inv: "pmm_sys_inv lo hi (s, own)"
    using assms(1,2) by (rule pmm_reachable_inv [rotated])
  then have "p \<notin> own" and "p \<in> set (arena_pages (boot_lo lo) (boot_hi hi))"
    using pmm_pool.pool_alloc(1,2) [OF _ assms(3,4), of own] by (auto simp: pmm_sys_inv_def)
  moreover have "lo \<le> boot_lo lo" "boot_hi hi \<le> min hi MMIO_IDENTITY_LIMIT"
    by (auto simp: boot_lo_def boot_hi_def min_def)
  ultimately show ?thesis
    using arena_pages_lower [of p "boot_lo lo" "boot_hi hi"]
    by (auto simp: set_arena_pages [OF boot_aligned])
qed

text \<open>A three-page arena after one allocation, evaluated.\<close>

definition demo_boot :: pmm_state where
  "demo_boot = \<lparr>pmm_base = 0, pmm_end = 0, pmm_free_head = 0, pmm_mem = \<lambda>_. 0,
     pmm_total = 0, pmm_free = 0, pmm_inited = False\<rparr>"

definition demo_pool :: pmm_state where
  "demo_pool = fst (pmm_alloc_page (pmm_init 4096 16384 demo_boot))"

lemma demo_init:
  "pmm_init 4096 16384 demo_boot =
     \<lparr>pmm_base = 4096, pmm_end = 16384, pmm_free_head = 12288,
      pmm_mem = (\<lambda>_. 0)(8192 := 4096, 12288 := 8192),
      pmm_total = 3, pmm_free = 3, pmm_inited = True\<rparr>"
proof -
  have align: "pmm_align_up 4096 PAGE_SIZE_4K = 4096" "pmm_align_down 16384 PAGE_SIZE_4K = 16384"
    by (simp_all add: pmm_align_4K)
  show ?thesis
    unfolding pmm_init_def Let_def align
    by (simp add: demo_boot_def pmm_carve.simps PAGE_SIZE_4K_def MMIO_IDENTITY_LIMIT_def
        add64_def fun_eq_iff numeral_3_eq_3)
qed

lemma demo_boot_ok: "pmm_boot_ok 4096 16384"
  by (simp add: pmm_boot_ok_def boot_lo_def boot_hi_def PAGE_SIZE_4K_def MMIO_IDENTITY_LIMIT_def)

lemma demo_pool_eq:
  "demo_pool = \<lparr>pmm_base = 4096, pmm_end = 16384, pmm_free_head = 8192,
      pmm_mem = (\<lambda>_. 0)(8192 := 4096, 12288 := 8192),
      pmm_total = 3, pmm_free = 2, pmm_inited = True\<rparr>"
  by (simp add: demo_pool_def demo_init pmm_alloc_page_def)

lemma demo_reachable: "pmm_reachable 4096 16384 (demo_pool, {12288})"
proof -
  have "pmm_alloc_page (pmm_init 4096 16384 demo_boot) = (demo_pool, 12288)"
    by (simp add: demo_pool_def demo_init pmm_alloc_page_def)
  then have "pmm_step (pmm_init 4096 16384 demo_boot, {}) (demo_pool, {12288})"
    by (rule step_alloc) simp
  with reach_init show ?thesis by (rule reach_step)
qed

theorem pmm_alloc_exclusive_witness:
  "snd (pmm_alloc_page demo_pool) = 8192 \<and>
   (8192 :: nat) \<notin> {12288} \<and> 8192 mod PAGE_SIZE_4K = 0 \<and> (4096 :: nat) \<le> 8192 \<and>
   8192 + PAGE_SIZE_4K \<le> min 16384 MMIO_IDENTITY_LIMIT"
proof -
  have a: "pmm_alloc_page demo_pool = (fst (pmm_alloc_page demo_pool), 8192)"
    by (simp add: demo_pool_eq pmm_alloc_page_def)
  show ?thesis
    using pmm_alloc_exclusive [OF demo_boot_ok demo_reachable a] by (subst a) simp
qed

text \<open>
  C5. The page count is exact: in every reachable state the counter \<open>pmm_free_pages\<close> reports plus
  the number of owned pages is the number of pages carved at boot, and an allocation fails
  exactly when the counter is 0, that is when the clients own the whole arena.
\<close>

theorem pmm_page_accounting:
  assumes "pmm_boot_ok lo hi" and "pmm_reachable lo hi (s, own)"
  shows "pmm_free_pages s + card own = pmm_total_pages s \<and>
         pmm_total_pages s = (boot_hi hi - boot_lo lo) div PAGE_SIZE_4K \<and>
         (snd (pmm_alloc_page s) = 0 \<longleftrightarrow> pmm_free_pages s = 0)"
proof -
  have inv: "pmm_sys_inv lo hi (s, own)"
    using assms by (rule pmm_reachable_inv [rotated])
  then obtain fs where "pmm_rep s fs"
    by (auto simp: pmm_sys_inv_def pmm_pool.pool_inv_def)
  then have "snd (pmm_alloc_page s) = 0 \<longleftrightarrow> pmm_free s = 0"
    using pmm_pool.alloc_nil pmm_pool.alloc_cons pmm_pool.rep_arena pmm_pool.null_arena
    by (cases fs) (fastforce simp: pmm_rep_def)+
  with inv pmm_inv_accounting [OF inv] show ?thesis
    by (simp add: pmm_free_pages_def pmm_total_pages_def pmm_sys_inv_def arena_pages_def)
qed

theorem pmm_page_accounting_witness:
  "pmm_free_pages demo_pool + card {12288 :: nat} = pmm_total_pages demo_pool \<and>
   pmm_total_pages demo_pool = (boot_hi 16384 - boot_lo 4096) div PAGE_SIZE_4K \<and>
   (snd (pmm_alloc_page demo_pool) = 0 \<longleftrightarrow> pmm_free_pages demo_pool = 0)"
  using pmm_page_accounting [OF demo_boot_ok demo_reachable] .

end
