(* ===== verification/Heap.thy ===== *)
theory Heap
  imports Prelude
begin

text \<open>
  The kernel object heap, \<open>mem/heap.c\<close>: blocks tile one region, each block starts with a header
  (\<open>heap_block_header_t\<close>, 64 bytes), the headers form a doubly linked list in address order and
  the free ones a second doubly linked list.

  The state is the file's static variables, the headers as a store indexed by header address
  (\<open>hdr\<close>), the payload bytes (\<open>hmem\<close>) and the diagnostics printed so far (\<open>heap_log\<close>, one
  constructor per \<open>kprintf\<close> call site). A pointer is an address and 0 is \<open>NULL\<close>. The spinlock
  makes each operation atomic. Loops that follow pointers are \<open>partial_function (option)\<close>: a
  corrupt list may make them run forever, which is the value \<open>None\<close>. \<open>HEAP_GUARD\<close> is 1, its
  default.
\<close>

section \<open>Headers and state\<close>

definition HDR :: nat where \<comment> \<open>\<open>sizeof(heap_block_header_t)\<close>\<close>
  "HDR = 64"

definition HEAP_MAGIC_FREE :: nat where
  "HEAP_MAGIC_FREE = 0xC0FFEE00"

definition HEAP_MAGIC_ALLOC :: nat where
  "HEAP_MAGIC_ALLOC = 0xC0FFEE01"

text \<open>The bytes of \<open>HEAP_CANARY_QWORD\<close> = \<open>0xDEADBEEFCAFEBABE\<close> in memory order.\<close>

definition HEAP_CANARY :: "byte list" where
  "HEAP_CANARY = [0xBE, 0xBA, 0xFE, 0xCA, 0xEF, 0xBE, 0xAD, 0xDE]"

record heap_block_header =
  hb_size :: nat
  hb_next :: addr
  hb_prev :: addr
  hb_free_next :: addr
  hb_free_prev :: addr
  hb_magic :: nat
  hb_free :: bool
  hb_req :: nat
  hb_caller :: addr

datatype heap_msg =
    InvalidFree addr
  | InvalidFreeHeader addr
  | DoubleFree addr
  | OverflowDetected addr
  | InvalidRealloc addr
  | InvalidReallocHeader addr
  | OutOfMemory nat
  | ReallocFailed addr nat

record heap_state =
  heap_base :: addr
  heap_capacity :: nat
  head :: addr
  alloc_rover :: addr
  free_head :: addr
  heap_used_now :: nat
  heap_peak :: nat
  hdr :: "addr \<Rightarrow> heap_block_header"
  hmem :: "addr \<Rightarrow> byte"
  heap_log :: "heap_msg list"

text \<open>\<open>b->f = v\<close>\<close>

definition set_hdr :: "addr \<Rightarrow> (heap_block_header \<Rightarrow> heap_block_header) \<Rightarrow> heap_state \<Rightarrow> heap_state" where
  "set_hdr b f s = s\<lparr>hdr := (hdr s)(b := f (hdr s b))\<rparr>"

definition heap_say :: "heap_msg \<Rightarrow> heap_state \<Rightarrow> heap_state" where
  "heap_say m s = s\<lparr>heap_log := heap_log s @ [m]\<rparr>"

definition ALIGN16 :: "nat \<Rightarrow> nat" where
  "ALIGN16 x = align_down64 (add64 x 15) 16"

definition heap_ptr_in_range :: "heap_state \<Rightarrow> addr \<Rightarrow> bool" where
  "heap_ptr_in_range s a \<longleftrightarrow> \<not> (heap_base s = 0 \<or> heap_capacity s = 0) \<and>
     heap_base s \<le> a \<and> a < add64 (heap_base s) (heap_capacity s)"

definition heap_range_in_range :: "heap_state \<Rightarrow> addr \<Rightarrow> nat \<Rightarrow> bool" where
  "heap_range_in_range s a n =
     (if heap_base s = 0 \<or> heap_capacity s = 0 then False
      else if n = 0 then heap_ptr_in_range s a
      else let lo = heap_base s; hi = add64 (heap_base s) (heap_capacity s)
           in if a < lo then False
              else if hi \<le> a then False
              else if sub64 hi a < n then False
              else True)"

text \<open>\<open>_end\<close> (the end of the kernel image, from the linker) is the parameter \<open>kend\<close>.\<close>

definition heap_init :: "addr \<Rightarrow> addr \<Rightarrow> nat \<Rightarrow> heap_state \<Rightarrow> heap_state" where
  "heap_init kend start0 size0 s =
     (let start = (if start0 = 0 then align_down64 (add64 kend 0xFFF) 0x1000 else start0);
          cap = (if size0 = 0 then 512 * 1024 * 1024 else size0);
          s1 = s\<lparr>heap_base := start, heap_capacity := cap, head := start\<rparr>;
          s2 = set_hdr start (\<lambda>h. h\<lparr>hb_size := sub64 cap HDR, hb_next := 0, hb_prev := 0,
                 hb_free := True, hb_magic := HEAP_MAGIC_FREE, hb_req := 0, hb_caller := 0,
                 hb_free_next := 0, hb_free_prev := 0\<rparr>) s1
      in s2\<lparr>alloc_rover := start, free_head := start, heap_used_now := 0, heap_peak := 0\<rparr>)"

section \<open>The free list\<close>

definition fl_remove :: "addr \<Rightarrow> heap_state \<Rightarrow> heap_state" where
  "fl_remove b s =
     (if b = 0 then s
      else let s1 = (if hb_free_prev (hdr s b) \<noteq> 0
                     then set_hdr (hb_free_prev (hdr s b))
                            (\<lambda>h. h\<lparr>hb_free_next := hb_free_next (hdr s b)\<rparr>) s
                     else if free_head s = b
                     then s\<lparr>free_head := hb_free_next (hdr s b)\<rparr>
                     else s);
               s2 = (if hb_free_next (hdr s1 b) \<noteq> 0
                     then set_hdr (hb_free_next (hdr s1 b))
                            (\<lambda>h. h\<lparr>hb_free_prev := hb_free_prev (hdr s1 b)\<rparr>) s1
                     else s1)
           in set_hdr b (\<lambda>h. h\<lparr>hb_free_next := 0, hb_free_prev := 0\<rparr>) s2)"

definition fl_insert :: "addr \<Rightarrow> heap_state \<Rightarrow> heap_state" where
  "fl_insert b s =
     (if b = 0 then s
      else let s1 = set_hdr b (\<lambda>h. h\<lparr>hb_free_prev := 0, hb_free_next := free_head s\<rparr>) s;
               s2 = (if free_head s1 \<noteq> 0
                     then set_hdr (free_head s1) (\<lambda>h. h\<lparr>hb_free_prev := b\<rparr>) s1 else s1)
           in s2\<lparr>free_head := b\<rparr>)"

section \<open>Splitting and coalescing\<close>

definition split_block :: "addr \<Rightarrow> nat \<Rightarrow> heap_state \<Rightarrow> heap_state" where
  "split_block blk sz s =
     (let remaining = sub64 (hb_size (hdr s blk)) sz
      in if remaining \<le> HDR + 16 then s
         else let newblk = add64 (add64 blk HDR) sz;
                  s1 = set_hdr newblk (\<lambda>h. h\<lparr>hb_size := sub64 remaining HDR, hb_free := True,
                         hb_magic := HEAP_MAGIC_FREE, hb_req := 0, hb_caller := 0,
                         hb_next := hb_next (hdr s blk), hb_prev := blk,
                         hb_free_next := 0, hb_free_prev := 0\<rparr>) s;
                  nn = hb_next (hdr s1 newblk);
                  s2 = (if nn \<noteq> 0 then set_hdr nn (\<lambda>h. h\<lparr>hb_prev := newblk\<rparr>) s1 else s1);
                  s3 = set_hdr blk (\<lambda>h. h\<lparr>hb_next := newblk, hb_size := sz\<rparr>) s2;
                  s4 = fl_insert newblk s3;
                  nx = hb_next (hdr s4 newblk)
              in if nx \<noteq> 0 \<and> hb_free (hdr s4 nx) \<and> hb_magic (hdr s4 nx) = HEAP_MAGIC_FREE
                 then let s5 = fl_remove nx s4;
                          s6 = set_hdr newblk (\<lambda>h. h\<lparr>hb_size :=
                                 add64 (hb_size h) (add64 HDR (hb_size (hdr s5 nx))),
                                 hb_next := hb_next (hdr s5 nx)\<rparr>) s5;
                          n2 = hb_next (hdr s6 newblk)
                      in if n2 \<noteq> 0 then set_hdr n2 (\<lambda>h. h\<lparr>hb_prev := newblk\<rparr>) s6 else s6
                 else s4)"

text \<open>The two halves of \<open>coalesce\<close>, in the order of the code.\<close>

definition coalesce_next :: "addr \<Rightarrow> heap_state \<Rightarrow> heap_state" where
  "coalesce_next blk s =
     (let nx = hb_next (hdr s blk)
      in if nx \<noteq> 0 \<and> hb_free (hdr s nx)
         then let s1 = (if alloc_rover s = nx then s\<lparr>alloc_rover := blk\<rparr> else s);
                  s2 = fl_remove nx s1;
                  s3 = set_hdr blk (\<lambda>h. h\<lparr>hb_size :=
                         add64 (hb_size h) (add64 HDR (hb_size (hdr s2 nx))),
                         hb_next := hb_next (hdr s2 nx)\<rparr>) s2;
                  n2 = hb_next (hdr s3 blk)
              in if n2 \<noteq> 0 then set_hdr n2 (\<lambda>h. h\<lparr>hb_prev := blk\<rparr>) s3 else s3
         else s)"

definition coalesce_prev :: "addr \<Rightarrow> heap_state \<Rightarrow> heap_state \<times> addr" where
  "coalesce_prev blk s =
     (let pv = hb_prev (hdr s blk)
      in if pv \<noteq> 0 \<and> hb_free (hdr s pv)
         then let s1 = (if alloc_rover s = blk then s\<lparr>alloc_rover := pv\<rparr> else s);
                  s2 = fl_remove blk s1;
                  s3 = set_hdr pv (\<lambda>h. h\<lparr>hb_size :=
                         add64 (hb_size h) (add64 HDR (hb_size (hdr s2 blk))),
                         hb_next := hb_next (hdr s2 blk)\<rparr>) s2;
                  n2 = hb_next (hdr s3 blk);
                  s4 = (if n2 \<noteq> 0 then set_hdr n2 (\<lambda>h. h\<lparr>hb_prev := pv\<rparr>) s3 else s3)
              in (set_hdr pv (\<lambda>h. h\<lparr>hb_magic := HEAP_MAGIC_FREE, hb_req := 0,
                    hb_caller := 0\<rparr>) s4, pv)
         else (set_hdr blk (\<lambda>h. h\<lparr>hb_magic := HEAP_MAGIC_FREE, hb_req := 0,
                 hb_caller := 0\<rparr>) s, blk))"

definition coalesce :: "addr \<Rightarrow> heap_state \<Rightarrow> heap_state \<times> addr" where
  "coalesce blk s = coalesce_prev blk (coalesce_next blk s)"

section \<open>Payload bytes\<close>

definition write_bytes :: "addr \<Rightarrow> byte list \<Rightarrow> heap_state \<Rightarrow> heap_state" where
  "write_bytes a bs s =
     s\<lparr>hmem := (\<lambda>x. if a \<le> x \<and> x < a + length bs then bs ! (x - a) else hmem s x)\<rparr>"

definition read_bytes :: "addr \<Rightarrow> nat \<Rightarrow> heap_state \<Rightarrow> byte list" where
  "read_bytes a n s = map (\<lambda>i. hmem s (a + i)) [0..<n]"

section \<open>Allocation\<close>

text \<open>The body of the search loop of \<open>kmalloc_nolock\<close> once \<open>cur\<close> fits.\<close>

definition kmalloc_take :: "addr \<Rightarrow> nat \<Rightarrow> nat \<Rightarrow> addr \<Rightarrow> heap_state \<Rightarrow> heap_state \<times> addr" where
  "kmalloc_take cur sz req caller s =
     (let s1 = fl_remove cur s;
          s2 = split_block cur sz s1;
          s3 = set_hdr cur (\<lambda>h. h\<lparr>hb_free := False, hb_magic := HEAP_MAGIC_ALLOC,
                 hb_req := req, hb_free_next := 0, hb_free_prev := 0, hb_caller := caller\<rparr>) s2;
          used = add64 (heap_used_now s3) (hb_size (hdr s3 cur));
          s4 = s3\<lparr>heap_used_now := used,
                  heap_peak := (if heap_peak s3 < used then used else heap_peak s3)\<rparr>;
          p = add64 cur HDR;
          s5 = write_bytes (add64 p req) HEAP_CANARY s4
      in (s5\<lparr>alloc_rover := (if hb_next (hdr s5 cur) \<noteq> 0 then hb_next (hdr s5 cur)
                            else head s5)\<rparr>, p))"

partial_function (option) kmalloc_search ::
    "addr \<Rightarrow> nat \<Rightarrow> nat \<Rightarrow> addr \<Rightarrow> heap_state \<Rightarrow> (heap_state \<times> addr) option" where
  "kmalloc_search cur sz req caller s =
     (if cur = 0 then Some (s, 0)
      else if hb_free (hdr s cur) \<and> hb_magic (hdr s cur) = HEAP_MAGIC_FREE \<and>
              sz \<le> hb_size (hdr s cur)
      then Some (kmalloc_take cur sz req caller s)
      else kmalloc_search (hb_free_next (hdr s cur)) sz req caller s)"

definition kmalloc_nolock :: "nat \<Rightarrow> addr \<Rightarrow> heap_state \<Rightarrow> (heap_state \<times> addr) option" where
  "kmalloc_nolock req caller s =
     (if head s = 0 \<or> req = 0 then Some (s, 0)
      else if free_head s = 0 then Some (s, 0)
      else kmalloc_search (free_head s) (ALIGN16 (add64 req 8)) req caller s)"

section \<open>Freeing\<close>

definition heap_canary_ok :: "addr \<Rightarrow> addr \<Rightarrow> heap_state \<Rightarrow> bool" where
  "heap_canary_ok ptr blk s =
     (let canp = add64 ptr (hb_req (hdr s blk))
      in if \<not> heap_range_in_range s canp 8 then False
         else read_bytes canp 8 s = HEAP_CANARY)"

definition kfree_nolock :: "addr \<Rightarrow> heap_state \<Rightarrow> heap_state" where
  "kfree_nolock ptr s =
     (if ptr = 0 then s
      else if \<not> heap_ptr_in_range s ptr then heap_say (InvalidFree ptr) s
      else let blk = sub64 ptr HDR
           in if \<not> heap_ptr_in_range s blk then heap_say (InvalidFreeHeader ptr) s
              else if hb_magic (hdr s blk) \<noteq> HEAP_MAGIC_ALLOC \<or> hb_free (hdr s blk)
              then heap_say (DoubleFree ptr) s
              else let s0 = (if heap_canary_ok ptr blk s then s else heap_say (OverflowDetected ptr) s);
                       s1 = set_hdr blk (\<lambda>h. h\<lparr>hb_free := True, hb_magic := HEAP_MAGIC_FREE,
                              hb_free_next := 0, hb_free_prev := 0\<rparr>) s0;
                       s2 = s1\<lparr>heap_used_now :=
                              (if hb_size (hdr s1 blk) \<le> heap_used_now s1
                               then heap_used_now s1 - hb_size (hdr s1 blk) else 0)\<rparr>;
                       pv = hb_prev (hdr s2 blk);
                       had_free_prev = (pv \<noteq> 0 \<and> hb_free (hdr s2 pv));
                       (s3, surv) = coalesce blk s2
                   in if \<not> had_free_prev then fl_insert surv s3 else s3)"

section \<open>Reallocation\<close>

text \<open>
  The accumulation loop of \<open>krealloc_nolock\<close>: walk the free blocks after \<open>blk\<close> until
  \<open>new_size\<close> bytes are there. Returns the rover, the bytes accumulated and the last block
  absorbed (0 for none).
\<close>

partial_function (option) krealloc_scan ::
    "addr \<Rightarrow> addr \<Rightarrow> nat \<Rightarrow> addr \<Rightarrow> nat \<Rightarrow> addr \<Rightarrow> heap_state \<Rightarrow> (addr \<times> nat \<times> addr) option" where
  "krealloc_scan blk scan new_size rover acc last_absorbed s =
     (if scan = 0 \<or> \<not> hb_free (hdr s scan) then Some (rover, acc, last_absorbed)
      else if hb_magic (hdr s scan) \<noteq> HEAP_MAGIC_FREE then Some (rover, acc, last_absorbed)
      else let rover' = (if rover = scan then blk else rover);
               acc' = add64 acc (add64 HDR (hb_size (hdr s scan)))
           in if new_size \<le> acc' then Some (rover', acc', scan)
              else krealloc_scan blk (hb_next (hdr s scan)) new_size rover' acc' scan s)"

text \<open>Take the absorbed blocks \<open>gone\<close>, \<open>gone->next\<close>, ... up to \<open>after\<close> off the free list.\<close>

partial_function (option) krealloc_absorb :: "addr \<Rightarrow> addr \<Rightarrow> heap_state \<Rightarrow> heap_state option" where
  "krealloc_absorb gone after s =
     (if gone = 0 \<or> gone = after then Some s
      else krealloc_absorb (hb_next (hdr s gone)) after (fl_remove gone s))"

definition krealloc_stamp :: "addr \<Rightarrow> nat \<Rightarrow> addr \<Rightarrow> heap_state \<Rightarrow> heap_state" where
  "krealloc_stamp blk new_req caller s =
     write_bytes (add64 (add64 blk HDR) new_req) HEAP_CANARY
       (set_hdr blk (\<lambda>h. h\<lparr>hb_req := new_req, hb_caller := caller\<rparr>) s)"

definition krealloc_shrink :: "addr \<Rightarrow> nat \<Rightarrow> nat \<Rightarrow> addr \<Rightarrow> heap_state \<Rightarrow> heap_state" where
  "krealloc_shrink blk new_size new_req caller s =
     (let old_size = hb_size (hdr s blk);
          s1 = split_block blk new_size s;
          new_alloc_size = hb_size (hdr s1 blk);
          s2 = (if new_alloc_size < old_size
                then let diff = sub64 old_size new_alloc_size
                     in s1\<lparr>heap_used_now := (if diff \<le> heap_used_now s1
                                            then heap_used_now s1 - diff else 0)\<rparr>
                else s1)
      in krealloc_stamp blk new_req caller s2)"

definition krealloc_grow :: "addr \<Rightarrow> nat \<Rightarrow> nat \<Rightarrow> addr \<Rightarrow> nat \<Rightarrow> addr \<Rightarrow> heap_state \<Rightarrow> heap_state option" where
  "krealloc_grow blk new_size new_req caller acc last_absorbed s =
     (let old_size = hb_size (hdr s blk);
          after = (if last_absorbed \<noteq> 0 then hb_next (hdr s last_absorbed) else 0)
      in case krealloc_absorb (hb_next (hdr s blk)) after s of
           None \<Rightarrow> None
         | Some s1 \<Rightarrow>
             let s2 = set_hdr blk (\<lambda>h. h\<lparr>hb_size := acc, hb_next := after\<rparr>) s1;
                 s3 = (if after \<noteq> 0 then set_hdr after (\<lambda>h. h\<lparr>hb_prev := blk\<rparr>) s2 else s2);
                 s4 = split_block blk new_size s3;
                 used = add64 (heap_used_now s4) (sub64 new_size old_size);
                 s5 = s4\<lparr>heap_used_now := used,
                         heap_peak := (if heap_peak s4 < used then used else heap_peak s4)\<rparr>
             in Some (krealloc_stamp blk new_req caller s5))"

definition krealloc_move :: "addr \<Rightarrow> nat \<Rightarrow> nat \<Rightarrow> addr \<Rightarrow> heap_state \<Rightarrow> (heap_state \<times> addr) option" where
  "krealloc_move ptr old_req new_req caller s =
     (case kmalloc_nolock new_req caller s of
        None \<Rightarrow> None
      | Some (s1, n) \<Rightarrow>
          if n = 0 then Some (s1, 0)
          else let to_copy = (if old_req < new_req then old_req else new_req);
                   s2 = write_bytes n (read_bytes ptr to_copy s1) s1;
                   s3 = kfree_nolock ptr s2;
                   nblk = sub64 n HDR
               in Some (if heap_ptr_in_range s3 nblk
                        then set_hdr nblk (\<lambda>h. h\<lparr>hb_caller := caller\<rparr>) s3 else s3, n))"

definition krealloc_nolock :: "addr \<Rightarrow> nat \<Rightarrow> addr \<Rightarrow> heap_state \<Rightarrow> (heap_state \<times> addr) option" where
  "krealloc_nolock ptr new_req caller s =
     (if ptr = 0 then kmalloc_nolock new_req caller s
      else if new_req = 0 then Some (kfree_nolock ptr s, 0)
      else if \<not> heap_ptr_in_range s ptr then Some (heap_say (InvalidRealloc ptr) s, 0)
      else let blk = sub64 ptr HDR
           in if \<not> heap_ptr_in_range s blk \<or> hb_magic (hdr s blk) \<noteq> HEAP_MAGIC_ALLOC \<or>
                 hb_free (hdr s blk)
              then Some (heap_say (InvalidReallocHeader ptr) s, 0)
              else let old_size = hb_size (hdr s blk);
                       old_req = hb_req (hdr s blk);
                       new_size = ALIGN16 (add64 new_req 8);
                       nx = hb_next (hdr s blk)
                   in if new_size \<le> old_size
                      then Some (krealloc_shrink blk new_size new_req caller s, ptr)
                      else if nx \<noteq> 0 \<and> hb_free (hdr s nx)
                      then case krealloc_scan blk nx new_size (alloc_rover s) old_size 0 s of
                             None \<Rightarrow> None
                           | Some (rover, acc, last_absorbed) \<Rightarrow>
                               let s1 = s\<lparr>alloc_rover := rover\<rparr>
                               in if new_size \<le> acc
                                  then map_option (\<lambda>s'. (s', ptr))
                                         (krealloc_grow blk new_size new_req caller acc last_absorbed s1)
                                  else krealloc_move ptr old_req new_req caller s1
                      else krealloc_move ptr old_req new_req caller s)"

section \<open>The locked entry points and the statistics\<close>

definition kmalloc :: "nat \<Rightarrow> addr \<Rightarrow> heap_state \<Rightarrow> (heap_state \<times> addr) option" where
  "kmalloc sz caller s =
     (case kmalloc_nolock sz caller s of
        None \<Rightarrow> None
      | Some (s', p) \<Rightarrow>
          Some (if p = 0 \<and> sz \<noteq> 0 then heap_say (OutOfMemory sz) s' else s', p))"

definition kfree :: "addr \<Rightarrow> heap_state \<Rightarrow> heap_state" where
  "kfree ptr s = kfree_nolock ptr s"

definition krealloc :: "addr \<Rightarrow> nat \<Rightarrow> addr \<Rightarrow> heap_state \<Rightarrow> (heap_state \<times> addr) option" where
  "krealloc ptr new_size caller s =
     (case krealloc_nolock ptr new_size caller s of
        None \<Rightarrow> None
      | Some (s', p) \<Rightarrow>
          Some (if p = 0 \<and> ptr \<noteq> 0 \<and> new_size \<noteq> 0
                then heap_say (ReallocFailed ptr new_size) s' else s', p))"

definition kcalloc :: "nat \<Rightarrow> nat \<Rightarrow> addr \<Rightarrow> heap_state \<Rightarrow> (heap_state \<times> addr) option" where
  "kcalloc num sz caller s =
     (let tot = mul64 num sz
      in case kmalloc tot caller s of
           None \<Rightarrow> None
         | Some (s', p) \<Rightarrow>
             Some (if p \<noteq> 0 then write_bytes p (replicate tot 0) s' else s', p))"

partial_function (option) heap_largest_loop :: "addr \<Rightarrow> nat \<Rightarrow> heap_state \<Rightarrow> nat option" where
  "heap_largest_loop cur mx s =
     (if cur = 0 then Some mx
      else heap_largest_loop (hb_free_next (hdr s cur))
             (if hb_free (hdr s cur) \<and> mx < hb_size (hdr s cur) then hb_size (hdr s cur) else mx) s)"

definition heap_largest_free_block :: "heap_state \<Rightarrow> nat option" where
  "heap_largest_free_block s = heap_largest_loop (free_head s) 0 s"

partial_function (option) heap_total_loop :: "addr \<Rightarrow> nat \<Rightarrow> heap_state \<Rightarrow> nat option" where
  "heap_total_loop cur tot s =
     (if cur = 0 then Some tot
      else heap_total_loop (hb_free_next (hdr s cur))
             (if hb_free (hdr s cur) then add64 tot (hb_size (hdr s cur)) else tot) s)"

definition heap_total_free_bytes :: "heap_state \<Rightarrow> nat option" where
  "heap_total_free_bytes s = heap_total_loop (free_head s) 0 s"

definition heap_total_bytes :: "heap_state \<Rightarrow> nat" where
  "heap_total_bytes s = heap_capacity s"

definition heap_used_bytes :: "heap_state \<Rightarrow> nat" where
  "heap_used_bytes s = heap_used_now s"

definition heap_peak_bytes :: "heap_state \<Rightarrow> nat" where
  "heap_peak_bytes s = heap_peak s"

definition heap_free_bytes :: "heap_state \<Rightarrow> nat option" where
  "heap_free_bytes s = heap_total_free_bytes s"

definition heap_largest_free :: "heap_state \<Rightarrow> nat option" where
  "heap_largest_free s = heap_largest_free_block s"

definition heap_base_addr :: "heap_state \<Rightarrow> addr" where
  "heap_base_addr s = heap_base s"

definition heap_region_end_exclusive :: "heap_state \<Rightarrow> addr" where
  "heap_region_end_exclusive s =
     (if heap_base s = 0 \<or> heap_capacity s = 0 then heap_base s
      else let hi = add64 (heap_base s) (heap_capacity s)
           in if hi < heap_base s then 2 ^ 64 - 1 else hi)"

definition heap_ptr_is_kmalloc :: "heap_state \<Rightarrow> addr \<Rightarrow> bool" where
  "heap_ptr_is_kmalloc s ptr =
     (if ptr = 0 \<or> \<not> heap_ptr_in_range s ptr then False
      else let blk = sub64 ptr HDR
           in if \<not> heap_ptr_in_range s blk then False
              else hb_magic (hdr s blk) = HEAP_MAGIC_ALLOC \<and> \<not> hb_free (hdr s blk))"

section \<open>Worked examples\<close>

text \<open>A heap of one page at address 4096, one of 1024 bytes, and what a few calls return on them.\<close>

definition demo_heap0 :: heap_state where
  "demo_heap0 = \<lparr>heap_base = 0, heap_capacity = 0, head = 0, alloc_rover = 0, free_head = 0,
     heap_used_now = 0, heap_peak = 0,
     hdr = (\<lambda>_. \<lparr>hb_size = 0, hb_next = 0, hb_prev = 0, hb_free_next = 0, hb_free_prev = 0,
                  hb_magic = 0, hb_free = False, hb_req = 0, hb_caller = 0\<rparr>),
     hmem = (\<lambda>_. 0), heap_log = []\<rparr>"

definition demo_heap :: heap_state where
  "demo_heap = heap_init 0 4096 4096 demo_heap0"

definition demo_heap_small :: heap_state where
  "demo_heap_small = heap_init 0 4096 1024 demo_heap0"

lemmas heap_eval = heap_init_def demo_heap_def demo_heap_small_def demo_heap0_def set_hdr_def Let_def
  add64_def sub64_def mul64_def HDR_def ALIGN16_def HEAP_MAGIC_FREE_def HEAP_MAGIC_ALLOC_def
  HEAP_CANARY_def align_down64_def heap_ptr_in_range_def heap_range_in_range_def heap_say_def
  fl_remove_def fl_insert_def split_block_def write_bytes_def kmalloc_def kmalloc_nolock_def
  kmalloc_search.simps kmalloc_take_def krealloc_def krealloc_nolock_def krealloc_scan.simps
  krealloc_absorb.simps krealloc_grow_def krealloc_stamp_def

lemma demo_kmalloc: "map_option snd (kmalloc 100 7 demo_heap) = Some 4160"
  by (simp add: heap_eval cong: let_weak_cong)

lemma demo_kmalloc_huge:
  "map_option (\<lambda>(s, p). (p, hb_size (hdr s (p - HDR)))) (kmalloc (2 ^ 64 - 8) 7 demo_heap) = Some (4160, 0)"
  by (simp add: heap_eval cong: let_weak_cong)

text \<open>Grow an 8-byte object to 930 bytes in place: the 16 bytes left over are too few for a block of
  their own and stay with the object.\<close>

definition demo_grow :: "heap_state \<Rightarrow> (heap_state \<times> addr) option" where
  "demo_grow s = (case kmalloc 8 7 s of None \<Rightarrow> None | Some (s1, p) \<Rightarrow> krealloc p 930 7 s1)"

lemma demo_grow_eval:
  "map_option (\<lambda>(s, p). (p, heap_used_now s, hb_size (hdr s (p - HDR)))) (demo_grow demo_heap_small) =
     Some (4160, 944, 960)"
  by (simp add: demo_grow_def heap_eval cong: let_weak_cong)

end
