(* ===== verification/Frame.thy ===== *)
theory Frame
  imports Pmm Heap
begin

text \<open>
  Reference-counted physical frames, \<open>mm/frame.c\<close>: a table of slots, each either on the free list or
  on the hash chain of the frame it describes (one \<open>link\<close> field serves both lists).

  The state is the file's static variables and the two allocators the code calls: the page pool
  (\<open>Pmm\<close>) and the heap (\<open>Heap\<close>). The tables are stores indexed by slot and by bucket;
  \<open>frames_p\<close> and \<open>frame_hash_p\<close> are the pointers the code compares with \<open>NULL\<close>. Links and slots
  are \<open>int\<close> with -1 for none, as in the source. Chain walks are \<open>partial_function (option)\<close>, so a
  walk that never ends is \<open>None\<close>.
\<close>

section \<open>State\<close>

definition FRAME_META_MAX :: nat where
  "FRAME_META_MAX = 262144"

definition FRAME_HASH_SIZE :: nat where
  "FRAME_HASH_SIZE = 8192"

record frame_meta =
  fm_pa :: addr
  fm_raw :: addr
  fm_refs :: nat
  fm_link :: int

record frame_state =
  frames_p :: addr
  frames :: "int \<Rightarrow> frame_meta"
  frames_cap :: nat
  frame_hash_p :: addr
  frame_hash :: "nat \<Rightarrow> int"
  frame_free_head :: int
  f_pmm :: pmm_state
  f_heap :: heap_state

definition set_frame :: "int \<Rightarrow> (frame_meta \<Rightarrow> frame_meta) \<Rightarrow> frame_state \<Rightarrow> frame_state" where
  "set_frame i f s = s\<lparr>frames := (frames s)(i := f (frames s i))\<rparr>"

text \<open>\<open>pa & PG_ADDR_MASK\<close>: bits 12 to 51.\<close>

definition pg_addr :: "addr \<Rightarrow> addr" where
  "pg_addr pa = pa mod 2 ^ 52 div 2 ^ 12 * 2 ^ 12"

definition frame_hash_pa :: "addr \<Rightarrow> nat" where
  "frame_hash_pa pa = pg_addr pa div 2 ^ 12 mod FRAME_HASH_SIZE"

section \<open>Initialisation\<close>

definition FRAME_META_SIZE :: nat where \<comment> \<open>\<open>sizeof(frame_meta_t)\<close>\<close>
  "FRAME_META_SIZE = 24"

text \<open>The loop \<open>for (int i = frames_cap - 1; i >= 0; --i)\<close>; the argument is \<open>i + 1\<close>.\<close>

primrec frame_init_loop :: "nat \<Rightarrow> frame_state \<Rightarrow> frame_state" where
  "frame_init_loop 0 s = s"
| "frame_init_loop (Suc i) s =
     frame_init_loop i ((set_frame (int i) (\<lambda>m. m\<lparr>fm_link := frame_free_head s\<rparr>) s)
                          \<lparr>frame_free_head := int i\<rparr>)"

text \<open>The part under the lock: clear the table, empty the buckets, thread the free list.\<close>

definition frame_init_tables :: "heap_state \<Rightarrow> addr \<Rightarrow> nat \<Rightarrow> addr \<Rightarrow> frame_state \<Rightarrow> frame_state" where
  "frame_init_tables h p cap hp s =
     (let zero = \<lparr>fm_pa = 0, fm_raw = 0, fm_refs = 0, fm_link = 0\<rparr>;
          s1 = s\<lparr>f_heap := h, frames_p := p, frames_cap := cap,
                 frames := (if p \<noteq> 0
                   then (\<lambda>i. if 0 \<le> i \<and> i < int cap then zero else frames s i)
                   else frames s),
                 frame_hash_p := hp,
                 frame_hash := (if hp \<noteq> 0
                   then (\<lambda>k. if k < FRAME_HASH_SIZE then -1 else frame_hash s k)
                   else frame_hash s),
                 frame_free_head := -1\<rparr>
      in if p \<noteq> 0 then frame_init_loop cap s1 else s1)"

definition frame_init :: "addr \<Rightarrow> frame_state \<Rightarrow> frame_state option" where
  "frame_init caller s =
     (case kmalloc (FRAME_META_SIZE * FRAME_META_MAX) caller (f_heap s) of
        None \<Rightarrow> None
      | Some (h1, p1) \<Rightarrow>
          (case (if p1 = 0 then map_option (\<lambda>(h, p). (h, p, 4096))
                                  (kmalloc (FRAME_META_SIZE * 4096) caller h1)
                 else Some (h1, p1, FRAME_META_MAX)) of
             None \<Rightarrow> None
           | Some (h2, p2, cap) \<Rightarrow>
               (case kmalloc (4 * FRAME_HASH_SIZE) caller h2 of
                  None \<Rightarrow> None
                | Some (h3, hp) \<Rightarrow> Some (frame_init_tables h3 p2 cap hp s))))"

section \<open>Slots\<close>

text \<open>The linear scan used when there is no hash table.\<close>

fun frame_scan :: "nat \<Rightarrow> nat \<Rightarrow> addr \<Rightarrow> frame_state \<Rightarrow> int" where
  "frame_scan i 0 pa s = -1"
| "frame_scan i (Suc n) pa s =
     (if fm_refs (frames s (int i)) \<noteq> 0 \<and> fm_pa (frames s (int i)) = pa then int i
      else frame_scan (Suc i) n pa s)"

partial_function (option) frame_chain :: "int \<Rightarrow> addr \<Rightarrow> frame_state \<Rightarrow> int option" where
  "frame_chain i pa s =
     (if i < 0 then Some (-1)
      else if fm_refs (frames s i) \<noteq> 0 \<and> fm_pa (frames s i) = pa then Some i
      else frame_chain (fm_link (frames s i)) pa s)"

definition frame_slot_locked :: "addr \<Rightarrow> frame_state \<Rightarrow> int option" where
  "frame_slot_locked pa0 s =
     (let pa = pg_addr pa0
      in if frames_p s = 0 then Some (-1)
         else if frame_hash_p s = 0 then Some (frame_scan 0 (frames_cap s) pa s)
         else frame_chain (frame_hash s (frame_hash_pa pa)) pa s)"

definition frame_take_free_locked :: "frame_state \<Rightarrow> frame_state \<times> int" where
  "frame_take_free_locked s =
     (if frames_p s = 0 then (s, -1)
      else let slot = frame_free_head s
           in if slot < 0 then (s, -1)
              else (set_frame slot (\<lambda>m. m\<lparr>fm_link := -1\<rparr>)
                      (s\<lparr>frame_free_head := fm_link (frames s slot)\<rparr>), slot))"

definition frame_return_free_locked :: "int \<Rightarrow> frame_state \<Rightarrow> frame_state" where
  "frame_return_free_locked slot s =
     (if frames_p s = 0 \<or> slot < 0 \<or> int (frames_cap s) \<le> slot then s
      else (set_frame slot (\<lambda>m. m\<lparr>fm_pa := 0, fm_raw := 0, fm_refs := 0,
                               fm_link := frame_free_head s\<rparr>) s)\<lparr>frame_free_head := slot\<rparr>)"

definition frame_hash_insert_locked :: "int \<Rightarrow> frame_state \<Rightarrow> frame_state" where
  "frame_hash_insert_locked slot s =
     (if frames_p s = 0 \<or> frame_hash_p s = 0 \<or> slot < 0 then s
      else let h = frame_hash_pa (fm_pa (frames s slot));
               s1 = set_frame slot (\<lambda>m. m\<lparr>fm_link := frame_hash s h\<rparr>) s
           in s1\<lparr>frame_hash := (frame_hash s1)(h := slot)\<rparr>)"

text \<open>The loop over \<open>int *pp\<close>: \<open>None\<close> is \<open>&frame_hash[h]\<close>, \<open>Some j\<close> is \<open>&frames[j].link\<close>.\<close>

definition pp_get :: "nat \<Rightarrow> int option \<Rightarrow> frame_state \<Rightarrow> int" where
  "pp_get h pp s = (case pp of None \<Rightarrow> frame_hash s h | Some j \<Rightarrow> fm_link (frames s j))"

definition pp_set :: "nat \<Rightarrow> int option \<Rightarrow> int \<Rightarrow> frame_state \<Rightarrow> frame_state" where
  "pp_set h pp v s = (case pp of None \<Rightarrow> s\<lparr>frame_hash := (frame_hash s)(h := v)\<rparr>
                      | Some j \<Rightarrow> set_frame j (\<lambda>m. m\<lparr>fm_link := v\<rparr>) s)"

partial_function (option) frame_unchain ::
    "nat \<Rightarrow> int option \<Rightarrow> int \<Rightarrow> frame_state \<Rightarrow> frame_state option" where
  "frame_unchain h pp slot s =
     (if pp_get h pp s < 0 then Some s
      else if pp_get h pp s = slot
      then Some (set_frame slot (\<lambda>m. m\<lparr>fm_link := -1\<rparr>) (pp_set h pp (fm_link (frames s slot)) s))
      else frame_unchain h (Some (pp_get h pp s)) slot s)"

definition frame_hash_remove_locked :: "int \<Rightarrow> frame_state \<Rightarrow> frame_state option" where
  "frame_hash_remove_locked slot s =
     (if frames_p s = 0 \<or> frame_hash_p s = 0 \<or> slot < 0 then Some s
      else frame_unchain (frame_hash_pa (fm_pa (frames s slot))) None slot s)"

section \<open>Operations\<close>

text \<open>The page \<open>frame_alloc\<close> works with: from the pool when it was carved, else from the heap.
  The result is the state, the page and \<open>raw\<close>; page 0 means the allocation failed.\<close>

definition frame_get_page :: "addr \<Rightarrow> frame_state \<Rightarrow> (frame_state \<times> addr \<times> addr) option" where
  "frame_get_page caller s =
     (if pmm_ready (f_pmm s)
      then let (p', page) = pmm_alloc_page (f_pmm s) in Some (s\<lparr>f_pmm := p'\<rparr>, page, 0)
      else case kmalloc (PAGE_SIZE_4K * 2) caller (f_heap s) of
             None \<Rightarrow> None
           | Some (h', raw) \<Rightarrow>
               Some (s\<lparr>f_heap := h'\<rparr>,
                     if raw = 0 then 0 else align_down64 (add64 raw (PAGE_SIZE_4K - 1)) PAGE_SIZE_4K,
                     raw))"

definition frame_alloc :: "addr \<Rightarrow> frame_state \<Rightarrow> (frame_state \<times> addr) option" where
  "frame_alloc caller s =
     (if frames_p s = 0 then Some (s, 0)
      else case frame_get_page caller s of
             None \<Rightarrow> None
           | Some (s1, page, raw) \<Rightarrow>
               if page = 0 then Some (s1, 0)
               else let (s2, slot) = frame_take_free_locked s1
                    in if 0 \<le> slot
                       then Some (frame_hash_insert_locked slot
                              (set_frame slot (\<lambda>m. m\<lparr>fm_pa := page, fm_raw := raw, fm_refs := 1\<rparr>) s2),
                            page)
                       else if raw \<noteq> 0 then Some (s2\<lparr>f_heap := kfree raw (f_heap s2)\<rparr>, 0)
                       else Some (s2\<lparr>f_pmm := pmm_free_page (f_pmm s2) page\<rparr>, 0))"

text \<open>\<open>memset\<close> of the page: the page is identity-mapped memory, part of the pool's or the heap's store.\<close>

definition page_zero :: "addr \<Rightarrow> frame_state \<Rightarrow> frame_state" where
  "page_zero page s =
     s\<lparr>f_pmm := (f_pmm s)\<lparr>pmm_mem := (\<lambda>a. if page \<le> a \<and> a < page + PAGE_SIZE_4K then 0
                                         else pmm_mem (f_pmm s) a)\<rparr>,
       f_heap := write_bytes page (replicate PAGE_SIZE_4K 0) (f_heap s)\<rparr>"

definition frame_alloc_zero :: "addr \<Rightarrow> frame_state \<Rightarrow> (frame_state \<times> addr) option" where
  "frame_alloc_zero caller s =
     map_option (\<lambda>(s', page). (if page \<noteq> 0 then page_zero page s' else s', page)) (frame_alloc caller s)"

definition frame_adopt :: "addr \<Rightarrow> frame_state \<Rightarrow> (frame_state \<times> int) option" where
  "frame_adopt pa0 s =
     (let pa = pg_addr pa0
      in if pa = 0 \<or> frames_p s = 0 then Some (s, -1)
         else case frame_slot_locked pa s of
                None \<Rightarrow> None
              | Some slot \<Rightarrow>
                  if slot < 0
                  then let (s1, slot1) = frame_take_free_locked s
                       in if 0 \<le> slot1
                          then Some (frame_hash_insert_locked slot1
                                 (set_frame slot1 (\<lambda>m. m\<lparr>fm_pa := pa, fm_raw := 0, fm_refs := 1\<rparr>) s1), 0)
                          else Some (s1, -1)
                  else Some (s, 0))"

definition frame_retain :: "addr \<Rightarrow> frame_state \<Rightarrow> (frame_state \<times> int) option" where
  "frame_retain pa0 s =
     (let pa = pg_addr pa0
      in case frame_slot_locked pa s of
           None \<Rightarrow> None
         | Some slot \<Rightarrow>
             if 0 \<le> slot
             then Some (set_frame slot (\<lambda>m. m\<lparr>fm_refs := (fm_refs m + 1) mod 2 ^ 32\<rparr>) s, 0)
             else Some (s, -1))"

definition frame_release :: "addr \<Rightarrow> frame_state \<Rightarrow> frame_state option" where
  "frame_release pa0 s =
     (let pa = pg_addr pa0
      in case frame_slot_locked pa s of
           None \<Rightarrow> None
         | Some slot \<Rightarrow>
             if slot < 0 then Some s
             else let s1 = set_frame slot (\<lambda>m. m\<lparr>fm_refs := (fm_refs m + (2 ^ 32 - 1)) mod 2 ^ 32\<rparr>) s
                  in if fm_refs (frames s1 slot) \<noteq> 0 then Some s1
                     else let raw = fm_raw (frames s1 slot)
                          in map_option
                               (\<lambda>s2. let s3 = frame_return_free_locked slot s2
                                     in if raw \<noteq> 0 then s3\<lparr>f_heap := kfree raw (f_heap s3)\<rparr>
                                        else s3\<lparr>f_pmm := pmm_free_page (f_pmm s3) pa\<rparr>)
                               (frame_hash_remove_locked slot s1))"

definition frame_refcount :: "addr \<Rightarrow> frame_state \<Rightarrow> nat option" where
  "frame_refcount pa0 s =
     map_option (\<lambda>slot. if 0 \<le> slot then fm_refs (frames s slot) else 0)
       (frame_slot_locked (pg_addr pa0) s)"

section \<open>Worked example\<close>

text \<open>\<open>frame_init\<close> with a heap of 16 MiB at 16 MiB: both tables are allocated.\<close>

lemma frame_init_loop_pointers:
  "frames_p (frame_init_loop n s) = frames_p s" "frame_hash_p (frame_init_loop n s) = frame_hash_p s"
  by (induction n arbitrary: s) (simp_all add: set_frame_def)

definition demo_frame0 :: "pmm_state \<Rightarrow> frame_state" where
  "demo_frame0 q = \<lparr>frames_p = 0, frames = (\<lambda>_. \<lparr>fm_pa = 0, fm_raw = 0, fm_refs = 0, fm_link = 0\<rparr>),
     frames_cap = 0, frame_hash_p = 0, frame_hash = (\<lambda>_. 0), frame_free_head = -1, f_pmm = q,
     f_heap = heap_init 0 0x1000000 0x1000000 demo_heap0\<rparr>"

lemma demo_frame_init:
  "map_option (\<lambda>s. (frames_p s, frame_hash_p s)) (frame_init 7 (demo_frame0 q)) = Some (16777280, 23068816)"
  by (simp add: frame_init_def frame_init_tables_def demo_frame0_def frame_init_loop_pointers
      FRAME_META_SIZE_def FRAME_META_MAX_def FRAME_HASH_SIZE_def heap_eval cong: let_weak_cong)

end
