(* ===== verification/Dll.thy ===== *)
theory Dll
  imports Prelude
begin

text \<open>
  Doubly linked lists threaded through a store, as the heap and other kernel tables keep them:
  \<open>nxt\<close> and \<open>prv\<close> read the two pointers of a node, 0 is the null pointer. Also tilings of an
  address range by blocks with a fixed header. The lemmas give the effect of the pointer surgery
  the C code does (unlink, push, insert after, absorb the successor) on the list represented.
\<close>

section \<open>Doubly linked segments\<close>

text \<open>\<open>dseg nxt prv b p xs q\<close>: from \<open>p\<close> the nodes \<open>xs\<close> are reached through \<open>nxt\<close>, ending at \<open>q\<close>;
  the predecessor recorded in the first one is \<open>b\<close>.\<close>

fun dseg :: "(addr \<Rightarrow> addr) \<Rightarrow> (addr \<Rightarrow> addr) \<Rightarrow> addr \<Rightarrow> addr \<Rightarrow> addr list \<Rightarrow> addr \<Rightarrow> bool" where
  "dseg nxt prv b p [] q \<longleftrightarrow> p = q"
| "dseg nxt prv b p (x # xs) q \<longleftrightarrow> p = x \<and> x \<noteq> 0 \<and> prv x = b \<and> dseg nxt prv x (nxt x) xs q"

lemma dseg_append [simp]:
  "dseg nxt prv b p (xs @ ys) q \<longleftrightarrow>
     (\<exists>m. dseg nxt prv b p xs m \<and> dseg nxt prv (last (b # xs)) m ys q)"
  by (induction xs arbitrary: b p) auto

lemma dseg_upd [simp]:
  "a \<notin> set xs \<Longrightarrow> dseg (nxt(a := v)) prv b p xs q = dseg nxt prv b p xs q"
  "a \<notin> set xs \<Longrightarrow> dseg nxt (prv(a := v)) b p xs q = dseg nxt prv b p xs q"
  by (induction xs arbitrary: b p) auto

lemma dseg_nonnull: "dseg nxt prv b p xs q \<Longrightarrow> 0 \<notin> set xs"
  by (induction xs arbitrary: b p) auto

lemma dseg_linked: "dseg nxt prv b p xs 0 \<Longrightarrow> linked nxt 0 p xs"
  by (induction xs arbitrary: b p) auto

lemma dseg_distinct: "dseg nxt prv b p xs 0 \<Longrightarrow> distinct xs"
  by (rule linked_distinct [OF dseg_linked])

lemma dseg_head: "dseg nxt prv b p xs 0 \<Longrightarrow> p = (if xs = [] then 0 else hd xs)"
  by (cases xs) auto

lemma dseg_first: "dseg nxt prv b p (x # xs) q \<Longrightarrow> prv x = b"
  by simp

lemma dseg_next:
  "dseg nxt prv b p (xs @ x # ys) 0 \<Longrightarrow> nxt x = (if ys = [] then 0 else hd ys)"
  by (cases ys) auto

lemma dseg_prev:
  "dseg nxt prv b p (xs @ x # ys) q \<Longrightarrow> prv x = (if xs = [] then b else last xs)"
  by (cases xs rule: rev_cases) auto

lemma dseg_push:
  assumes "dseg nxt prv 0 p xs 0" "x \<noteq> 0" "x \<notin> set xs"
  shows "dseg (nxt(x := p)) (if p = 0 then prv(x := 0) else (prv(x := 0))(p := x)) 0 x (x # xs) 0"
  using assms dseg_distinct [OF assms(1)] by (cases xs) auto

text \<open>Unlinking \<open>x\<close>: what the C code writes is \<open>prv(x)->nxt\<close> (or the head), \<open>nxt(x)->prv\<close> and
  the two fields of \<open>x\<close>.\<close>

lemma dseg_unlink_first:
  assumes "dseg nxt prv 0 p (x # ys) 0"
  shows "dseg (nxt(x := 0)) ((if nxt x = 0 then prv else prv(nxt x := 0))(x := 0)) 0 (nxt x) ys 0"
  using assms dseg_distinct [OF assms] by (cases ys) auto

lemma dseg_unlink_inner:
  assumes "dseg nxt prv 0 p (xs @ x # ys) 0" "xs \<noteq> []"
  shows "dseg ((nxt(prv x := nxt x))(x := 0))
           ((if nxt x = 0 then prv else prv(nxt x := prv x))(x := 0)) 0 p (xs @ ys) 0"
proof -
  obtain ws w where xs: "xs = ws @ [w]" using assms(2) by (cases xs rule: rev_cases) auto
  show ?thesis using assms(1) dseg_distinct [OF assms(1)] unfolding xs by (cases ys) auto
qed

text \<open>Insertion of \<open>n\<close> after \<open>x\<close>, and removal of the successor \<open>n\<close> of \<open>x\<close>.\<close>

lemma dseg_insert_after:
  assumes "dseg nxt prv b p (xs @ x # ys) 0" "n \<noteq> 0" "n \<notin> set (xs @ x # ys)"
  shows "dseg ((nxt(n := nxt x))(x := n))
           (if nxt x = 0 then prv(n := x) else (prv(n := x))(nxt x := n)) b p (xs @ x # n # ys) 0"
  using assms dseg_distinct [OF assms(1)] by (cases ys) auto

lemma dseg_absorb_next:
  assumes "dseg nxt prv b p (xs @ x # n # ys) 0"
  shows "dseg (nxt(x := nxt n)) (if nxt n = 0 then prv else prv(nxt n := x)) b p (xs @ x # ys) 0"
  using assms dseg_distinct [OF assms] by (cases ys) auto

section \<open>Tilings\<close>

text \<open>\<open>tiles h sz lo bs hi\<close>: the blocks \<open>bs\<close>, each a header of \<open>h\<close> bytes and \<open>sz b\<close> bytes of
  payload, lie one after the other from \<open>lo\<close> to \<open>hi\<close>.\<close>

fun tiles :: "nat \<Rightarrow> (addr \<Rightarrow> nat) \<Rightarrow> addr \<Rightarrow> addr list \<Rightarrow> addr \<Rightarrow> bool" where
  "tiles h sz lo [] hi \<longleftrightarrow> lo = hi"
| "tiles h sz lo (b # bs) hi \<longleftrightarrow> b = lo \<and> tiles h sz (lo + h + sz b) bs hi"

lemma tiles_append [simp]:
  "tiles h sz lo (xs @ ys) hi \<longleftrightarrow> (\<exists>m. tiles h sz lo xs m \<and> tiles h sz m ys hi)"
  by (induction xs arbitrary: lo) auto

lemma tiles_upd [simp]: "a \<notin> set bs \<Longrightarrow> tiles h (sz(a := v)) lo bs hi = tiles h sz lo bs hi"
  by (induction bs arbitrary: lo) auto

lemma tiles_bounds:
  "tiles h sz lo bs hi \<Longrightarrow> lo \<le> hi \<and> (\<forall>b\<in>set bs. lo \<le> b \<and> b + h + sz b \<le> hi)"
  by (induction bs arbitrary: lo) fastforce+

lemma tiles_mono: "tiles h sz lo bs hi \<Longrightarrow> lo \<le> hi"
  using tiles_bounds by blast

lemma tiles_disjoint:
  assumes "tiles h sz lo bs hi" "a \<in> set bs" "b \<in> set bs" "a \<noteq> b"
  shows "a + h + sz a \<le> b \<or> b + h + sz b \<le> a"
  using assms
proof (induction bs arbitrary: lo)
  case (Cons x xs)
  then show ?case using tiles_bounds [of h sz "lo + h + sz x" xs hi] by auto
qed simp

lemma tiles_no_inner:
  assumes "tiles h sz lo bs hi" "a \<in> set bs" "a < x" "x < a + h + sz a"
  shows "x \<notin> set bs"
  using tiles_disjoint [OF assms(1,2), of x] assms(3,4) by auto

lemma tiles_total:
  "tiles h sz lo bs hi \<Longrightarrow> lo + (\<Sum>b\<leftarrow>bs. h + sz b) = hi"
proof (induction bs arbitrary: lo)
  case (Cons b bs)
  then have "b = lo" "tiles h sz (lo + h + sz b) bs hi" by auto
  with Cons.IH [of "lo + h + sz b"] show ?case by (simp add: add.assoc)
qed simp

lemma tiles_dvd:
  assumes "tiles h sz lo bs hi" "k dvd lo" "k dvd h" "\<forall>b\<in>set bs. k dvd sz b" "b \<in> set bs"
  shows "k dvd b"
  using assms by (induction bs arbitrary: lo) auto

lemma tiles_absorb_next:
  assumes "tiles h sz lo (xs @ x # n # ys) hi" "distinct (xs @ x # n # ys)"
  shows "tiles h (sz(x := sz x + (h + sz n))) lo (xs @ x # ys) hi"
  using assms by (auto simp: add.assoc)

lemma tiles_split:
  assumes "tiles h sz lo (xs @ x # ys) hi" "distinct (xs @ x # ys)"
    and "sz x = t + h + r" "n = x + h + t" "n \<notin> set (xs @ x # ys)"
  shows "tiles h (sz(n := r, x := t)) lo (xs @ x # n # ys) hi"
  using assms by (auto simp: add.assoc add.left_commute)

end
