(* ===== verification/Heap_Inv.thy ===== *)
theory Heap_Inv
  imports Heap Dll
begin

text \<open>
  The representation invariant of the heap and the effect of the list and block primitives on it.
  \<open>heap_rep c s bs fl\<close> says that state \<open>s\<close> holds the blocks \<open>bs\<close> in address order and the free
  list \<open>fl\<close>; \<open>c\<close> is a block in transition (0 when there is none), whose own marks are not
  constrained while an operation works on it.
\<close>

section \<open>Views of the header store\<close>

definition bnext :: "heap_state \<Rightarrow> addr \<Rightarrow> addr" where "bnext s = (\<lambda>b. hb_next (hdr s b))"
definition bprev :: "heap_state \<Rightarrow> addr \<Rightarrow> addr" where "bprev s = (\<lambda>b. hb_prev (hdr s b))"
definition bsize :: "heap_state \<Rightarrow> addr \<Rightarrow> nat" where "bsize s = (\<lambda>b. hb_size (hdr s b))"
definition fnext :: "heap_state \<Rightarrow> addr \<Rightarrow> addr" where "fnext s = (\<lambda>b. hb_free_next (hdr s b))"
definition fprev :: "heap_state \<Rightarrow> addr \<Rightarrow> addr" where "fprev s = (\<lambda>b. hb_free_prev (hdr s b))"
definition bfree :: "heap_state \<Rightarrow> addr \<Rightarrow> bool" where "bfree s = (\<lambda>b. hb_free (hdr s b))"
definition bmagic :: "heap_state \<Rightarrow> addr \<Rightarrow> nat" where "bmagic s = (\<lambda>b. hb_magic (hdr s b))"
definition breq :: "heap_state \<Rightarrow> addr \<Rightarrow> nat" where "breq s = (\<lambda>b. hb_req (hdr s b))"

lemmas view_defs = bnext_def bprev_def bsize_def fnext_def fprev_def bfree_def bmagic_def breq_def

lemma hdr_views [simp]:
  "hb_next (hdr s b) = bnext s b" "hb_prev (hdr s b) = bprev s b" "hb_size (hdr s b) = bsize s b"
  "hb_free_next (hdr s b) = fnext s b" "hb_free_prev (hdr s b) = fprev s b"
  "hb_free (hdr s b) = bfree s b" "hb_magic (hdr s b) = bmagic s b" "hb_req (hdr s b) = breq s b"
  by (simp_all add: view_defs)

lemma view_set_hdr [simp]:
  "bnext (set_hdr b f s) = (bnext s)(b := hb_next (f (hdr s b)))"
  "bprev (set_hdr b f s) = (bprev s)(b := hb_prev (f (hdr s b)))"
  "bsize (set_hdr b f s) = (bsize s)(b := hb_size (f (hdr s b)))"
  "fnext (set_hdr b f s) = (fnext s)(b := hb_free_next (f (hdr s b)))"
  "fprev (set_hdr b f s) = (fprev s)(b := hb_free_prev (f (hdr s b)))"
  "bfree (set_hdr b f s) = (bfree s)(b := hb_free (f (hdr s b)))"
  "bmagic (set_hdr b f s) = (bmagic s)(b := hb_magic (f (hdr s b)))"
  "breq (set_hdr b f s) = (breq s)(b := hb_req (f (hdr s b)))"
  by (simp_all add: set_hdr_def view_defs fun_eq_iff del: hdr_views)

lemma fun_upd_triv_under [simp]:
  "c \<noteq> b \<Longrightarrow> f(b := v, c := f c) = f(b := v)"
  "c \<noteq> b \<Longrightarrow> c \<noteq> a \<Longrightarrow> f(a := u, b := v, c := f c) = f(a := u, b := v)"
  by auto

lemma set_hdr_rest [simp]:
  "heap_base (set_hdr b f s) = heap_base s" "heap_capacity (set_hdr b f s) = heap_capacity s"
  "head (set_hdr b f s) = head s" "free_head (set_hdr b f s) = free_head s"
  "alloc_rover (set_hdr b f s) = alloc_rover s"
  "heap_used_now (set_hdr b f s) = heap_used_now s" "heap_peak (set_hdr b f s) = heap_peak s"
  "hmem (set_hdr b f s) = hmem s" "heap_log (set_hdr b f s) = heap_log s"
  by (simp_all add: set_hdr_def)

lemma hdr_eq_views:
  assumes "hdr s' = hdr s"
  shows "bnext s' = bnext s" "bprev s' = bprev s" "bsize s' = bsize s" "fnext s' = fnext s"
    "fprev s' = fprev s" "bfree s' = bfree s" "bmagic s' = bmagic s" "breq s' = breq s"
  using assms by (simp_all add: view_defs del: hdr_views)

lemma hdr_free_head [simp]:
  "bnext (s\<lparr>free_head := v\<rparr>) = bnext s" "bprev (s\<lparr>free_head := v\<rparr>) = bprev s"
  "bsize (s\<lparr>free_head := v\<rparr>) = bsize s" "fnext (s\<lparr>free_head := v\<rparr>) = fnext s"
  "fprev (s\<lparr>free_head := v\<rparr>) = fprev s" "bfree (s\<lparr>free_head := v\<rparr>) = bfree s"
  "bmagic (s\<lparr>free_head := v\<rparr>) = bmagic s" "breq (s\<lparr>free_head := v\<rparr>) = breq s"
  by (simp_all add: view_defs del: hdr_views)

lemma HDR_pos [simp]: "0 < HDR" "HDR \<noteq> 0"
  by (simp_all add: HDR_def)

section \<open>The free list primitives\<close>

lemma fl_remove_frame [simp]:
  "bnext (fl_remove b s) = bnext s" "bprev (fl_remove b s) = bprev s"
  "bsize (fl_remove b s) = bsize s" "bfree (fl_remove b s) = bfree s"
  "bmagic (fl_remove b s) = bmagic s" "breq (fl_remove b s) = breq s"
  "heap_base (fl_remove b s) = heap_base s" "heap_capacity (fl_remove b s) = heap_capacity s"
  "head (fl_remove b s) = head s" "alloc_rover (fl_remove b s) = alloc_rover s"
  "heap_used_now (fl_remove b s) = heap_used_now s" "heap_peak (fl_remove b s) = heap_peak s"
  "hmem (fl_remove b s) = hmem s" "heap_log (fl_remove b s) = heap_log s"
  by (simp_all add: fl_remove_def Let_def)

lemma fl_insert_frame [simp]:
  "bnext (fl_insert b s) = bnext s" "bprev (fl_insert b s) = bprev s"
  "bsize (fl_insert b s) = bsize s" "bfree (fl_insert b s) = bfree s"
  "bmagic (fl_insert b s) = bmagic s" "breq (fl_insert b s) = breq s"
  "heap_base (fl_insert b s) = heap_base s" "heap_capacity (fl_insert b s) = heap_capacity s"
  "head (fl_insert b s) = head s" "alloc_rover (fl_insert b s) = alloc_rover s"
  "heap_used_now (fl_insert b s) = heap_used_now s" "heap_peak (fl_insert b s) = heap_peak s"
  "hmem (fl_insert b s) = hmem s" "heap_log (fl_insert b s) = heap_log s"
  by (simp_all add: fl_insert_def Let_def)

abbreviation fl_list :: "heap_state \<Rightarrow> addr list \<Rightarrow> bool" where
  "fl_list s fl \<equiv> dseg (fnext s) (fprev s) 0 (free_head s) fl 0"

lemma fl_remove_list:
  assumes "fl_list s (xs @ b # ys)"
  shows "fl_list (fl_remove b s) (xs @ ys)"
proof (cases "xs = []")
  case True
  then show ?thesis
    using assms dseg_unlink_first [of "fnext s" "fprev s" "free_head s" b ys]
    by (simp add: fl_remove_def Let_def  split: if_splits)
next
  case False
  moreover have "fprev s b = last xs" using dseg_prev [OF assms] False by simp
  moreover have "last xs \<noteq> b" "last xs \<noteq> 0" "b \<noteq> 0"
    using dseg_distinct [OF assms] dseg_nonnull [OF assms] last_in_set [OF False] by auto
  moreover have "fnext s b \<noteq> last xs"
    using dseg_next [OF assms] dseg_distinct [OF assms] last_in_set [OF False] \<open>last xs \<noteq> 0\<close>
    by (cases ys) auto
  ultimately show ?thesis
    using assms dseg_unlink_inner [OF assms]
    by (simp add: fl_remove_def Let_def  split: if_splits)
qed

lemma fl_remove_ends [simp]:
  "b \<noteq> 0 \<Longrightarrow> fnext (fl_remove b s) b = 0" "b \<noteq> 0 \<Longrightarrow> fprev (fl_remove b s) b = 0"
  by (simp_all add: fl_remove_def Let_def)

text \<open>Removing a block that is on no list does nothing.\<close>

lemma fl_remove_detached:
  assumes "fnext s b = 0" "fprev s b = 0" "free_head s \<noteq> b"
  shows "fnext (fl_remove b s) = fnext s" "fprev (fl_remove b s) = fprev s"
    "free_head (fl_remove b s) = free_head s"
  using assms by (auto simp: fl_remove_def Let_def fun_eq_iff)

lemma fl_insert_list:
  assumes "fl_list s fl" "b \<noteq> 0" "b \<notin> set fl"
  shows "fl_list (fl_insert b s) (b # fl)"
  using dseg_push [OF assms] assms dseg_head [OF assms(1)] hd_in_set [of fl]
  by (auto simp: fl_insert_def Let_def simp del: dseg.simps split: if_splits)

section \<open>The representation invariant\<close>

definition heap_geo :: "heap_state \<Rightarrow> addr list \<Rightarrow> bool" where
  "heap_geo s bs \<longleftrightarrow>
     heap_base s \<noteq> 0 \<and> heap_capacity s \<noteq> 0 \<and> 16 dvd heap_base s \<and>
     heap_base s + heap_capacity s < 2 ^ 64 \<and> head s = heap_base s \<and>
     dseg (bnext s) (bprev s) 0 (head s) bs 0 \<and>
     tiles HDR (bsize s) (heap_base s) bs (heap_base s + heap_capacity s) \<and>
     (\<forall>b\<in>set bs. 16 dvd bsize s b)"

definition heap_mark :: "heap_state \<Rightarrow> addr list \<Rightarrow> addr \<Rightarrow> bool" where
  "heap_mark s fl b \<longleftrightarrow>
     (if b \<in> set fl then bfree s b \<and> bmagic s b = HEAP_MAGIC_FREE
      else \<not> bfree s b \<and> bmagic s b = HEAP_MAGIC_ALLOC \<and> breq s b + 8 \<le> bsize s b \<and> 0 < breq s b)"

definition heap_rep :: "addr \<Rightarrow> heap_state \<Rightarrow> addr list \<Rightarrow> addr list \<Rightarrow> bool" where
  "heap_rep c s bs fl \<longleftrightarrow> heap_geo s bs \<and> fl_list s fl \<and> set fl \<subseteq> set bs \<and> c \<notin> set fl \<and>
     (\<forall>b\<in>set bs. b \<noteq> c \<longrightarrow> heap_mark s fl b)"

text \<open>No two neighbours are both free: the coalescing invariant.\<close>

definition nadj :: "addr list \<Rightarrow> addr list \<Rightarrow> bool" where
  "nadj fl bs = successively (\<lambda>a b. a \<notin> set fl \<or> b \<notin> set fl) bs"

lemma heap_geoD:
  assumes "heap_geo s bs"
  shows "distinct bs" "0 \<notin> set bs"
    "\<And>b. b \<in> set bs \<Longrightarrow> heap_base s \<le> b \<and> b + HDR + bsize s b \<le> heap_base s + heap_capacity s"
    "heap_base s + heap_capacity s < 2 ^ 64"
    "\<And>b. b \<in> set bs \<Longrightarrow> 16 dvd bsize s b"
  using assms tiles_bounds dseg_distinct dseg_nonnull unfolding heap_geo_def by blast+

lemma heap_repD:
  assumes "heap_rep c s bs fl"
  shows "heap_geo s bs" "fl_list s fl" "set fl \<subseteq> set bs" "distinct fl" "c \<notin> set fl"
    "\<And>b. b \<in> set bs \<Longrightarrow> b \<noteq> c \<Longrightarrow> heap_mark s fl b"
  using assms dseg_distinct unfolding heap_rep_def by blast+

lemma heap_geo_tiles:
  "heap_geo s bs \<Longrightarrow> tiles HDR (bsize s) (heap_base s) bs (heap_base s + heap_capacity s)"
  "heap_geo s bs \<Longrightarrow> dseg (bnext s) (bprev s) 0 (head s) bs 0"
  unfolding heap_geo_def by blast+

text \<open>The geometry does not depend on the marks.\<close>

lemma heap_geo_set_hdr:
  assumes "\<And>h. hb_size (f h) = hb_size h" "\<And>h. hb_next (f h) = hb_next h" "\<And>h. hb_prev (f h) = hb_prev h"
  shows "heap_geo (set_hdr c f s) bs = heap_geo s bs"
  unfolding heap_geo_def by (simp add: assms)

lemma heap_geo_fl_insert: "heap_geo (fl_insert c s) bs = heap_geo s bs"
  unfolding heap_geo_def by simp

lemma nadj_append:
  "nadj fl (xs @ ys) \<longleftrightarrow> nadj fl xs \<and> nadj fl ys \<and>
     (xs = [] \<or> ys = [] \<or> last xs \<notin> set fl \<or> hd ys \<notin> set fl)"
  by (auto simp: nadj_def successively_append_iff)

lemma nadj_Cons: "nadj fl (x # ys) \<longleftrightarrow> nadj fl ys \<and> (ys = [] \<or> x \<notin> set fl \<or> hd ys \<notin> set fl)"
  by (cases ys) (auto simp: nadj_def)

lemma nadj_Nil [simp]: "nadj fl []"
  by (simp add: nadj_def)

lemma nadj_mono: "set fl' \<inter> set bs \<subseteq> set fl \<Longrightarrow> nadj fl bs \<Longrightarrow> nadj fl' bs"
  unfolding nadj_def by (erule successively_mono) auto

section \<open>Absorbing the next block\<close>

text \<open>The statements \<open>split_block\<close> and \<open>coalesce\<close> have in common.\<close>

definition absorb_next :: "addr \<Rightarrow> heap_state \<Rightarrow> heap_state" where
  "absorb_next x s =
     (let nx = hb_next (hdr s x);
          s2 = fl_remove nx s;
          s3 = set_hdr x (\<lambda>h. h\<lparr>hb_size :=
                 add64 (hb_size h) (add64 HDR (hb_size (hdr s2 nx))),
                 hb_next := hb_next (hdr s2 nx)\<rparr>) s2;
          n2 = hb_next (hdr s3 x)
      in if n2 \<noteq> 0 then set_hdr n2 (\<lambda>h. h\<lparr>hb_prev := x\<rparr>) s3 else s3)"

lemma absorb_next_frame [simp]:
  "bfree (absorb_next x s) = bfree s" "bmagic (absorb_next x s) = bmagic s"
  "breq (absorb_next x s) = breq s"
  "heap_base (absorb_next x s) = heap_base s" "heap_capacity (absorb_next x s) = heap_capacity s"
  "head (absorb_next x s) = head s" "alloc_rover (absorb_next x s) = alloc_rover s"
  "heap_used_now (absorb_next x s) = heap_used_now s" "heap_peak (absorb_next x s) = heap_peak s"
  "hmem (absorb_next x s) = hmem s" "heap_log (absorb_next x s) = heap_log s"
  "fnext (absorb_next x s) = fnext (fl_remove (bnext s x) s)"
  "fprev (absorb_next x s) = fprev (fl_remove (bnext s x) s)"
  "free_head (absorb_next x s) = free_head (fl_remove (bnext s x) s)"
  by (simp_all add: absorb_next_def Let_def)

lemma absorb_next_views:
  assumes "bnext s x \<noteq> x" "bnext s (bnext s x) \<noteq> x"
  shows "bnext (absorb_next x s) = (bnext s)(x := bnext s (bnext s x))"
    "bprev (absorb_next x s) = (if bnext s (bnext s x) = 0 then bprev s
       else (bprev s)(bnext s (bnext s x) := x))"
    "bsize (absorb_next x s) = (bsize s)(x := add64 (bsize s x) (add64 HDR (bsize s (bnext s x))))"
  using assms by (simp_all add: absorb_next_def Let_def)

lemma heap_geo_absorb:
  assumes g: "heap_geo s (xs @ x # n # ys)"
  shows "heap_geo (absorb_next x s) (xs @ x # ys)"
    and "bsize (absorb_next x s) = (bsize s)(x := bsize s x + (HDR + bsize s n))"
proof -
  let ?bs = "xs @ x # n # ys"
  have d: "distinct ?bs" "0 \<notin> set ?bs" using heap_geoD [OF g] by auto
  have nx: "bnext s x = n" using dseg_next [OF heap_geo_tiles(2) [OF g]] by simp
  have nn: "bnext s n = (if ys = [] then 0 else hd ys)"
    using heap_geo_tiles(2) [OF g] by (cases ys) auto
  have ne: "n \<noteq> x" "bnext s n \<noteq> x" using d nn by (cases ys; auto)+
  have "tiles HDR (bsize s) (heap_base s) ?bs (heap_base s + heap_capacity s)"
    using heap_geo_tiles(1) [OF g] .
  then obtain m where "tiles HDR (bsize s) m (x # n # ys) (heap_base s + heap_capacity s)" by auto
  then have "x + HDR + bsize s x + HDR + bsize s n \<le> heap_base s + heap_capacity s"
    using tiles_mono by fastforce
  then have "bsize s x + (HDR + bsize s n) < 2 ^ 64" using heap_geoD(4) [OF g] by linarith
  then have a: "add64 (bsize s x) (add64 HDR (bsize s n)) = bsize s x + (HDR + bsize s n)"
    by (simp add: add64_id)
  show sz: "bsize (absorb_next x s) = (bsize s)(x := bsize s x + (HDR + bsize s n))"
    using absorb_next_views(3) [of s x] ne by (simp add: nx a)
  have "dseg (bnext (absorb_next x s)) (bprev (absorb_next x s)) 0 (head s) (xs @ x # ys) 0"
    using dseg_absorb_next [OF heap_geo_tiles(2) [OF g]] absorb_next_views(1,2) [of s x] ne nx
    by (simp del: dseg_append split: if_splits)
  moreover have "16 dvd HDR" by (simp add: HDR_def)
  ultimately show "heap_geo (absorb_next x s) (xs @ x # ys)"
    using g tiles_absorb_next [OF heap_geo_tiles(1) [OF g] d(1)]
    unfolding heap_geo_def sz by (simp del: dseg_append tiles_append)
qed

lemma fl_list_remove1:
  assumes "fl_list s fl" "b \<in> set fl"
  shows "fl_list (fl_remove b s) (remove1 b fl)"
proof -
  obtain us vs where fl: "fl = us @ b # vs" "b \<notin> set us" using split_list_first [OF assms(2)] by blast
  show ?thesis using fl_remove_list [OF assms(1) [unfolded fl]] fl by (simp add: remove1_append)
qed

lemma heap_rep_absorb:
  assumes r: "heap_rep c s (xs @ x # n # ys) fl" and n: "n \<in> set fl" and x: "x = c \<or> x \<in> set fl"
  shows "heap_rep c (absorb_next x s) (xs @ x # ys) (remove1 n fl)"
proof -
  note g = heap_repD(1) [OF r]
  have nx: "bnext s x = n" using dseg_next [OF heap_geo_tiles(2) [OF g]] by simp
  have d: "distinct (xs @ x # n # ys)" using heap_geoD [OF g] by auto
  have fl: "fl_list (fl_remove n s) (remove1 n fl)" using fl_list_remove1 [OF heap_repD(2) [OF r] n] .
  have f: "set (remove1 n fl) = set fl - {n}" using heap_repD(4) [OF r] by simp
  have m: "heap_mark (absorb_next x s) (remove1 n fl) b"
    if "b \<in> set (xs @ x # ys)" "b \<noteq> c" for b
    using heap_repD(6) [OF r, of b] that d x unfolding heap_mark_def f heap_geo_absorb(2) [OF g]
    by auto
  show ?thesis
    unfolding heap_rep_def f using heap_geo_absorb(1) [OF g] fl m heap_repD(3,5) [OF r] nx by auto
qed

section \<open>Splitting\<close>

text \<open>\<open>split_block\<close> up to the insertion of the new block into the free list.\<close>

definition carve :: "addr \<Rightarrow> nat \<Rightarrow> heap_state \<Rightarrow> heap_state" where
  "carve blk sz s =
     (let newblk = add64 (add64 blk HDR) sz;
          s1 = set_hdr newblk (\<lambda>h. h\<lparr>hb_size := sub64 (sub64 (hb_size (hdr s blk)) sz) HDR,
                 hb_free := True, hb_magic := HEAP_MAGIC_FREE, hb_req := 0, hb_caller := 0,
                 hb_next := hb_next (hdr s blk), hb_prev := blk,
                 hb_free_next := 0, hb_free_prev := 0\<rparr>) s;
          nn = hb_next (hdr s1 newblk);
          s2 = (if nn \<noteq> 0 then set_hdr nn (\<lambda>h. h\<lparr>hb_prev := newblk\<rparr>) s1 else s1);
          s3 = set_hdr blk (\<lambda>h. h\<lparr>hb_next := newblk, hb_size := sz\<rparr>) s2
      in fl_insert newblk s3)"

lemma split_block_eq:
  "split_block blk sz s =
     (if sub64 (bsize s blk) sz \<le> HDR + 16 then s
      else let n = add64 (add64 blk HDR) sz; s4 = carve blk sz s; nx = bnext s4 n
           in if nx \<noteq> 0 \<and> bfree s4 nx \<and> bmagic s4 nx = HEAP_MAGIC_FREE then absorb_next n s4 else s4)"
  by (simp only: split_block_def carve_def absorb_next_def Let_def hdr_views)

lemma carve_frame [simp]:
  "heap_base (carve c sz s) = heap_base s" "heap_capacity (carve c sz s) = heap_capacity s"
  "head (carve c sz s) = head s" "alloc_rover (carve c sz s) = alloc_rover s"
  "heap_used_now (carve c sz s) = heap_used_now s" "heap_peak (carve c sz s) = heap_peak s"
  "hmem (carve c sz s) = hmem s" "heap_log (carve c sz s) = heap_log s"
  by (simp_all add: carve_def Let_def)

lemma carve_views:
  assumes "n = add64 (add64 c HDR) sz" "n \<noteq> c" "bnext s c \<noteq> n" "bnext s c \<noteq> c"
  shows "bnext (carve c sz s) = (bnext s)(n := bnext s c, c := n)"
    "bprev (carve c sz s) = (if bnext s c = 0 then (bprev s)(n := c)
       else (bprev s)(n := c, bnext s c := n))"
    "bsize (carve c sz s) = (bsize s)(n := sub64 (sub64 (bsize s c) sz) HDR, c := sz)"
    "bfree (carve c sz s) = (bfree s)(n := True)"
    "bmagic (carve c sz s) = (bmagic s)(n := HEAP_MAGIC_FREE)"
    "breq (carve c sz s) = (breq s)(n := 0)"
  using assms by (simp_all add: carve_def Let_def)

lemma carve_fl:
  assumes "n = add64 (add64 c HDR) sz" "n \<noteq> 0" "n \<notin> set fl" "fl_list s fl" "n \<noteq> c"
    "bnext s c \<noteq> n" "bnext s c \<noteq> c"
  shows "fl_list (carve c sz s) (n # fl)"
proof -
  have "carve c sz s = fl_insert n (set_hdr c (\<lambda>h. h\<lparr>hb_next := n, hb_size := sz\<rparr>)
      (let s1 = set_hdr n (\<lambda>h. h\<lparr>hb_size := sub64 (sub64 (hb_size (hdr s c)) sz) HDR,
                 hb_free := True, hb_magic := HEAP_MAGIC_FREE, hb_req := 0, hb_caller := 0,
                 hb_next := hb_next (hdr s c), hb_prev := c,
                 hb_free_next := 0, hb_free_prev := 0\<rparr>) s; nn = hb_next (hdr s1 n)
       in if nn \<noteq> 0 then set_hdr nn (\<lambda>h. h\<lparr>hb_prev := n\<rparr>) s1 else s1))" (is "_ = fl_insert n ?s3")
    using assms(1) by (simp add: carve_def Let_def)
  moreover have "fl_list ?s3 fl" using assms by (simp add: Let_def)
  ultimately show ?thesis using fl_insert_list assms(2,3) by metis
qed

lemma heap_rep_carve:
  assumes r: "heap_rep c s (xs @ c # ys) fl" and sz: "16 dvd sz" "sz + HDR + 16 < bsize s c"
    and n: "n = c + HDR + sz"
  shows "n \<notin> set (xs @ c # ys)" "add64 (add64 c HDR) sz = n"
    "heap_rep c (carve c sz s) (xs @ c # n # ys) (n # fl)"
    "bsize (carve c sz s) = (bsize s)(n := bsize s c - sz - HDR, c := sz)"
    "breq (carve c sz s) = (breq s)(n := 0)" "bfree (carve c sz s) = (bfree s)(n := True)"
    "bmagic (carve c sz s) = (bmagic s)(n := HEAP_MAGIC_FREE)"
proof -
  let ?bs = "xs @ c # ys" and ?s = "carve c sz s"
  note g = heap_repD(1) [OF r]
  have d: "distinct ?bs" "0 \<notin> set ?bs" and b: "c + HDR + bsize s c < 2 ^ 64"
    using heap_geoD [OF g] by (auto intro: le_less_trans)
  show nb: "n \<notin> set ?bs"
    using tiles_no_inner [OF heap_geo_tiles(1) [OF g], of c n] sz n by (simp add: HDR_def)
  show ne: "add64 (add64 c HDR) sz = n" using b sz n by (simp add: add64_id)
  have nx: "bnext s c = (if ys = [] then 0 else hd ys)"
    using dseg_next [OF heap_geo_tiles(2) [OF g]] .
  have side: "n \<noteq> 0" "n \<noteq> c" "bnext s c \<noteq> n" "bnext s c \<noteq> c"
    using nb d n nx by (cases ys; auto simp: HDR_def)+
  note v = carve_views [OF ne [symmetric] side(2-4)]
  have "sub64 (sub64 (bsize s c) sz) HDR = bsize s c - sz - HDR" using b sz by (simp add: sub64_id)
  then show bs: "bsize ?s = (bsize s)(n := bsize s c - sz - HDR, c := sz)" using v(3) by simp
  show "breq ?s = (breq s)(n := 0)" "bfree ?s = (bfree s)(n := True)"
    "bmagic ?s = (bmagic s)(n := HEAP_MAGIC_FREE)" using v by auto
  have "dseg (bnext ?s) (bprev ?s) 0 (head s) (xs @ c # n # ys) 0"
    using dseg_insert_after [OF heap_geo_tiles(2) [OF g] side(1) nb] v(1,2)
    by (simp del: dseg_append split: if_splits)
  moreover have "tiles HDR (bsize ?s) (heap_base s) (xs @ c # n # ys) (heap_base s + heap_capacity s)"
    unfolding bs by (rule tiles_split [OF heap_geo_tiles(1) [OF g] d(1) _ n nb]) (use sz in simp)
  moreover have "16 dvd bsize s c - sz - HDR"
    using heap_geoD(5) [OF g, of c] sz by (intro dvd_diff_nat) (auto simp: HDR_def)
  ultimately have g': "heap_geo ?s (xs @ c # n # ys)"
    using g sz(1) unfolding heap_geo_def bs by (simp del: dseg_append tiles_append)
  have nf: "n \<notin> set fl" using nb heap_repD(3) [OF r] by blast
  have "heap_mark ?s (n # fl) b" if "b \<in> set (xs @ c # n # ys)" "b \<noteq> c" for b
    using that heap_repD(6) [OF r, of b] unfolding heap_mark_def bs v(4-6) by auto
  then show "heap_rep c ?s (xs @ c # n # ys) (n # fl)"
    unfolding heap_rep_def
    using g' carve_fl [OF ne [symmetric] side(1) nf heap_repD(2) [OF r] side(2-4)]
      heap_repD(3,5) [OF r] side(2) by (auto simp del: dseg.simps)
qed

text \<open>What an operation leaves alone of the blocks in use, the one in transition apart.\<close>

definition keeps :: "addr \<Rightarrow> heap_state \<Rightarrow> addr list \<Rightarrow> addr list \<Rightarrow> heap_state \<Rightarrow> addr list \<Rightarrow>
    addr list \<Rightarrow> bool" where
  "keeps c s bs fl s' bs' fl' \<longleftrightarrow> set bs' - set fl' - {c} = set bs - set fl - {c} \<and>
     (\<forall>b \<in> set bs - set fl - {c}. bsize s' b = bsize s b \<and> breq s' b = breq s b)"

definition same_rest :: "heap_state \<Rightarrow> heap_state \<Rightarrow> bool" where
  "same_rest s s' \<longleftrightarrow> heap_base s' = heap_base s \<and> heap_capacity s' = heap_capacity s \<and>
     head s' = head s \<and> heap_used_now s' = heap_used_now s \<and> heap_peak s' = heap_peak s \<and>
     hmem s' = hmem s \<and> heap_log s' = heap_log s"

lemma keeps_refl [simp]: "keeps c s bs fl s bs fl"
  by (simp add: keeps_def)

lemma keeps_trans:
  "keeps c s bs fl s1 bs1 fl1 \<Longrightarrow> keeps c s1 bs1 fl1 s2 bs2 fl2 \<Longrightarrow> keeps c s bs fl s2 bs2 fl2"
  by (auto simp: keeps_def)

lemma heap_rep_split:
  assumes r: "heap_rep c s (xs @ c # ys) fl" and sz: "16 dvd sz" "sz \<le> bsize s c"
    and na: "nadj fl (xs @ c # ys)"
  obtains ys' fl' where "heap_rep c (split_block c sz s) (xs @ c # ys') fl'"
    "nadj fl' (xs @ c # ys')" "keeps c s (xs @ c # ys) fl (split_block c sz s) (xs @ c # ys') fl'"
    "bsize (split_block c sz s) c = (if bsize s c \<le> sz + HDR + 16 then bsize s c else sz)"
    "breq (split_block c sz s) c = breq s c" "bfree (split_block c sz s) c = bfree s c"
    "bmagic (split_block c sz s) c = bmagic s c" "same_rest s (split_block c sz s)"
    "alloc_rover (split_block c sz s) = alloc_rover s"
proof (cases "bsize s c \<le> sz + HDR + 16")
  case True
  have "bsize s c < 2 ^ 64" using heap_geoD [OF heap_repD(1) [OF r]] by fastforce
  then have "split_block c sz s = s" using True sz by (simp add: split_block_eq sub64_id)
  then show ?thesis using that [of ys fl] r na True by (simp add: same_rest_def)
next
  case False
  let ?n = "c + HDR + sz" and ?s = "carve c sz s"
  note g = heap_repD(1) [OF r]
  have b: "bsize s c < 2 ^ 64" using heap_geoD [OF g] by fastforce
  have sz2: "sz + HDR + 16 < bsize s c" using False by simp
  note C = heap_rep_carve [OF r sz(1) sz2 refl]
  have d: "distinct (xs @ c # ys)" "0 \<notin> set (xs @ c # ys)" using heap_geoD [OF g] by auto
  have nf: "?n \<notin> set fl" using C(1) heap_repD(3) [OF r] by blast
  have nx: "bnext ?s ?n = (if ys = [] then 0 else hd ys)"
    using dseg_next [of _ _ _ _ "xs @ [c]" ?n ys] heap_geo_tiles(2) [OF heap_repD(1) [OF C(3)]]
    by (metis append.assoc append_Cons append_Nil)
  have cf: "c \<notin> set fl" using heap_repD(5) [OF r] .
  have eq: "split_block c sz s = (if bnext ?s ?n \<noteq> 0 \<and> bfree ?s (bnext ?s ?n) \<and>
      bmagic ?s (bnext ?s ?n) = HEAP_MAGIC_FREE then absorb_next ?n ?s else ?s)"
    using sz2 b by (simp add: split_block_eq sub64_id C(2) Let_def)
  have mark: "bfree ?s (hd ys) \<longleftrightarrow> hd ys \<in> set fl" "hd ys \<in> set fl \<Longrightarrow> bmagic ?s (hd ys) = HEAP_MAGIC_FREE"
    if "ys \<noteq> []"
    using that heap_repD(6) [OF r, of "hd ys"] C(1,6,7) d by (cases ys; auto simp: heap_mark_def)+
  have kc: "keeps c s (xs @ c # ys) fl ?s (xs @ c # ?n # ys) (?n # fl)"
    unfolding keeps_def C(4,5) using C(1) nf by auto
  show ?thesis
  proof (cases "ys \<noteq> [] \<and> hd ys \<in> set fl")
    case True
    then obtain y zs where ys: "ys = y # zs" and y: "y \<in> set fl" by (cases ys) auto
    have s': "split_block c sz s = absorb_next ?n ?s" using eq mark True nx d(2) ys by simp
    have rep0: "heap_rep c ?s ((xs @ [c]) @ ?n # y # zs) (?n # fl)" using C(3) ys by simp
    have rr: "remove1 y (?n # fl) = ?n # remove1 y fl" using nf y by auto
    have df: "y \<noteq> ?n" "set (remove1 y fl) = set fl - {y}" "set fl \<subseteq> set (xs @ c # ys)"
      using heap_repD(3,4) [OF r] C(1) ys by auto
    have A: "heap_rep c (absorb_next ?n ?s) (xs @ c # ?n # zs) (?n # remove1 y fl)"
      using heap_rep_absorb [OF rep0] y rr by simp
    have v: "bsize (absorb_next ?n ?s) = (bsize ?s)(?n := bsize ?s ?n + (HDR + bsize ?s y))"
      using heap_geo_absorb(2) [OF heap_repD(1) [OF rep0]] .
    have na': "nadj (?n # remove1 y fl) (xs @ c # ?n # zs)"
      using na C(1) cf y d df nadj_mono [of "?n # remove1 y fl" xs fl] nadj_mono [of "?n # remove1 y fl" zs fl]
      unfolding ys nadj_append nadj_Cons by (cases zs) auto
    have "keeps c ?s (xs @ c # ?n # ys) (?n # fl) (absorb_next ?n ?s) (xs @ c # ?n # zs) (?n # remove1 y fl)"
      unfolding keeps_def v using df d ys y C(1) by auto
    from keeps_trans [OF kc this]
    show ?thesis using that [of "?n # zs" "?n # remove1 y fl"] A na' False C(1) v
      unfolding s' same_rest_def by (simp add: C(4-7))
  next
    case nomerge: False
    then have s': "split_block c sz s = ?s" using eq mark nx by auto
    have na': "nadj (?n # fl) (xs @ c # ?n # ys)"
      using na C(1) cf nomerge d nadj_mono [of "?n # fl" xs fl] nadj_mono [of "?n # fl" ys fl]
      unfolding nadj_append nadj_Cons by (cases ys) auto
    show ?thesis using that [of "?n # ys" "?n # fl"] C(3) kc na' False C(1)
      unfolding s' same_rest_def by (simp add: C(4-7))
  qed
qed

section \<open>Coalescing\<close>

lemma heap_rep_cong:
  assumes "hdr s' = hdr s" "heap_base s' = heap_base s" "heap_capacity s' = heap_capacity s"
    "head s' = head s" "free_head s' = free_head s"
  shows "heap_rep c s' bs fl = heap_rep c s bs fl"
  unfolding heap_rep_def heap_geo_def heap_mark_def hdr_eq_views [OF assms(1)] assms(2-5) ..

lemma fl_remove_other:
  assumes "fl_list s fl" "b \<in> set fl" "c \<notin> set fl" "c \<noteq> 0"
  shows "fnext (fl_remove b s) c = fnext s c" "fprev (fl_remove b s) c = fprev s c"
proof -
  obtain us vs where fl: "fl = us @ b # vs" using split_list [OF assms(2)] by blast
  have "fprev s b \<noteq> c" using dseg_prev [OF assms(1) [unfolded fl]] assms(3,4) fl
    by (cases us rule: rev_cases) auto
  moreover have "fnext s b \<noteq> c" using dseg_next [OF assms(1) [unfolded fl]] assms(3,4) fl
    by (cases vs) auto
  moreover have "b \<noteq> c" using assms by auto
  ultimately show "fnext (fl_remove b s) c = fnext s c" "fprev (fl_remove b s) c = fprev s c"
    by (auto simp: fl_remove_def Let_def)
qed

definition steer :: "addr \<Rightarrow> addr \<Rightarrow> heap_state \<Rightarrow> heap_state" where
  "steer a b s = (if alloc_rover s = a then s\<lparr>alloc_rover := b\<rparr> else s)"

lemma steer_simps [simp]:
  "hdr (steer a b s) = hdr s" "heap_base (steer a b s) = heap_base s"
  "heap_capacity (steer a b s) = heap_capacity s" "head (steer a b s) = head s"
  "free_head (steer a b s) = free_head s" "heap_used_now (steer a b s) = heap_used_now s"
  "heap_peak (steer a b s) = heap_peak s" "hmem (steer a b s) = hmem s"
  "heap_log (steer a b s) = heap_log s"
  by (simp_all add: steer_def)

lemma steer_views [simp]:
  "bnext (steer a b s) = bnext s" "bprev (steer a b s) = bprev s" "bsize (steer a b s) = bsize s"
  "fnext (steer a b s) = fnext s" "fprev (steer a b s) = fprev s" "bfree (steer a b s) = bfree s"
  "bmagic (steer a b s) = bmagic s" "breq (steer a b s) = breq s"
  by (rule hdr_eq_views, simp)+

lemma heap_rep_steer [simp]: "heap_rep c (steer a b s) bs fl = heap_rep c s bs fl"
  by (rule heap_rep_cong) simp_all

lemma coalesce_next_eq:
  "coalesce_next c s = (if bnext s c \<noteq> 0 \<and> bfree s (bnext s c)
     then absorb_next c (steer (bnext s c) c s) else s)"
  by (simp only: coalesce_next_def absorb_next_def Let_def hdr_views steer_def [symmetric] steer_views)

lemma coalesce_prev_eq:
  assumes "bnext s (bprev s c) = c" "bprev s c \<noteq> c" "c \<noteq> 0"
  shows "coalesce_prev c s = (if bprev s c \<noteq> 0 \<and> bfree s (bprev s c)
     then (set_hdr (bprev s c) (\<lambda>h. h\<lparr>hb_magic := HEAP_MAGIC_FREE, hb_req := 0, hb_caller := 0\<rparr>)
             (absorb_next (bprev s c) (steer c (bprev s c) s)), bprev s c)
     else (set_hdr c (\<lambda>h. h\<lparr>hb_magic := HEAP_MAGIC_FREE, hb_req := 0, hb_caller := 0\<rparr>) s, c))"
  using assms by (simp add: coalesce_prev_def absorb_next_def Let_def steer_def [symmetric])

lemma coalesce_next_rep:
  assumes r: "heap_rep c s (xs @ c # ys) fl" and na: "nadj fl (xs @ c # ys)"
    and det: "fnext s c = 0" "fprev s c = 0"
  obtains ys' fl' where "heap_rep c (coalesce_next c s) (xs @ c # ys') fl'"
    "nadj fl' (xs @ c # ys')" "ys' = [] \<or> hd ys' \<notin> set fl'"
    "keeps c s (xs @ c # ys) fl (coalesce_next c s) (xs @ c # ys') fl'"
    "same_rest s (coalesce_next c s)" "bfree (coalesce_next c s) = bfree s"
    "bmagic (coalesce_next c s) = bmagic s" "bprev (coalesce_next c s) c = bprev s c"
    "fnext (coalesce_next c s) c = 0" "fprev (coalesce_next c s) c = 0"
    "set fl' \<inter> set xs = set fl \<inter> set xs"
proof -
  note g = heap_repD(1) [OF r]
  have d: "distinct (xs @ c # ys)" "0 \<notin> set (xs @ c # ys)" using heap_geoD [OF g] by auto
  have nx: "bnext s c = (if ys = [] then 0 else hd ys)"
    using dseg_next [OF heap_geo_tiles(2) [OF g]] .
  have mark: "bfree s (hd ys) \<longleftrightarrow> hd ys \<in> set fl" if "ys \<noteq> []"
    using that heap_repD(6) [OF r, of "hd ys"] d by (cases ys) (auto simp: heap_mark_def)
  show ?thesis
  proof (cases "ys \<noteq> [] \<and> hd ys \<in> set fl")
    case True
    then obtain y zs where ys: "ys = y # zs" and y: "y \<in> set fl" by (cases ys) auto
    let ?s = "absorb_next c (steer y c s)"
    have s': "coalesce_next c s = ?s" using mark True nx d(2) ys by (simp add: coalesce_next_eq)
    have r1: "heap_rep c (steer y c s) (xs @ c # y # zs) fl" using r ys by simp
    have A: "heap_rep c ?s (xs @ c # zs) (remove1 y fl)" using heap_rep_absorb [OF r1 y] by simp
    have v: "bsize ?s = (bsize s)(c := bsize s c + (HDR + bsize s y))"
      using heap_geo_absorb(2) [OF heap_repD(1) [OF r1]] by simp
    have f: "set (remove1 y fl) = set fl - {y}" using heap_repD(4) [OF r] by simp
    have na': "nadj (remove1 y fl) (xs @ c # zs)" "zs = [] \<or> hd zs \<notin> set (remove1 y fl)"
      using na heap_repD(5) [OF r] y nadj_mono [of "remove1 y fl" xs fl] nadj_mono [of "remove1 y fl" zs fl]
      unfolding ys nadj_append nadj_Cons f by auto
    have fl: "fl_list (steer y c s) fl" using heap_repD(2) [OF r] by simp
    have c0: "c \<noteq> 0" using d by auto
    have "keeps c s (xs @ c # ys) fl ?s (xs @ c # zs) (remove1 y fl)"
      unfolding keeps_def v f using ys y d by auto
    moreover have "bprev ?s c = bprev s c"
      using absorb_next_views(2) [of "steer y c s" c] d dseg_next [of _ _ _ _ "xs @ [c]" y zs]
        heap_geo_tiles(2) [OF g] nx unfolding ys by (cases zs) auto
    ultimately show ?thesis using that [OF A [folded s'] na'] s' f d ys det nx
        fl_remove_other [OF fl y heap_repD(5) [OF r] c0] by (auto simp: same_rest_def)
  next
    case False
    then have "coalesce_next c s = s" using mark nx by (auto simp: coalesce_next_eq)
    then show ?thesis using that [of ys fl] r na False det by (auto simp: same_rest_def)
  qed
qed

text \<open>The end of \<open>kfree_nolock\<close>, once the block is marked free.\<close>

definition release_block :: "addr \<Rightarrow> heap_state \<Rightarrow> heap_state" where
  "release_block c s =
     (let had_free_prev = (bprev s c \<noteq> 0 \<and> bfree s (bprev s c)); (s3, surv) = coalesce c s
      in if \<not> had_free_prev then fl_insert surv s3 else s3)"

lemma release_merge_prev:
  assumes r: "heap_rep c s (ws @ p # c # ys) fl" and na: "nadj fl (ws @ p # c # ys)"
    and hd: "ys = [] \<or> hd ys \<notin> set fl" and p: "p \<in> set fl"
    and det: "fnext s c = 0" "fprev s c = 0"
  defines "s' \<equiv> set_hdr p (\<lambda>h. h\<lparr>hb_magic := HEAP_MAGIC_FREE, hb_req := 0, hb_caller := 0\<rparr>)
                   (absorb_next p (steer c p s))"
  shows "heap_rep 0 s' (ws @ p # ys) fl" "nadj fl (ws @ p # ys)"
    "keeps c s (ws @ p # c # ys) fl s' (ws @ p # ys) fl" "same_rest s s'"
    "bfree s' = bfree s" "bmagic s' c = bmagic s c" "c \<notin> set (ws @ p # ys)"
proof -
  note g = heap_repD(1) [OF r]
  have d: "distinct (ws @ p # c # ys)" "0 \<notin> set (ws @ p # c # ys)" using heap_geoD [OF g] by auto
  have nx: "bnext s p = c" using dseg_next [OF heap_geo_tiles(2) [OF g]] by simp
  have fh: "free_head s \<noteq> c" using dseg_head [OF heap_repD(2) [OF r]] heap_repD(5) [OF r] d
    by (cases fl) auto
  have g1: "heap_geo (steer c p s) (ws @ p # c # ys)"
    using heap_repD(1) [of c "steer c p s"] r by simp
  have v: "bsize s' = (bsize s)(p := bsize s p + (HDR + bsize s c))"
    using heap_geo_absorb(2) [OF g1] by (simp add: s'_def)
  have flv: "fl_list s' fl"
    using heap_repD(2) [OF r] fl_remove_detached [of "steer c p s" c] det fh nx by (simp add: s'_def)
  have g': "heap_geo s' (ws @ p # ys)"
    using heap_geo_absorb(1) [OF g1] by (simp add: s'_def heap_geo_set_hdr)
  have "heap_mark s' fl b" if b: "b \<in> set (ws @ p # ys)" for b
  proof -
    have "b \<noteq> c" using b d by auto
    with b heap_repD(6) [OF r, of b] p show ?thesis unfolding heap_mark_def v by (auto simp: s'_def)
  qed
  moreover have "0 \<notin> set fl" using dseg_nonnull [OF heap_repD(2) [OF r]] .
  ultimately show "heap_rep 0 s' (ws @ p # ys) fl"
    unfolding heap_rep_def using g' flv heap_repD(3,5) [OF r] by auto
  show "nadj fl (ws @ p # ys)" using na hd unfolding nadj_append nadj_Cons by auto
  show "keeps c s (ws @ p # c # ys) fl s' (ws @ p # ys) fl"
    unfolding keeps_def v using d p by (auto simp: s'_def)
  show "same_rest s s'" "bfree s' = bfree s" "bmagic s' c = bmagic s c" "c \<notin> set (ws @ p # ys)"
    using d by (auto simp: s'_def same_rest_def)
qed

lemma release_insert:
  assumes r: "heap_rep c s (xs @ c # ys) fl" and na: "nadj fl (xs @ c # ys)"
    and hd: "ys = [] \<or> hd ys \<notin> set fl" and tl: "xs = [] \<or> last xs \<notin> set fl" and f: "bfree s c"
  defines "s' \<equiv> fl_insert c
      (set_hdr c (\<lambda>h. h\<lparr>hb_magic := HEAP_MAGIC_FREE, hb_req := 0, hb_caller := 0\<rparr>) s)"
  shows "heap_rep 0 s' (xs @ c # ys) (c # fl)" "nadj (c # fl) (xs @ c # ys)"
    "keeps c s (xs @ c # ys) fl s' (xs @ c # ys) (c # fl)" "same_rest s s'"
    "bfree s' = bfree s" "bmagic s' c = HEAP_MAGIC_FREE"
proof -
  note g = heap_repD(1) [OF r]
  have d: "distinct (xs @ c # ys)" "0 \<notin> set (xs @ c # ys)" using heap_geoD [OF g] by auto
  have cf: "c \<notin> set fl" and nz: "0 \<notin> set fl"
    using heap_repD(5) [OF r] dseg_nonnull [OF heap_repD(2) [OF r]] by auto
  have fl: "fl_list s' (c # fl)" unfolding s'_def
    by (rule fl_insert_list) (use heap_repD(2) [OF r] cf d in auto)
  have g': "heap_geo s' (xs @ c # ys)"
    using heap_geo_set_hdr [of _ c s "xs @ c # ys"] g by (simp add: s'_def heap_geo_fl_insert)
  have "heap_mark s' (c # fl) b" if "b \<in> set (xs @ c # ys)" for b
    using that heap_repD(6) [OF r, of b] f unfolding heap_mark_def by (auto simp: s'_def)
  then show "heap_rep 0 s' (xs @ c # ys) (c # fl)"
    unfolding heap_rep_def using g' fl heap_repD(3) [OF r] d nz by (auto simp del: dseg.simps)
  show "nadj (c # fl) (xs @ c # ys)"
    using na hd tl d nadj_mono [of "c # fl" xs fl] nadj_mono [of "c # fl" ys fl]
    unfolding nadj_append nadj_Cons by (cases ys) auto
  show "keeps c s (xs @ c # ys) fl s' (xs @ c # ys) (c # fl)"
    unfolding keeps_def by (auto simp: s'_def)
  show "same_rest s s'" "bfree s' = bfree s" "bmagic s' c = HEAP_MAGIC_FREE"
    by (auto simp: s'_def same_rest_def)
qed

lemma same_rest_trans: "same_rest s s1 \<Longrightarrow> same_rest s1 s2 \<Longrightarrow> same_rest s s2"
  by (simp add: same_rest_def)

lemma heap_rep_release:
  assumes r: "heap_rep c s bs fl" and na: "nadj fl bs" and c: "c \<in> set bs"
    and f: "bfree s c" "bmagic s c = HEAP_MAGIC_FREE" and det: "fnext s c = 0" "fprev s c = 0"
  obtains bs' fl' where "heap_rep 0 (release_block c s) bs' fl'" "nadj fl' bs'"
    "keeps c s bs fl (release_block c s) bs' fl'" "c \<notin> set bs' - set fl'"
    "same_rest s (release_block c s)" "bfree (release_block c s) c"
    "bmagic (release_block c s) c = HEAP_MAGIC_FREE"
proof -
  obtain xs ys where bs: "bs = xs @ c # ys" using split_list [OF c] by blast
  let ?s = "coalesce_next c s"
  obtain ys' fl' where C: "heap_rep c ?s (xs @ c # ys') fl'" "nadj fl' (xs @ c # ys')"
    "ys' = [] \<or> hd ys' \<notin> set fl'" "keeps c s bs fl ?s (xs @ c # ys') fl'" "same_rest s ?s"
    "bfree ?s = bfree s" "bmagic ?s = bmagic s" "bprev ?s c = bprev s c" "fnext ?s c = 0" "fprev ?s c = 0"
    "set fl' \<inter> set xs = set fl \<inter> set xs"
    using coalesce_next_rep [OF r [unfolded bs] na [unfolded bs] det] unfolding bs by metis
  note g = heap_repD(1) [OF C(1)]
  have d: "distinct (xs @ c # ys')" "0 \<notin> set (xs @ c # ys')" using heap_geoD [OF g] by auto
  have pv: "bprev ?s c = (if xs = [] then 0 else last xs)"
    using dseg_prev [OF heap_geo_tiles(2) [OF g]] .
  show ?thesis
  proof (cases "xs \<noteq> [] \<and> last xs \<in> set fl'")
    case True
    then obtain ws p where xs: "xs = ws @ [p]" and p: "p \<in> set fl'" by (cases xs rule: rev_cases) auto
    have n: "bnext ?s p = c" "p \<noteq> c" "p \<noteq> 0" "c \<noteq> 0"
      using dseg_next [of _ _ _ _ ws p "c # ys'"] heap_geo_tiles(2) [OF g] d xs by auto
    have "bfree ?s p" using heap_repD(6) [OF C(1), of p] p n xs by (simp add: heap_mark_def)
    then have s': "release_block c s = set_hdr p (\<lambda>h. h\<lparr>hb_magic := HEAP_MAGIC_FREE, hb_req := 0,
        hb_caller := 0\<rparr>) (absorb_next p (steer c p ?s))"
      using C(6,8) pv n xs by (simp add: release_block_def coalesce_def coalesce_prev_eq)
    note M = release_merge_prev [OF C(1,2) [unfolded xs, simplified] C(3) p C(9,10), folded s']
    show ?thesis using that [OF M(1,2)] keeps_trans [OF C(4)] same_rest_trans [OF C(5)] M C(6,7) f xs
      by simp
  next
    case False
    have "last xs \<noteq> c" "last xs \<in> set xs" if "xs \<noteq> []" using d last_in_set [OF that] by auto
    with False have nf: "\<not> (bprev ?s c \<noteq> 0 \<and> bfree ?s (bprev ?s c))"
      using pv heap_repD(6) [OF C(1), of "last xs"] by (cases "xs = []") (auto simp: heap_mark_def)
    have cp: "coalesce_prev c ?s =
      (set_hdr c (\<lambda>h. h\<lparr>hb_magic := HEAP_MAGIC_FREE, hb_req := 0, hb_caller := 0\<rparr>) ?s, c)"
      using nf unfolding coalesce_prev_def Let_def hdr_views by (rule if_not_P)
    have s': "release_block c s = fl_insert c
      (set_hdr c (\<lambda>h. h\<lparr>hb_magic := HEAP_MAGIC_FREE, hb_req := 0, hb_caller := 0\<rparr>) ?s)"
      using nf unfolding release_block_def coalesce_def cp C(6,8) by simp
    note M = release_insert [OF C(1,2,3) _ , folded s']
    show ?thesis using that [OF M(1,2)] keeps_trans [OF C(4)] same_rest_trans [OF C(5)] M C(6) f False
      by auto
  qed
qed

end
