(* ===== verification/Heap_Spec.thy ===== *)
theory Heap_Spec
  imports Heap_Inv
begin

text \<open>
  What the heap promises its callers. The abstraction of a heap state is the map \<open>L\<close> from the
  pointers handed out to the sizes requested (\<open>heap_models s L\<close>); the theorems say how
  \<open>kmalloc\<close>, \<open>kfree\<close> and \<open>krealloc\<close> change \<open>L\<close>, that the objects in it never overlap, and which
  bytes each operation leaves alone.
\<close>

section \<open>Abstraction\<close>

definition live_map :: "heap_state \<Rightarrow> addr list \<Rightarrow> addr list \<Rightarrow> addr \<Rightarrow> nat option" where
  "live_map s bs fl p =
     (if HDR \<le> p \<and> p - HDR \<in> set bs - set fl then Some (breq s (p - HDR)) else None)"

definition heap_models :: "heap_state \<Rightarrow> (addr \<Rightarrow> nat option) \<Rightarrow> bool" where
  "heap_models s L \<longleftrightarrow> (\<exists>bs fl. heap_rep 0 s bs fl \<and> nadj fl bs \<and> L = live_map s bs fl)"

text \<open>The bytes of the objects in \<open>L\<close>, the canary after each included, are the same.\<close>

definition kept :: "(addr \<Rightarrow> nat option) \<Rightarrow> heap_state \<Rightarrow> heap_state \<Rightarrow> bool" where
  "kept L s s' \<longleftrightarrow> (\<forall>q r a. L q = Some r \<longrightarrow> q \<le> a \<longrightarrow> a < q + r + 8 \<longrightarrow> hmem s' a = hmem s a)"

definition guarded :: "heap_state \<Rightarrow> (addr \<Rightarrow> nat option) \<Rightarrow> bool" where
  "guarded s L \<longleftrightarrow> (\<forall>q r. L q = Some r \<longrightarrow> read_bytes (q + r) 8 s = HEAP_CANARY)"

text \<open>\<open>heap_used_bytes\<close> counts the payload sizes of the objects in \<open>L\<close>.\<close>

definition accounted :: "heap_state \<Rightarrow> (addr \<Rightarrow> nat option) \<Rightarrow> bool" where
  "accounted s L \<longleftrightarrow> heap_used_now s = (\<Sum>p\<in>dom L. hb_size (hdr s (p - HDR)))"

lemma heap_modelsE:
  assumes "heap_models s L"
  obtains bs fl where "heap_rep 0 s bs fl" "nadj fl bs" "L = live_map s bs fl"
  using assms unfolding heap_models_def by blast

lemma heap_modelsI:
  "heap_rep 0 s bs fl \<Longrightarrow> nadj fl bs \<Longrightarrow> L = live_map s bs fl \<Longrightarrow> heap_models s L"
  unfolding heap_models_def by blast

lemma live_map_Some:
  "live_map s bs fl p = Some r \<longleftrightarrow> HDR \<le> p \<and> p - HDR \<in> set bs \<and> p - HDR \<notin> set fl \<and> r = breq s (p - HDR)"
  by (auto simp: live_map_def)

lemma heap_rep_mark: "heap_rep 0 s bs fl \<Longrightarrow> b \<in> set bs \<Longrightarrow> heap_mark s fl b"
  using heap_geoD(2) [OF heap_repD(1)] heap_repD(6) by metis

lemma heap_rep_free:
  "heap_rep 0 s bs fl \<Longrightarrow> \<forall>v\<in>set fl. bfree s v \<and> bmagic s v = HEAP_MAGIC_FREE"
  using heap_rep_mark heap_repD(3) unfolding heap_mark_def by (metis subsetD)

lemma heap_models_bounds:
  assumes "heap_models s L" "L p = Some r"
  shows "heap_base s + HDR \<le> p" "p + r + 8 \<le> heap_base s + heap_capacity s" "16 dvd p" "0 < r"
    "heap_base s + heap_capacity s < 2 ^ 64" "heap_base s \<noteq> 0" "heap_capacity s \<noteq> 0"
proof -
  obtain bs fl where m: "heap_rep 0 s bs fl" "L = live_map s bs fl" using heap_modelsE [OF assms(1)] .
  note g = heap_repD(1) [OF m(1)]
  define b where "b = p - HDR"
  have b: "p = b + HDR" "b \<in> set bs" "b \<notin> set fl" "r = breq s b"
    using assms(2) unfolding m(2) live_map_Some b_def by auto
  then have mk: "r + 8 \<le> bsize s b" "0 < r"
    using heap_rep_mark [OF m(1), of b] by (auto simp: heap_mark_def)
  then show "heap_base s + HDR \<le> p" "p + r + 8 \<le> heap_base s + heap_capacity s" "0 < r"
    using heap_geoD(3) [OF g b(2)] b(1) by auto
  have "16 dvd b" using tiles_dvd [OF heap_geo_tiles(1) [OF g] _ _ _ b(2)] g
    by (auto simp: heap_geo_def HDR_def)
  then show "16 dvd p" using b(1) by (simp add: HDR_def)
  show "heap_base s + heap_capacity s < 2 ^ 64" "heap_base s \<noteq> 0" "heap_capacity s \<noteq> 0"
    using g by (simp_all add: heap_geo_def)
qed

lemma heap_models_disjoint:
  assumes "heap_models s L" "L p = Some r" "L q = Some t" "p \<noteq> q"
  shows "p + r + 8 + HDR \<le> q \<or> q + t + 8 + HDR \<le> p"
proof -
  obtain bs fl where m: "heap_rep 0 s bs fl" "L = live_map s bs fl" using heap_modelsE [OF assms(1)] .
  note g = heap_repD(1) [OF m(1)]
  have b: "p - HDR \<in> set bs" "q - HDR \<in> set bs" "HDR \<le> p" "HDR \<le> q" "p - HDR \<noteq> q - HDR"
    "p - HDR \<notin> set fl" "q - HDR \<notin> set fl" "r = breq s (p - HDR)" "t = breq s (q - HDR)"
    using assms(2-4) unfolding m(2) live_map_Some by auto
  have "r + 8 \<le> bsize s (p - HDR)" "t + 8 \<le> bsize s (q - HDR)"
    using heap_rep_mark [OF m(1)] b unfolding heap_mark_def by metis+
  then show ?thesis
    using tiles_disjoint [OF heap_geo_tiles(1) [OF g] b(1,2,5)] b(3,4) by linarith
qed

lemma heap_rep_settle:
  assumes "heap_rep c s bs fl" "heap_mark s fl c"
  shows "heap_rep 0 s bs fl"
proof -
  have "0 \<notin> set fl" using dseg_nonnull [OF heap_repD(2) [OF assms(1)]] .
  then show ?thesis using assms unfolding heap_rep_def by metis
qed

lemma heap_rep_unsettle:
  assumes "heap_rep 0 s bs fl" "c \<notin> set fl"
  shows "heap_rep c s bs fl"
  using assms heap_geoD(2) [OF heap_repD(1) [OF assms(1)]] unfolding heap_rep_def by metis

text \<open>Payload writes and the statistics do not touch the representation.\<close>

lemma heap_models_cong:
  assumes "hdr s' = hdr s" "heap_base s' = heap_base s" "heap_capacity s' = heap_capacity s"
    "head s' = head s" "free_head s' = free_head s"
  shows "heap_models s' L = heap_models s L"
  unfolding heap_models_def heap_rep_cong [OF assms] live_map_def hdr_eq_views [OF assms(1)] fun_eq_iff ..

section \<open>The size of an allocation\<close>

lemma ALIGN16_spec:
  assumes "n + 23 < 2 ^ 64"
  shows "16 dvd ALIGN16 (add64 n 8)" "n + 8 \<le> ALIGN16 (add64 n 8)" "ALIGN16 (add64 n 8) \<le> n + 23"
proof -
  have a: "add64 (add64 n 8) 15 = n + 23" using assms by (simp add: add64_id)
  have "ALIGN16 (add64 n 8) = align_down64 (n + 23) (2 ^ 4)" unfolding ALIGN16_def a by simp
  also have "\<dots> = (n + 23) div 16 * 16" using align_down64_pow2 [of 4 "n + 23"] assms by simp
  finally have e: "ALIGN16 (add64 n 8) = (n + 23) div 16 * 16" .
  show "16 dvd ALIGN16 (add64 n 8)" "n + 8 \<le> ALIGN16 (add64 n 8)" "ALIGN16 (add64 n 8) \<le> n + 23"
    unfolding e by auto
qed

section \<open>Allocation\<close>

lemma kmalloc_search_find:
  assumes "linked (fnext s) 0 cur vs" "\<forall>v\<in>set vs. bfree s v \<and> bmagic s v = HEAP_MAGIC_FREE"
  shows "kmalloc_search cur sz req caller s =
     Some (case find (\<lambda>v. sz \<le> bsize s v) vs of None \<Rightarrow> (s, 0)
           | Some v \<Rightarrow> kmalloc_take v sz req caller s)"
  using assms
proof (induction vs arbitrary: cur)
  case Nil
  then show ?case by (subst kmalloc_search.simps) simp
next
  case (Cons v vs)
  then show ?case by (subst kmalloc_search.simps) (simp add: HEAP_MAGIC_FREE_def)
qed

lemma heap_largest_loop_max:
  assumes "linked (fnext s) 0 cur vs" "\<forall>v\<in>set vs. bfree s v"
  shows "\<exists>m. heap_largest_loop cur mx s = Some m \<and> mx \<le> m \<and> (\<forall>v\<in>set vs. bsize s v \<le> m) \<and>
           (m = mx \<or> m \<in> bsize s ` set vs)"
  using assms
proof (induction vs arbitrary: cur mx)
  case Nil
  then show ?case by (subst heap_largest_loop.simps) simp
next
  case (Cons v vs)
  from Cons.IH [of "fnext s v" "if mx < bsize s v then bsize s v else mx"] Cons.prems
  obtain m where m: "heap_largest_loop (fnext s v) (if mx < bsize s v then bsize s v else mx) s = Some m"
    "(if mx < bsize s v then bsize s v else mx) \<le> m" "\<forall>u\<in>set vs. bsize s u \<le> m"
    "m = (if mx < bsize s v then bsize s v else mx) \<or> m \<in> bsize s ` set vs" by auto
  have "heap_largest_loop cur mx s = Some m"
    using Cons.prems m(1) by (subst heap_largest_loop.simps) (simp cong: if_cong)
  then show ?case using m(2-4) by (auto split: if_splits)
qed

text \<open>Allocation from the free block \<open>v\<close>.\<close>

definition canary_at :: "addr \<Rightarrow> heap_state \<Rightarrow> heap_state \<Rightarrow> bool" where
  "canary_at a s s' \<longleftrightarrow> hmem s' = (\<lambda>x. if a \<le> x \<and> x < a + 8 then HEAP_CANARY ! (x - a) else hmem s x)"

lemma length_HEAP_CANARY [simp]: "length HEAP_CANARY = 8"
  by (simp add: HEAP_CANARY_def)

lemma hmem_write_bytes:
  "hmem (write_bytes a bs s) = (\<lambda>x. if a \<le> x \<and> x < a + length bs then bs ! (x - a) else hmem s x)"
  by (simp add: write_bytes_def)

lemma canary_at_write:
  "hmem s1 = hmem s \<Longrightarrow> hmem s2 = hmem (write_bytes a HEAP_CANARY s1) \<Longrightarrow> canary_at a s s2"
  by (simp add: canary_at_def hmem_write_bytes cong: if_cong)

lemma kmalloc_take_rep:
  fixes caller :: addr
  assumes r: "heap_rep 0 s bs fl" and na: "nadj fl bs" and v: "v \<in> set fl"
    and sz: "16 dvd sz" "sz \<le> bsize s v" "req + 8 \<le> sz" "0 < req"
  defines "s' \<equiv> fst (kmalloc_take v sz req caller s)"
  shows "snd (kmalloc_take v sz req caller s) = v + HDR"
    "\<exists>bs' fl'. heap_rep 0 s' bs' fl' \<and> nadj fl' bs' \<and> v \<in> set bs' - set fl' \<and>
       keeps v s bs fl s' bs' fl'"
    "breq s' v = req" "canary_at (v + HDR + req) s s'" "heap_log s' = heap_log s"
    "heap_used_now s' = add64 (heap_used_now s) (bsize s' v)" "heap_base s' = heap_base s"
    "heap_capacity s' = heap_capacity s"
proof -
  have g: "heap_geo s bs" "v \<in> set bs" using heap_repD(1,3) [OF r] v by auto
  then obtain xs ys where bs: "bs = xs @ v # ys" using split_list by metis
  have b: "v + HDR + bsize s v < 2 ^ 64" using heap_geoD(3,4) [OF g(1)] g(2) by fastforce
  let ?s1 = "fl_remove v s" and ?fl = "remove1 v fl"
  have f: "set ?fl = set fl - {v}" using heap_repD(4) [OF r] by simp
  have "heap_geo ?s1 bs" using g(1) unfolding heap_geo_def by auto
  moreover have "heap_mark ?s1 ?fl b" if "b \<in> set bs" "b \<noteq> v" for b
    using heap_rep_mark [OF r that(1)] that unfolding heap_mark_def f by auto
  ultimately have r1: "heap_rep v ?s1 (xs @ v # ys) ?fl"
    using fl_list_remove1 [OF heap_repD(2) [OF r] v] heap_repD(3) [OF r] f bs
    unfolding heap_rep_def by auto
  have na1: "nadj ?fl (xs @ v # ys)" using nadj_mono [OF _ na, of ?fl] f bs by auto
  obtain ys' fl' where S: "heap_rep v (split_block v sz ?s1) (xs @ v # ys') fl'"
    "nadj fl' (xs @ v # ys')" "keeps v ?s1 (xs @ v # ys) ?fl (split_block v sz ?s1) (xs @ v # ys') fl'"
    "bsize (split_block v sz ?s1) v = (if bsize ?s1 v \<le> sz + HDR + 16 then bsize ?s1 v else sz)"
    "same_rest ?s1 (split_block v sz ?s1)"
    using heap_rep_split [OF r1 sz(1) _ na1] sz(2) by (metis fl_remove_frame(3))
  let ?s2 = "split_block v sz ?s1"
  let ?s3 = "set_hdr v (\<lambda>h. h\<lparr>hb_free := False, hb_magic := HEAP_MAGIC_ALLOC,
                 hb_req := req, hb_free_next := 0, hb_free_prev := 0, hb_caller := caller\<rparr>) ?s2"
  have p: "add64 v HDR = v + HDR" "add64 (v + HDR) req = v + HDR + req"
    using b sz by (simp_all add: add64_id)
  have h: "hdr s' = hdr ?s3" "heap_base s' = heap_base ?s3" "heap_capacity s' = heap_capacity ?s3"
    "head s' = head ?s3" "free_head s' = free_head ?s3"
    by (simp_all add: s'_def kmalloc_take_def Let_def write_bytes_def)
  note vw = hdr_eq_views [OF h(1)]
  show "snd (kmalloc_take v sz req caller s) = v + HDR" by (simp add: kmalloc_take_def Let_def p)
  show rq: "breq s' v = req" by (simp add: vw)
  have "hmem ?s2 = hmem s" using S(5) by (simp add: same_rest_def)
  moreover have "hmem s' = hmem (write_bytes (v + HDR + req) HEAP_CANARY ?s2)"
    by (simp add: s'_def kmalloc_take_def Let_def hmem_write_bytes p cong: if_cong)
  ultimately show "canary_at (v + HDR + req) s s'" by (rule canary_at_write)
  show "heap_log s' = heap_log s" using S(5)
    by (simp add: s'_def kmalloc_take_def Let_def write_bytes_def same_rest_def)
  show "heap_used_now s' = add64 (heap_used_now s) (bsize s' v)" using S(5)
    unfolding vw(3) by (simp add: s'_def kmalloc_take_def Let_def write_bytes_def same_rest_def)
  show "heap_base s' = heap_base s" "heap_capacity s' = heap_capacity s"
    using S(5) by (simp_all add: h same_rest_def)
  have vf: "v \<notin> set fl'" using heap_repD(5) [OF S(1)] .
  have "sz \<le> bsize ?s2 v" using S(4) sz(2) by simp
  then have mk: "heap_mark ?s3 fl' v" using vf sz by (simp add: heap_mark_def)
  have "fl_list ?s3 fl'" using heap_repD(2) [OF S(1)] vf by simp
  moreover have "heap_mark ?s3 fl' b" if "b \<in> set (xs @ v # ys')" "b \<noteq> v" for b
    using heap_repD(6) [OF S(1) that] that by (auto simp: heap_mark_def)
  ultimately have "heap_rep v ?s3 (xs @ v # ys') fl'"
    using heap_repD [OF S(1)] by (simp add: heap_rep_def heap_geo_set_hdr)
  then have "heap_rep 0 s' (xs @ v # ys') fl'"
    using heap_rep_settle [OF _ mk] heap_rep_cong [OF h] by blast
  moreover have "keeps v s bs fl s' (xs @ v # ys') fl'"
    using S(3) f bs unfolding keeps_def by (auto simp: vw)
  ultimately show "\<exists>bs' fl'. heap_rep 0 s' bs' fl' \<and> nadj fl' bs' \<and> v \<in> set bs' - set fl' \<and>
       keeps v s bs fl s' bs' fl'"
    using S(2) vf by (intro exI [of _ "xs @ v # ys'"] exI [of _ fl']) simp
qed

lemma live_map_keeps:
  assumes "keeps v s bs fl s' bs' fl'"
  shows "(live_map s' bs' fl')(v + HDR := x) = (live_map s bs fl)(v + HDR := x)"
proof
  fix p
  consider "p = v + HDR" | "\<not> HDR \<le> p" | "HDR \<le> p" "p - HDR \<noteq> v" by fastforce
  then show "((live_map s' bs' fl')(v + HDR := x)) p = ((live_map s bs fl)(v + HDR := x)) p"
  proof cases
    case 3
    then have "p - HDR \<in> set bs' - set fl' \<longleftrightarrow> p - HDR \<in> set bs - set fl"
      using assms unfolding keeps_def by blast
    then show ?thesis using 3 assms unfolding keeps_def live_map_def by auto
  qed (simp_all add: live_map_def)
qed

lemma canary_at_read:
  "canary_at a s s' \<Longrightarrow> read_bytes a 8 s' = HEAP_CANARY"
  by (simp add: canary_at_def read_bytes_def HEAP_CANARY_def upt_rec)

lemma canary_at_kept:
  assumes "canary_at (p + n) s s'" "heap_models s' (L(p \<mapsto> n))" "L p = None"
  shows "kept L s s'"
  unfolding kept_def
proof (intro allI impI)
  fix q r a assume q: "L q = Some r" "q \<le> a" "a < q + r + 8"
  then have "q \<noteq> p" using assms(3) by auto
  then have "q + r + 8 \<le> p \<or> p + n + 8 \<le> q"
    using heap_models_disjoint [OF assms(2), of q r p n] q(1) by fastforce
  then show "hmem s' a = hmem s a" using q assms(1) by (auto simp: canary_at_def)
qed

text \<open>The free block that is too small: what failure means.\<close>

definition heap_fits :: "nat \<Rightarrow> heap_state \<Rightarrow> bool" where
  "heap_fits n s \<longleftrightarrow> (case heap_largest_free_block s of None \<Rightarrow> False | Some m \<Rightarrow> n \<le> m)"

lemma heap_fits_find:
  assumes r: "heap_rep 0 s bs fl" and n: "0 < n"
  shows "heap_fits n s \<longleftrightarrow> (\<exists>v\<in>set fl. n \<le> bsize s v)"
proof -
  have "\<forall>v\<in>set fl. bfree s v" using heap_rep_free [OF r] by blast
  then obtain m where "heap_largest_free_block s = Some m" "\<forall>v\<in>set fl. bsize s v \<le> m"
    "m = 0 \<or> m \<in> bsize s ` set fl"
    using heap_largest_loop_max [OF dseg_linked [OF heap_repD(2) [OF r]], of 0]
    unfolding heap_largest_free_block_def by auto
  then show ?thesis using n by (auto simp: heap_fits_def)
qed

lemma shift_image: "{p. h \<le> p \<and> p - h \<in> A} = (\<lambda>b. b + h) ` A" for h :: nat
  by (force simp: image_iff)

lemma accounted_live_map:
  "accounted s (live_map s bs fl) \<longleftrightarrow> heap_used_now s = (\<Sum>b\<in>set bs - set fl. bsize s b)"
proof -
  have "dom (live_map s bs fl) = {p. HDR \<le> p \<and> p - HDR \<in> set bs - set fl}"
    by (auto simp: live_map_def split: if_splits)
  also have "\<dots> = (\<lambda>b. b + HDR) ` (set bs - set fl)" by (rule shift_image)
  finally have "(\<Sum>p\<in>dom (live_map s bs fl). hb_size (hdr s (p - HDR))) = (\<Sum>b\<in>set bs - set fl. bsize s b)"
    by (simp add: sum.reindex inj_on_def)
  then show ?thesis by (simp add: accounted_def)
qed

lemma live_sum_bound:
  assumes "heap_geo s bs"
  shows "(\<Sum>b\<in>set bs - F. bsize s b) < 2 ^ 64"
proof -
  have "(\<Sum>b\<in>set bs - F. bsize s b) \<le> (\<Sum>b\<in>set bs. bsize s b)" by (rule sum_mono2) auto
  also have "\<dots> \<le> (\<Sum>b\<in>set bs. HDR + bsize s b)" by (rule sum_mono) simp
  also have "\<dots> = (\<Sum>b\<leftarrow>bs. HDR + bsize s b)"
    using heap_geoD(1) [OF assms] by (simp add: sum_list_distinct_conv_sum_set)
  also have "\<dots> \<le> heap_base s + heap_capacity s"
    using tiles_total [OF heap_geo_tiles(1) [OF assms]] by linarith
  finally show ?thesis using heap_geoD(4) [OF assms] by linarith
qed

lemma accounted_take:
  assumes r: "heap_rep 0 s bs fl" and r': "heap_rep 0 s' bs' fl'" and v: "v \<in> set bs' - set fl'"
    and k: "keeps v s bs fl s' bs' fl'" and vf: "v \<in> set fl"
    and u: "heap_used_now s' = add64 (heap_used_now s) (bsize s' v)"
    and a: "accounted s (live_map s bs fl)"
  shows "accounted s' (live_map s' bs' fl')"
proof -
  have "set bs - set fl - {v} = set bs - set fl" using vf by auto
  then have e: "set bs' - set fl' - {v} = set bs - set fl" "\<forall>b\<in>set bs - set fl. bsize s' b = bsize s b"
    using k unfolding keeps_def by simp_all
  have "(\<Sum>b\<in>set bs' - set fl'. bsize s' b) = bsize s' v + (\<Sum>b\<in>set bs - set fl. bsize s' b)"
    using sum.remove [OF _ v, of "bsize s'"] e(1) by simp
  also have "(\<Sum>b\<in>set bs - set fl. bsize s' b) = (\<Sum>b\<in>set bs - set fl. bsize s b)"
    using e(2) by (intro sum.cong) auto
  finally have "(\<Sum>b\<in>set bs' - set fl'. bsize s' b) = bsize s' v + (\<Sum>b\<in>set bs - set fl. bsize s b)" .
  then show ?thesis
    using a u live_sum_bound [OF heap_repD(1) [OF r'], of "set fl'"]
    by (simp add: accounted_live_map add64_id add.commute)
qed

lemma kmalloc_nolock_models:
  assumes m: "heap_models s L" and n: "0 < n" "n + 23 < 2 ^ 64"
  shows "(\<not> heap_fits (ALIGN16 (add64 n 8)) s \<and> kmalloc_nolock n caller s = Some (s, 0)) \<or>
    (heap_fits (ALIGN16 (add64 n 8)) s \<and>
     (\<exists>s' p. kmalloc_nolock n caller s = Some (s', p) \<and> p \<noteq> 0 \<and> L p = None \<and>
       heap_models s' (L(p \<mapsto> n)) \<and> kept L s s' \<and> canary_at (p + n) s s' \<and> heap_log s' = heap_log s \<and>
       heap_base s' = heap_base s \<and> heap_capacity s' = heap_capacity s \<and>
       (accounted s L \<longrightarrow> accounted s' (L(p \<mapsto> n)))))"
proof -
  obtain bs fl where r: "heap_rep 0 s bs fl" and na: "nadj fl bs" and L: "L = live_map s bs fl"
    using heap_modelsE [OF m] .
  note g = heap_repD(1) [OF r]
  let ?sz = "ALIGN16 (add64 n 8)"
  note A = ALIGN16_spec [OF n(2)]
  have hd0: "head s \<noteq> 0" using g by (simp add: heap_geo_def)
  note fr = heap_rep_free [OF r]
  note srch = kmalloc_search_find [OF dseg_linked [OF heap_repD(2) [OF r]] fr, of ?sz n caller]
  have fits: "heap_fits ?sz s \<longleftrightarrow> (\<exists>v\<in>set fl. ?sz \<le> bsize s v)"
    using heap_fits_find [OF r] A(2) by simp
  show ?thesis
  proof (cases "find (\<lambda>v. ?sz \<le> bsize s v) fl")
    case None
    then have "kmalloc_nolock n caller s = Some (s, 0)"
      using srch by (simp add: kmalloc_nolock_def)
    then show ?thesis using None fits by (auto simp: find_None_iff)
  next
    case (Some v)
    then have v: "v \<in> set fl" "?sz \<le> bsize s v" by (auto simp: find_Some_iff)
    define s' where "s' = fst (kmalloc_take v ?sz n caller s)"
    let ?s = s' and ?p = "v + HDR"
    note T = kmalloc_take_rep [OF r na v(1) A(1) v(2) A(2) n(1), of caller, folded s'_def]
    have "free_head s \<noteq> 0" using dseg_head [OF heap_repD(2) [OF r]] v(1)
        dseg_nonnull [OF heap_repD(2) [OF r]] by (cases fl) auto
    then have k: "kmalloc_nolock n caller s = Some (?s, ?p)"
      using srch Some n(1) hd0 T(1) by (simp add: kmalloc_nolock_def prod_eq_iff s'_def)
    obtain bs' fl' where R: "heap_rep 0 ?s bs' fl'" "nadj fl' bs'" "v \<in> set bs' - set fl'"
      "keeps v s bs fl ?s bs' fl'" using T(2) by blast
    have Lp: "L ?p = None" unfolding L live_map_def using v(1) by simp
    have "live_map ?s bs' fl' ?p = Some n" using R(3) T(3) by (simp add: live_map_def)
    then have L': "live_map ?s bs' fl' = L(?p \<mapsto> n)"
      using live_map_keeps [OF R(4), of "Some n"] unfolding L by (metis fun_upd_triv)
    have m': "heap_models ?s (L(?p \<mapsto> n))" using heap_modelsI [OF R(1,2) L' [symmetric]] .
    have kp: "kept L s ?s" by (rule canary_at_kept [OF T(4) m' Lp])
    have "accounted ?s (L(?p \<mapsto> n))" if ac: "accounted s L"
      using accounted_take [OF r R(1,3,4) v(1) T(6) ac [unfolded L]] unfolding L' .
    moreover have "heap_fits ?sz s" "?p \<noteq> 0" using fits v by auto
    ultimately show ?thesis using k m' kp Lp T(4,5,7,8)
      by (intro disjI2 conjI exI [of _ s'] exI [of _ ?p] impI)
  qed
qed

section \<open>Freeing\<close>

lemma heap_range_checks:
  assumes "heap_models s L" "L p = Some r"
  shows "sub64 p HDR = p - HDR" "heap_ptr_in_range s p" "heap_ptr_in_range s (p - HDR)"
    "heap_canary_ok p (p - HDR) s \<longleftrightarrow> read_bytes (p + r) 8 s = HEAP_CANARY"
    "hb_magic (hdr s (p - HDR)) = HEAP_MAGIC_ALLOC" "\<not> hb_free (hdr s (p - HDR))"
    "hb_req (hdr s (p - HDR)) = r"
proof -
  note b = heap_models_bounds [OF assms]
  obtain bs fl where m: "heap_rep 0 s bs fl" "L = live_map s bs fl" using heap_modelsE [OF assms(1)] .
  have p: "p - HDR \<in> set bs" "p - HDR \<notin> set fl" "r = breq s (p - HDR)"
    using assms(2) unfolding m(2) live_map_Some by auto
  then show mk: "hb_magic (hdr s (p - HDR)) = HEAP_MAGIC_ALLOC" "\<not> hb_free (hdr s (p - HDR))"
    "hb_req (hdr s (p - HDR)) = r"
    using heap_rep_mark [OF m(1) p(1)] by (auto simp: heap_mark_def)
  show "sub64 p HDR = p - HDR" using b by (simp add: sub64_id)
  have hi: "add64 (heap_base s) (heap_capacity s) = heap_base s + heap_capacity s"
    using b by (simp add: add64_id)
  show "heap_ptr_in_range s p" "heap_ptr_in_range s (p - HDR)"
    using b by (auto simp: heap_ptr_in_range_def hi)
  have "add64 p r = p + r" "heap_range_in_range s (p + r) 8"
    using b by (auto simp: add64_id sub64_id heap_range_in_range_def hi Let_def)
  then show "heap_canary_ok p (p - HDR) s \<longleftrightarrow> read_bytes (p + r) 8 s = HEAP_CANARY"
    using mk(3) by (simp add: heap_canary_ok_def Let_def)
qed

text \<open>\<open>kfree_nolock\<close> up to the call of \<open>coalesce\<close>.\<close>

definition free_mark :: "addr \<Rightarrow> addr \<Rightarrow> heap_state \<Rightarrow> heap_state" where
  "free_mark ptr blk s =
     (let s0 = (if heap_canary_ok ptr blk s then s else heap_say (OverflowDetected ptr) s);
          s1 = set_hdr blk (\<lambda>h. h\<lparr>hb_free := True, hb_magic := HEAP_MAGIC_FREE,
                 hb_free_next := 0, hb_free_prev := 0\<rparr>) s0
      in s1\<lparr>heap_used_now := (if hb_size (hdr s1 blk) \<le> heap_used_now s1
                            then heap_used_now s1 - hb_size (hdr s1 blk) else 0)\<rparr>)"

lemma kfree_nolock_eq:
  assumes "heap_models s L" "L p = Some r"
  shows "kfree_nolock p s = release_block (p - HDR) (free_mark p (p - HDR) s)"
proof -
  note c = heap_range_checks [OF assms]
  have "p \<noteq> 0" using heap_models_bounds [OF assms] by auto
  then show ?thesis
    unfolding kfree_nolock_def c(1) Let_def free_mark_def release_block_def
    using c(2,3,5,6) by (simp del: hdr_views add: view_defs)
qed

lemma view_heap_say [simp]:
  "bnext (heap_say m s) = bnext s" "bprev (heap_say m s) = bprev s" "bsize (heap_say m s) = bsize s"
  "fnext (heap_say m s) = fnext s" "fprev (heap_say m s) = fprev s" "bfree (heap_say m s) = bfree s"
  "bmagic (heap_say m s) = bmagic s" "breq (heap_say m s) = breq s"
  by (rule hdr_eq_views, simp add: heap_say_def)+

lemma view_used_now [simp]:
  "bnext (s\<lparr>heap_used_now := u\<rparr>) = bnext s" "bprev (s\<lparr>heap_used_now := u\<rparr>) = bprev s"
  "bsize (s\<lparr>heap_used_now := u\<rparr>) = bsize s" "fnext (s\<lparr>heap_used_now := u\<rparr>) = fnext s"
  "fprev (s\<lparr>heap_used_now := u\<rparr>) = fprev s" "bfree (s\<lparr>heap_used_now := u\<rparr>) = bfree s"
  "bmagic (s\<lparr>heap_used_now := u\<rparr>) = bmagic s" "breq (s\<lparr>heap_used_now := u\<rparr>) = breq s"
  by (rule hdr_eq_views, simp)+

lemma free_mark_views:
  "bnext (free_mark p b s) = bnext s" "bprev (free_mark p b s) = bprev s"
  "bsize (free_mark p b s) = bsize s" "fnext (free_mark p b s) = (fnext s)(b := 0)"
  "fprev (free_mark p b s) = (fprev s)(b := 0)" "bfree (free_mark p b s) = (bfree s)(b := True)"
  "bmagic (free_mark p b s) = (bmagic s)(b := HEAP_MAGIC_FREE)" "breq (free_mark p b s) = breq s"
  "heap_base (free_mark p b s) = heap_base s" "heap_capacity (free_mark p b s) = heap_capacity s"
  "head (free_mark p b s) = head s" "free_head (free_mark p b s) = free_head s"
  "hmem (free_mark p b s) = hmem s"
  "heap_log (free_mark p b s) = heap_log s @ (if heap_canary_ok p b s then [] else [OverflowDetected p])"
  "heap_used_now (free_mark p b s) = heap_used_now s - bsize s b"
  by (simp_all add: free_mark_def Let_def) (simp_all add: heap_say_def)

lemma accounted_release:
  assumes r: "heap_rep 0 s bs fl" and b: "b \<in> set bs - set fl"
    and k: "keeps b s bs fl s' bs' fl'" and bf: "b \<notin> set bs' - set fl'"
    and u: "heap_used_now s' = heap_used_now s - bsize s b"
    and a: "accounted s (live_map s bs fl)"
  shows "accounted s' (live_map s' bs' fl')"
proof -
  have e: "set bs' - set fl' = set bs - set fl - {b}" "\<forall>x\<in>set bs - set fl - {b}. bsize s' x = bsize s x"
    using k bf unfolding keeps_def by auto
  have "(\<Sum>x\<in>set bs' - set fl'. bsize s' x) = (\<Sum>x\<in>set bs - set fl - {b}. bsize s x)"
    unfolding e(1) by (rule sum.cong) (use e(2) in auto)
  moreover have "(\<Sum>x\<in>set bs - set fl. bsize s x) = bsize s b + (\<Sum>x\<in>set bs - set fl - {b}. bsize s x)"
    using sum.remove [OF _ b] by simp
  ultimately show ?thesis using a u by (simp add: accounted_live_map)
qed

lemma kfree_nolock_models:
  assumes m: "heap_models s L" and p: "L p = Some r"
  defines "s' \<equiv> kfree_nolock p s"
  shows "heap_models s' (L(p := None))" "hmem s' = hmem s"
    "heap_log s' = heap_log s @ (if read_bytes (p + r) 8 s = HEAP_CANARY then [] else [OverflowDetected p])"
    "heap_base s' = heap_base s" "heap_capacity s' = heap_capacity s"
    "hb_magic (hdr s' (p - HDR)) = HEAP_MAGIC_FREE"
    "accounted s L \<Longrightarrow> accounted s' (L(p := None))"
proof -
  obtain bs fl where r: "heap_rep 0 s bs fl" and na: "nadj fl bs" and L: "L = live_map s bs fl"
    using heap_modelsE [OF m] .
  define b where "b = p - HDR"
  have b: "p = b + HDR" "b \<in> set bs" "b \<notin> set fl"
    using p unfolding L live_map_Some b_def by auto
  let ?s = "free_mark p b s"
  have "fl_list ?s fl" using heap_repD(2) [OF r] b(3) by (simp add: free_mark_views)
  moreover have "heap_geo ?s bs" using heap_repD(1) [OF r] unfolding heap_geo_def free_mark_views .
  moreover have "heap_mark ?s fl x" if "x \<in> set bs" "x \<noteq> b" for x
    using heap_rep_mark [OF r that(1)] that by (simp add: heap_mark_def free_mark_views)
  ultimately have r1: "heap_rep b ?s bs fl"
    using heap_repD(3) [OF r] b(3) by (simp add: heap_rep_def)
  have s': "s' = release_block b ?s" unfolding s'_def b_def by (rule kfree_nolock_eq [OF m p])
  obtain bs' fl' where R: "heap_rep 0 s' bs' fl'" "nadj fl' bs'" "keeps b ?s bs fl s' bs' fl'"
    "b \<notin> set bs' - set fl'" "same_rest ?s s'" "bmagic s' b = HEAP_MAGIC_FREE"
    by (rule heap_rep_release [OF r1 na b(2), folded s']) (simp_all add: free_mark_views)
  have k: "keeps b s bs fl s' bs' fl'" using R(3) by (simp add: keeps_def free_mark_views)
  have "live_map s' bs' fl' p = None" using R(4) b(1) by (auto simp: live_map_def)
  then have L': "live_map s' bs' fl' = L(p := None)"
    using live_map_keeps [OF k, of None] unfolding L b(1) by (metis fun_upd_triv)
  show "heap_models s' (L(p := None))" using heap_modelsI [OF R(1,2) L' [symmetric]] .
  show "hmem s' = hmem s" "heap_base s' = heap_base s" "heap_capacity s' = heap_capacity s"
    using R(5) by (auto simp: same_rest_def free_mark_views)
  show "heap_log s' = heap_log s @ (if read_bytes (p + r) 8 s = HEAP_CANARY then [] else [OverflowDetected p])"
    using R(5) heap_range_checks(4) [OF m p] by (simp add: same_rest_def free_mark_views b_def)
  show "hb_magic (hdr s' (p - HDR)) = HEAP_MAGIC_FREE" using R(6) by (simp add: b_def)
  show "accounted s' (L(p := None))" if "accounted s L"
    using accounted_release [OF r _ k R(4)] R(5) that b(2,3)
    unfolding L [symmetric] L' by (simp add: same_rest_def free_mark_views)
qed

section \<open>Reallocation\<close>

text \<open>
  The block \<open>b\<close> of an object gets the requested size \<open>n\<close> in place: after \<open>split_block\<close> to
  \<open>sz\<close> the header is stamped and the canary moves to the new end.
\<close>

lemma stamp_rep:
  fixes caller :: addr
  assumes r: "heap_rep b s (xs @ b # ys) fl" and na: "nadj fl (xs @ b # ys)"
    and sz: "16 dvd sz" "sz \<le> bsize s b" "n + 8 \<le> sz" "0 < n"
    and mk: "\<not> bfree s b" "bmagic s b = HEAP_MAGIC_ALLOC"
    and u: "hdr u = hdr (split_block b sz s)" "free_head u = free_head (split_block b sz s)"
      "head u = head s" "heap_base u = heap_base s" "heap_capacity u = heap_capacity s"
      "hmem u = hmem s" "heap_log u = heap_log s"
  defines "s' \<equiv> krealloc_stamp b n caller u"
  obtains bs' fl' where "heap_rep 0 s' bs' fl'" "nadj fl' bs'" "b \<in> set bs' - set fl'"
    "keeps b s (xs @ b # ys) fl s' bs' fl'" "breq s' b = n" "canary_at (b + HDR + n) s s'"
    "heap_log s' = heap_log s" "heap_base s' = heap_base s" "heap_capacity s' = heap_capacity s"
proof -
  note g = heap_repD(1) [OF r]
  have bnd: "b + HDR + bsize s b < 2 ^ 64" using heap_geoD(3,4) [OF g] by fastforce
  let ?s2 = "split_block b sz s"
  obtain ys' fl' where S: "heap_rep b ?s2 (xs @ b # ys') fl'" "nadj fl' (xs @ b # ys')"
    "keeps b s (xs @ b # ys) fl ?s2 (xs @ b # ys') fl'"
    "bsize ?s2 b = (if bsize s b \<le> sz + HDR + 16 then bsize s b else sz)"
    "bfree ?s2 b = bfree s b" "bmagic ?s2 b = bmagic s b" "same_rest s ?s2"
    using heap_rep_split [OF r sz(1,2) na] by metis
  let ?s3 = "set_hdr b (\<lambda>h. h\<lparr>hb_req := n, hb_caller := caller\<rparr>) ?s2"
  have h: "hdr s' = hdr ?s3" "heap_base s' = heap_base ?s3" "heap_capacity s' = heap_capacity ?s3"
    "head s' = head ?s3" "free_head s' = free_head ?s3"
    using u S(7) by (simp_all add: s'_def krealloc_stamp_def write_bytes_def set_hdr_def same_rest_def)
  note vw = hdr_eq_views [OF h(1)]
  have bf: "b \<notin> set fl'" using heap_repD(5) [OF S(1)] .
  have m: "heap_mark ?s3 fl' b" using bf sz S(4-6) mk by (auto simp: heap_mark_def)
  have "heap_mark ?s3 fl' x" if "x \<in> set (xs @ b # ys')" "x \<noteq> b" for x
    using heap_repD(6) [OF S(1) that] that by (auto simp: heap_mark_def)
  then have "heap_rep b ?s3 (xs @ b # ys') fl'"
    using heap_repD [OF S(1)] by (simp add: heap_rep_def heap_geo_set_hdr)
  then have r': "heap_rep 0 s' (xs @ b # ys') fl'"
    using heap_rep_settle [OF _ m] heap_rep_cong [OF h] by blast
  have p: "add64 (add64 b HDR) n = b + HDR + n" using bnd sz by (simp add: add64_id)
  show ?thesis
  proof (rule that [OF r' S(2)])
    show "keeps b s (xs @ b # ys) fl s' (xs @ b # ys') fl'"
      using S(3) unfolding keeps_def by (auto simp: vw)
    show "canary_at (b + HDR + n) s s'"
      by (rule canary_at_write [OF u(6)])
         (simp add: s'_def krealloc_stamp_def p hmem_write_bytes cong: if_cong)
    show "heap_log s' = heap_log s" using u by (simp add: s'_def krealloc_stamp_def write_bytes_def)
  qed (use bf S(7) h in \<open>auto simp: vw same_rest_def\<close>)
qed

text \<open>The in-place outcome, in terms of the objects.\<close>

definition resized :: "addr \<Rightarrow> nat \<Rightarrow> addr \<Rightarrow> nat \<Rightarrow> (addr \<Rightarrow> nat option) \<Rightarrow> heap_state \<Rightarrow> heap_state \<Rightarrow> bool" where
  "resized p r q n L s s' \<longleftrightarrow>
     q \<noteq> 0 \<and> heap_models s' ((L(p := None))(q \<mapsto> n)) \<and> (q = p \<or> L q = None) \<and>
     (\<forall>i < min r n. hmem s' (q + i) = hmem s (p + i)) \<and> kept (L(p := None)) s s' \<and>
     read_bytes (q + n) 8 s' = HEAP_CANARY \<and>
     heap_base s' = heap_base s \<and> heap_capacity s' = heap_capacity s"

lemma resized_in_place:
  assumes r: "heap_rep 0 s bs fl" and p: "live_map s bs fl p = Some r"
    and r': "heap_rep 0 s' bs' fl'" "nadj fl' bs'" "p - HDR \<in> set bs' - set fl'"
    and k: "keeps (p - HDR) s bs fl s' bs' fl'" and rq: "breq s' (p - HDR) = n"
    and c: "canary_at (p + n) s s'" and e: "heap_base s' = heap_base s" "heap_capacity s' = heap_capacity s"
  shows "resized p r p n (live_map s bs fl) s s'"
proof -
  let ?L = "live_map s bs fl"
  have hp: "HDR \<le> p" using p by (simp add: live_map_Some)
  have "live_map s' bs' fl' p = Some n" using r'(3) rq hp by (simp add: live_map_def)
  then have L': "live_map s' bs' fl' = ((?L(p := None))(p \<mapsto> n))"
    using live_map_keeps [OF k, of "Some n"] hp by (metis fun_upd_triv fun_upd_upd le_add_diff_inverse2)
  have m': "heap_models s' ((?L(p := None))(p \<mapsto> n))" using heap_modelsI [OF r'(1,2) L' [symmetric]] .
  have "kept (?L(p := None)) s s'" by (rule canary_at_kept [OF c m']) simp
  moreover have "\<forall>i < min r n. hmem s' (p + i) = hmem s (p + i)" using c by (simp add: canary_at_def)
  ultimately show ?thesis
    unfolding resized_def using m' e canary_at_read [OF c] hp by (auto simp: HDR_def)
qed

lemma krealloc_shrink_resized:
  fixes caller :: addr
  assumes m: "heap_models s L" and p: "L p = Some r" and n: "0 < n" "n + 23 < 2 ^ 64"
    and le: "ALIGN16 (add64 n 8) \<le> hb_size (hdr s (p - HDR))"
  defines "s' \<equiv> krealloc_shrink (p - HDR) (ALIGN16 (add64 n 8)) n caller s"
  shows "resized p r p n L s s'" "heap_log s' = heap_log s"
proof -
  obtain bs fl where r: "heap_rep 0 s bs fl" and na: "nadj fl bs" and L: "L = live_map s bs fl"
    using heap_modelsE [OF m] .
  define b where "b = p - HDR"
  have b: "p = b + HDR" "b \<in> set bs" "b \<notin> set fl" using p unfolding L live_map_Some b_def by auto
  obtain xs ys where bs: "bs = xs @ b # ys" using split_list [OF b(2)] by blast
  have mk: "\<not> bfree s b" "bmagic s b = HEAP_MAGIC_ALLOC"
    using heap_rep_mark [OF r b(2)] b(3) by (auto simp: heap_mark_def)
  have r1: "heap_rep b s (xs @ b # ys) fl" using heap_rep_unsettle [OF r b(3)] bs by simp
  let ?sz = "ALIGN16 (add64 n 8)"
  have le': "?sz \<le> bsize s b" using le by (simp add: b_def)
  note A = ALIGN16_spec [OF n(2)]
  have sr: "same_rest s (split_block b ?sz s)"
    using heap_rep_split [OF r1 A(1) le' na [unfolded bs]] by blast
  define u where "u = (let s1 = split_block b ?sz s; a = hb_size (hdr s1 b)
      in if a < hb_size (hdr s b)
         then s1\<lparr>heap_used_now := (if sub64 (hb_size (hdr s b)) a \<le> heap_used_now s1
                  then heap_used_now s1 - sub64 (hb_size (hdr s b)) a else 0)\<rparr> else s1)"
  have s': "s' = krealloc_stamp b n caller u" by (simp add: s'_def b_def [symmetric] krealloc_shrink_def u_def Let_def)
  have uu: "hdr u = hdr (split_block b ?sz s)" "free_head u = free_head (split_block b ?sz s)"
    "head u = head s" "heap_base u = heap_base s" "heap_capacity u = heap_capacity s"
    "hmem u = hmem s" "heap_log u = heap_log s"
    using sr by (simp_all add: u_def Let_def same_rest_def)
  obtain bs' fl' where R: "heap_rep 0 s' bs' fl'" "nadj fl' bs'" "b \<in> set bs' - set fl'"
    "keeps b s bs fl s' bs' fl'" "breq s' b = n" "canary_at (b + HDR + n) s s'"
    "heap_log s' = heap_log s" "heap_base s' = heap_base s" "heap_capacity s' = heap_capacity s"
    using stamp_rep [OF r1 na [unfolded bs] A(1) le' A(2) n(1) mk uu, of caller] unfolding s' bs by metis
  show "heap_log s' = heap_log s" by (fact R(7))
  have pb: "p - HDR = b" "p + n = b + HDR + n" using b(1) by simp_all
  show "resized p r p n L s s'" unfolding L
    by (rule resized_in_place [OF r p [unfolded L] R(1,2)]) (unfold pb, use R in simp_all)
qed

lemma krealloc_scan_once:
  assumes r: "heap_rep 0 s (xs @ b # y # ys) fl" and na: "nadj fl (xs @ b # y # ys)"
    and y: "y \<in> set fl"
  shows "krealloc_scan b y sz rv acc l s =
     Some (if rv = y then b else rv, add64 acc (add64 HDR (bsize s y)), y)"
proof -
  note g = heap_repD(1) [OF r]
  have d: "0 \<notin> set (xs @ b # y # ys)" using heap_geoD [OF g] by auto
  have fy: "bfree s y" "bmagic s y = HEAP_MAGIC_FREE" using heap_rep_free [OF r] y by auto
  have nx: "bnext s y = (if ys = [] then 0 else hd ys)"
    using heap_geo_tiles(2) [OF g] by (cases ys) auto
  have "\<not> bfree s (hd ys)" if "ys \<noteq> []"
  proof -
    have "hd ys \<notin> set fl" using na y that unfolding nadj_append nadj_Cons by auto
    then show ?thesis using heap_rep_mark [OF r, of "hd ys"] that by (auto simp: heap_mark_def)
  qed
  then have stop: "krealloc_scan b (bnext s y) sz rv' acc' y s = Some (rv', acc', y)" for rv' acc'
    using nx by (subst krealloc_scan.simps) auto
  have "y \<noteq> 0" using d by auto
  then show ?thesis using fy stop by (subst krealloc_scan.simps) (simp add: Let_def)
qed

lemma krealloc_absorb_once:
  assumes r: "heap_rep 0 s (xs @ b # y # ys) fl"
  shows "krealloc_absorb y (bnext s y) s = Some (fl_remove y s)"
proof -
  have "linked (bnext s) 0 (bnext s b) (y # ys)"
    using dseg_linked heap_geo_tiles(2) [OF heap_repD(1) [OF r]] by fastforce
  then have "y \<noteq> 0" "y \<noteq> bnext s y" using linked_distinct by (cases ys; fastforce)+
  then show ?thesis by (subst krealloc_absorb.simps) (simp add: krealloc_absorb.simps)
qed

lemma heap_rep_rover [simp]: "heap_rep c (s\<lparr>alloc_rover := v\<rparr>) bs fl = heap_rep c s bs fl"
  by (rule heap_rep_cong) simp_all

lemma view_rover [simp]:
  "bnext (s\<lparr>alloc_rover := v\<rparr>) = bnext s" "bprev (s\<lparr>alloc_rover := v\<rparr>) = bprev s"
  "bsize (s\<lparr>alloc_rover := v\<rparr>) = bsize s" "fnext (s\<lparr>alloc_rover := v\<rparr>) = fnext s"
  "fprev (s\<lparr>alloc_rover := v\<rparr>) = fprev s" "bfree (s\<lparr>alloc_rover := v\<rparr>) = bfree s"
  "bmagic (s\<lparr>alloc_rover := v\<rparr>) = bmagic s" "breq (s\<lparr>alloc_rover := v\<rparr>) = breq s"
  by (rule hdr_eq_views, simp)+

lemma set_hdr_size:
  "set_hdr b (\<lambda>h. h\<lparr>hb_size := add64 (hb_size h) k, hb_next := v\<rparr>) t =
   set_hdr b (\<lambda>h. h\<lparr>hb_size := add64 (bsize t b) k, hb_next := v\<rparr>) t"
  by (simp add: set_hdr_def)

lemma krealloc_grow_eq:
  assumes r: "heap_rep 0 s (xs @ b # y # ys) fl"
  shows "krealloc_grow b sz n caller (add64 (bsize s b) (add64 HDR (bsize s y))) y s =
     (let s4 = split_block b sz (absorb_next b s);
          used = add64 (heap_used_now s4) (sub64 sz (bsize s b))
      in Some (krealloc_stamp b n caller (s4\<lparr>heap_used_now := used,
                 heap_peak := (if heap_peak s4 < used then used else heap_peak s4)\<rparr>)))"
proof -
  note g = heap_repD(1) [OF r]
  have d: "0 \<notin> set (xs @ b # y # ys)" "distinct (xs @ b # y # ys)" using heap_geoD [OF g] by auto
  have nx: "bnext s b = y" using dseg_next [OF heap_geo_tiles(2) [OF g]] by simp
  have y: "y \<noteq> 0" "y \<noteq> b" using d by auto
  let ?s2 = "set_hdr b (\<lambda>h. h\<lparr>hb_size := add64 (bsize s b) (add64 HDR (bsize s y)), hb_next := bnext s y\<rparr>)
      (fl_remove y s)"
  have ab: "(if bnext s y \<noteq> 0 then set_hdr (bnext s y) (\<lambda>h. h\<lparr>hb_prev := b\<rparr>) ?s2 else ?s2) = absorb_next b s"
    by (simp add: absorb_next_def Let_def nx set_hdr_size)
  show ?thesis
    unfolding krealloc_grow_def hdr_views nx krealloc_absorb_once [OF r] Let_def if_P [OF y(1)]
      option.case ab ..
qed

lemma krealloc_grow_resized:
  fixes caller :: addr
  assumes r: "heap_rep 0 s (xs @ b # y # ys) fl" and na: "nadj fl (xs @ b # y # ys)"
    and y: "y \<in> set fl" and bf: "b \<notin> set fl" and n: "0 < n" "n + 23 < 2 ^ 64"
    and le: "ALIGN16 (add64 n 8) \<le> add64 (bsize s b) (add64 HDR (bsize s y))"
  obtains s' where "krealloc_grow b (ALIGN16 (add64 n 8)) n caller
      (add64 (bsize s b) (add64 HDR (bsize s y))) y s = Some s'"
    "resized (b + HDR) (breq s b) (b + HDR) n (live_map s (xs @ b # y # ys) fl) s s'"
    "heap_log s' = heap_log s"
proof -
  let ?bs = "xs @ b # y # ys" and ?sz = "ALIGN16 (add64 n 8)" and ?s3 = "absorb_next b s"
  note A = ALIGN16_spec [OF n(2)]
  have d: "distinct ?bs" using heap_geoD [OF heap_repD(1) [OF r]] by auto
  have r3: "heap_rep b ?s3 (xs @ b # ys) (remove1 y fl)"
    using heap_rep_absorb [OF heap_rep_unsettle [OF r bf] y] by simp
  have f: "set (remove1 y fl) = set fl - {y}" using heap_repD(4) [OF r] by simp
  have na3: "nadj (remove1 y fl) (xs @ b # ys)"
    using na bf nadj_mono [of "remove1 y fl" xs fl] nadj_mono [of "remove1 y fl" ys fl]
    unfolding nadj_append nadj_Cons f by auto
  have sz: "bsize ?s3 = (bsize s)(b := bsize s b + (HDR + bsize s y))"
    using heap_geo_absorb(2) [OF heap_repD(1) [OF r]] .
  have "add64 (bsize s b) (add64 HDR (bsize s y)) \<le> bsize s b + (HDR + bsize s y)"
    unfolding add64_def by (metis add.left_neutral add_mono le_refl mod_less_eq_dividend order_trans)
  then have le': "?sz \<le> bsize ?s3 b" using le sz by simp
  have mk: "\<not> bfree ?s3 b" "bmagic ?s3 b = HEAP_MAGIC_ALLOC"
    using heap_rep_mark [OF r, of b] bf by (auto simp: heap_mark_def)
  have k3: "keeps b s ?bs fl ?s3 (xs @ b # ys) (remove1 y fl)"
    unfolding keeps_def f sz using d y by auto
  have sr: "same_rest ?s3 (split_block b ?sz ?s3)"
    using heap_rep_split [OF r3 A(1) le' na3] by blast
  define u where "u = (let s4 = split_block b ?sz ?s3; used = add64 (heap_used_now s4) (sub64 ?sz (bsize s b))
      in s4\<lparr>heap_used_now := used, heap_peak := (if heap_peak s4 < used then used else heap_peak s4)\<rparr>)"
  have uu: "hdr u = hdr (split_block b ?sz ?s3)" "free_head u = free_head (split_block b ?sz ?s3)"
    "head u = head ?s3" "heap_base u = heap_base ?s3" "heap_capacity u = heap_capacity ?s3"
    "hmem u = hmem ?s3" "heap_log u = heap_log ?s3"
    using sr by (simp_all add: u_def Let_def same_rest_def)
  define s' where "s' = krealloc_stamp b n caller u"
  obtain bs' fl' where R: "heap_rep 0 s' bs' fl'" "nadj fl' bs'" "b \<in> set bs' - set fl'"
    "keeps b ?s3 (xs @ b # ys) (remove1 y fl) s' bs' fl'" "breq s' b = n"
    "canary_at (b + HDR + n) ?s3 s'" "heap_log s' = heap_log ?s3" "heap_base s' = heap_base ?s3"
    "heap_capacity s' = heap_capacity ?s3"
    using stamp_rep [OF r3 na3 A(1) le' A(2) n(1) mk uu, of caller, folded s'_def] by metis
  have "canary_at (b + HDR + n) s s'" using R(6) by (simp add: canary_at_def cong: if_cong)
  then have "resized (b + HDR) (breq s b) (b + HDR) n (live_map s ?bs fl) s s'"
    by (intro resized_in_place [OF r _ R(1,2)])
       (use R(3,5,8,9) bf keeps_trans [OF k3 R(4)] in \<open>simp_all add: live_map_Some\<close>)
  moreover have "krealloc_grow b ?sz n caller (add64 (bsize s b) (add64 HDR (bsize s y))) y s = Some s'"
    unfolding krealloc_grow_eq [OF r] s'_def u_def Let_def ..
  ultimately show ?thesis using that R(7) by simp
qed

section \<open>Moving an object\<close>

lemma heap_models_caller:
  "heap_models (set_hdr b (\<lambda>h. h\<lparr>hb_caller := c\<rparr>) s) L = heap_models s L"
  unfolding heap_models_def heap_rep_def heap_geo_set_hdr heap_mark_def live_map_def fun_eq_iff
  by (simp add: heap_geo_set_hdr)

lemma kept_read:
  assumes "kept L s s'" "L q = Some r"
  shows "read_bytes (q + r) 8 s' = read_bytes (q + r) 8 s"
  using assms unfolding kept_def read_bytes_def by (intro map_cong) auto

lemma kept_trans: "kept L s s1 \<Longrightarrow> kept L s1 s2 \<Longrightarrow> kept L s s2"
  by (simp add: kept_def)

lemma kept_sub: "kept L s s' \<Longrightarrow> (\<And>q r. L' q = Some r \<Longrightarrow> L q = Some r) \<Longrightarrow> kept L' s s'"
  unfolding kept_def by blast

lemma krealloc_move_resized:
  assumes m: "heap_models s L" and p: "L p = Some r" and n: "0 < n" "n + 23 < 2 ^ 64"
  shows "krealloc_move p r n caller s = Some (s, 0) \<or>
    (\<exists>s' q. krealloc_move p r n caller s = Some (s', q) \<and> resized p r q n L s s' \<and> L q = None \<and>
       heap_log s' = heap_log s @ (if read_bytes (p + r) 8 s = HEAP_CANARY then [] else [OverflowDetected p]))"
  using kmalloc_nolock_models [OF m n, of caller]
proof (elim disjE conjE exE)
  assume "kmalloc_nolock n caller s = Some (s, 0)"
  then show ?thesis by (simp add: krealloc_move_def)
next
  fix s1 q
  assume k: "kmalloc_nolock n caller s = Some (s1, q)" "q \<noteq> 0" "L q = None"
    "heap_models s1 (L(q \<mapsto> n))" "kept L s s1" "canary_at (q + n) s s1" "heap_log s1 = heap_log s"
    "heap_base s1 = heap_base s" "heap_capacity s1 = heap_capacity s"
  define c where "c = (if r < n then r else n)"
  define s2 where "s2 = write_bytes q (read_bytes p c s1) s1"
  define s3 where "s3 = kfree_nolock p s2"
  define s' where "s' = (if heap_ptr_in_range s3 (sub64 q HDR)
                         then set_hdr (sub64 q HDR) (\<lambda>h. h\<lparr>hb_caller := caller\<rparr>) s3 else s3)"
  have res: "krealloc_move p r n caller s = Some (s', q)"
    using k(1,2) by (simp add: krealloc_move_def Let_def c_def s2_def s3_def s'_def)
  have pq: "p \<noteq> q" using p k(3) by auto
  have m2: "heap_models s2 (L(q \<mapsto> n))" unfolding s2_def
    using k(4) by (subst heap_models_cong) (simp_all add: write_bytes_def)
  have p2: "(L(q \<mapsto> n)) p = Some r" using p pq by simp
  note F = kfree_nolock_models [OF m2 p2, folded s3_def]
  have h2: "hmem s2 = (\<lambda>x. if q \<le> x \<and> x < q + c then hmem s1 (p + (x - q)) else hmem s1 x)"
    by (auto simp: s2_def hmem_write_bytes read_bytes_def fun_eq_iff)
  have k2: "kept L s1 s2" unfolding kept_def
  proof (intro allI impI)
    fix ob t a assume ob: "L ob = Some t" "ob \<le> a" "a < ob + t + 8"
    then have "ob + t + 8 \<le> q \<or> q + n \<le> ob"
      using heap_models_disjoint [OF k(4), of ob t q n] k(3) by (cases "ob = q") auto
    then show "hmem s2 a = hmem s1 a" using ob by (auto simp: h2 c_def)
  qed
  have hm: "hmem s' = hmem s2" using F(2) by (simp add: s'_def)
  have k3: "kept L s s'" using kept_trans [OF k(5) k2] by (simp add: kept_def hm)
  have "hmem s' (q + i) = hmem s (p + i)" if "i < min r n" for i
    using that k(5) p unfolding hm h2 kept_def by (auto simp: c_def)
  moreover have "read_bytes (q + n) 8 s' = HEAP_CANARY"
    using canary_at_read [OF k(6)] by (simp add: read_bytes_def hm h2 c_def)
  moreover have "heap_models s' ((L(p := None))(q \<mapsto> n))"
    using F(1) unfolding fun_upd_twist [OF pq, of L None "Some n"]
    by (simp add: s'_def heap_models_caller fun_upd_def)
  moreover have "kept (L(p := None)) s s'" by (rule kept_sub [OF k3]) (auto split: if_splits)
  ultimately have "resized p r q n L s s'"
    unfolding resized_def using k(2,3,8,9) F(4,5) by (simp add: s'_def s2_def write_bytes_def)
  moreover have "read_bytes (p + r) 8 s2 = read_bytes (p + r) 8 s"
    using kept_read [OF kept_trans [OF k(5) k2] p] .
  then have "heap_log s' = heap_log s @
      (if read_bytes (p + r) 8 s = HEAP_CANARY then [] else [OverflowDetected p])"
    using F(3) k(7) by (simp add: s'_def s2_def write_bytes_def)
  ultimately show ?thesis using res k(3) by blast
qed

definition realloc_ok :: "addr \<Rightarrow> nat \<Rightarrow> addr \<Rightarrow> nat \<Rightarrow> (addr \<Rightarrow> nat option) \<Rightarrow> heap_state \<Rightarrow> heap_state \<Rightarrow> bool" where
  "realloc_ok p r q n L s s' \<longleftrightarrow>
     (q = 0 \<and> heap_models s' L \<and> hmem s' = hmem s \<and> heap_log s' = heap_log s) \<or>
     (resized p r q n L s s' \<and> (read_bytes (p + r) 8 s = HEAP_CANARY \<longrightarrow> heap_log s' = heap_log s))"

lemma realloc_ok_rover [simp]:
  "realloc_ok p r q n L (s\<lparr>alloc_rover := v\<rparr>) s' = realloc_ok p r q n L s s'"
  by (simp add: realloc_ok_def resized_def kept_def read_bytes_def)

lemma heap_models_rover [simp]: "heap_models (s\<lparr>alloc_rover := v\<rparr>) L = heap_models s L"
  by (rule heap_models_cong) simp_all

lemma krealloc_move_ok:
  assumes "heap_models s L" "L p = Some r" "0 < n" "n + 23 < 2 ^ 64"
  shows "\<exists>s' q. krealloc_move p r n caller (s\<lparr>alloc_rover := v\<rparr>) = Some (s', q) \<and> realloc_ok p r q n L s s'"
proof -
  have m: "heap_models (s\<lparr>alloc_rover := v\<rparr>) L" using assms(1) by simp
  show ?thesis
    using krealloc_move_resized [OF m assms(2-4), of caller]
  proof (elim disjE exE conjE)
    assume "krealloc_move p r n caller (s\<lparr>alloc_rover := v\<rparr>) = Some (s\<lparr>alloc_rover := v\<rparr>, 0)"
    then show ?thesis using assms(1) by (auto simp: realloc_ok_def)
  next
    fix s' q
    assume a: "krealloc_move p r n caller (s\<lparr>alloc_rover := v\<rparr>) = Some (s', q)"
      "resized p r q n L (s\<lparr>alloc_rover := v\<rparr>) s'"
      "heap_log s' = heap_log (s\<lparr>alloc_rover := v\<rparr>) @
        (if read_bytes (p + r) 8 (s\<lparr>alloc_rover := v\<rparr>) = HEAP_CANARY then [] else [OverflowDetected p])"
    then have "realloc_ok p r q n L (s\<lparr>alloc_rover := v\<rparr>) s'" unfolding realloc_ok_def by auto
    then show ?thesis using a(1) by auto
  qed
qed

lemma krealloc_nolock_eq:
  assumes m: "heap_models s L" and p: "L p = Some r" and n: "0 < n"
  defines "b \<equiv> p - HDR" and "sz \<equiv> ALIGN16 (add64 n 8)"
  shows "krealloc_nolock p n caller s =
     (if sz \<le> bsize s b then Some (krealloc_shrink b sz n caller s, p)
      else if bnext s b \<noteq> 0 \<and> bfree s (bnext s b)
      then case krealloc_scan b (bnext s b) sz (alloc_rover s) (bsize s b) 0 s of
             None \<Rightarrow> None
           | Some (rover, acc, l) \<Rightarrow>
               if sz \<le> acc
               then map_option (\<lambda>s'. (s', p)) (krealloc_grow b sz n caller acc l (s\<lparr>alloc_rover := rover\<rparr>))
               else krealloc_move p r n caller (s\<lparr>alloc_rover := rover\<rparr>)
      else krealloc_move p r n caller s)"
proof -
  have pb: "sub64 p HDR = b" "p \<noteq> 0" "heap_ptr_in_range s p" "heap_ptr_in_range s b"
    "bmagic s b = HEAP_MAGIC_ALLOC" "\<not> bfree s b" "breq s b = r"
    using heap_range_checks [OF m p] heap_models_bounds [OF m p] by (auto simp: b_def)
  show ?thesis
    unfolding krealloc_nolock_def Let_def pb(1,7) hdr_views sz_def using pb(2-6) n
    by (simp cong: if_cong option.case_cong)
qed

lemma krealloc_nolock_models:
  assumes m: "heap_models s L" and p: "L p = Some r" and n: "0 < n" "n + 23 < 2 ^ 64"
  shows "\<exists>s' q. krealloc_nolock p n caller s = Some (s', q) \<and> realloc_ok p r q n L s s'"
proof -
  obtain bs fl where r: "heap_rep 0 s bs fl" and na: "nadj fl bs" and L: "L = live_map s bs fl"
    using heap_modelsE [OF m] .
  define b where "b = p - HDR"
  have b: "b + HDR = p" "b \<in> set bs" "b \<notin> set fl" "breq s b = r"
    using p unfolding L live_map_Some b_def by auto
  obtain xs ys where bs: "bs = xs @ b # ys" using split_list [OF b(2)] by blast
  have nx: "bnext s b = (if ys = [] then 0 else hd ys)"
    using dseg_next [OF heap_geo_tiles(2) [OF heap_repD(1) [OF r [unfolded bs]]]] .
  let ?sz = "ALIGN16 (add64 n 8)"
  note eq = krealloc_nolock_eq [OF m p n(1), folded b_def]
  have mv: "s\<lparr>alloc_rover := alloc_rover s\<rparr> = s" by simp
  consider "?sz \<le> bsize s b" | "\<not> ?sz \<le> bsize s b" "\<not> (bnext s b \<noteq> 0 \<and> bfree s (bnext s b))"
    | y zs where "\<not> ?sz \<le> bsize s b" "ys = y # zs" "bnext s b = y" "y \<noteq> 0" "bfree s y"
    using nx by (cases ys) auto
  then show ?thesis
  proof cases
    case 1
    then show ?thesis
      using eq krealloc_shrink_resized [OF m p n] by (auto simp: realloc_ok_def b_def)
  next
    case 2
    show ?thesis unfolding eq if_not_P [OF 2(1)] if_not_P [OF 2(2)]
      using krealloc_move_ok [OF m p n, of caller "alloc_rover s"] unfolding mv .
  next
    case (3 y zs)
    note ry = r [unfolded bs 3(2)] and nay = na [unfolded bs 3(2)]
    have y: "y \<in> set fl" using heap_rep_mark [OF ry, of y] 3 by (auto simp: heap_mark_def split: if_splits)
    let ?acc = "add64 (bsize s b) (add64 HDR (bsize s y))"
    define v where "v = (if alloc_rover s = y then b else alloc_rover s)"
    let ?s = "s\<lparr>alloc_rover := v\<rparr>"
    have e: "krealloc_nolock p n caller s = (if ?sz \<le> ?acc
        then map_option (\<lambda>s'. (s', p)) (krealloc_grow b ?sz n caller ?acc y ?s)
        else krealloc_move p r n caller ?s)"
      using eq 3 krealloc_scan_once [OF ry nay y] by (simp add: v_def)
    show ?thesis
    proof (cases "?sz \<le> ?acc")
      case True
      have ry': "heap_rep 0 ?s (xs @ b # y # zs) fl" using ry by simp
      have Lv: "live_map ?s (xs @ b # y # zs) fl = L"
        unfolding L bs 3(2) by (simp add: live_map_def fun_eq_iff)
      obtain s' where "krealloc_grow b ?sz n caller ?acc y ?s = Some s'"
        "resized p r p n L ?s s'" "heap_log s' = heap_log ?s"
        using krealloc_grow_resized [OF ry' nay y b(3) n, of caller, unfolded view_rover Lv b(1,4), OF True]
        by blast
      then have "realloc_ok p r p n L ?s s'" "krealloc_nolock p n caller s = Some (s', p)"
        using e True by (auto simp: realloc_ok_def)
      then show ?thesis by auto
    next
      case False
      then show ?thesis using e krealloc_move_ok [OF m p n, of caller v] by simp
    qed
  qed
qed

end
