(* ===== verification/Heap_Thms.thy ===== *)
theory Heap_Thms
  imports Heap_Spec
begin

text \<open>
  The contract of the heap as its clients see it, as a locale (\<open>object_heap\<close>) interpreted on
  \<open>kmalloc\<close> and \<open>kfree\<close>, the heap under an arbitrary client as a step relation, and the properties
  of \<open>mem/heap.c\<close>.
\<close>

section \<open>The contract\<close>

locale object_heap =
  fixes models :: "'s \<Rightarrow> (addr \<Rightarrow> nat option) \<Rightarrow> bool"
    and peek :: "'s \<Rightarrow> addr \<Rightarrow> byte"
    and alloc :: "nat \<Rightarrow> 's \<Rightarrow> ('s \<times> addr) option"
    and release :: "addr \<Rightarrow> 's \<Rightarrow> 's"
    and fits :: "nat \<Rightarrow> bool"
  assumes apart: "models s L \<Longrightarrow> L p = Some r \<Longrightarrow> L q = Some t \<Longrightarrow> p \<noteq> q \<Longrightarrow> p + r \<le> q \<or> q + t \<le> p"
    and alloc_law: "models s L \<Longrightarrow> fits n \<Longrightarrow> \<exists>s' p. alloc n s = Some (s', p) \<and>
          (if p = 0 then models s' L else L p = None \<and> models s' (L(p \<mapsto> n))) \<and>
          (\<forall>q t a. L q = Some t \<longrightarrow> q \<le> a \<longrightarrow> a < q + t \<longrightarrow> peek s' a = peek s a)"
    and release_law: "models s L \<Longrightarrow> L p = Some r \<Longrightarrow>
          models (release p s) (L(p := None)) \<and>
          (\<forall>q t a. L q = Some t \<longrightarrow> q \<noteq> p \<longrightarrow> q \<le> a \<longrightarrow> a < q + t \<longrightarrow> peek (release p s) a = peek s a)"
begin

definition holds :: "'s \<Rightarrow> (addr \<Rightarrow> nat option) \<Rightarrow> addr \<Rightarrow> byte list \<Rightarrow> bool" where
  "holds s L p bs \<longleftrightarrow> L p = Some (length bs) \<and> (\<forall>i < length bs. peek s (p + i) = bs ! i)"

lemma alloc_fresh:
  assumes "models s L" "fits n" "alloc n s = Some (s', p)" "p \<noteq> 0" "L q = Some t"
  shows "p + n \<le> q \<or> q + t \<le> p"
proof -
  have "L p = None" "models s' (L(p \<mapsto> n))" using alloc_law [OF assms(1,2)] assms(3,4) by auto
  moreover have "p \<noteq> q" using calculation(1) assms(5) by auto
  ultimately show ?thesis using apart [of s' "L(p \<mapsto> n)" p n q t] assms(5) by auto
qed

lemma alloc_holds:
  assumes "models s L" "fits n" "alloc n s = Some (s', p)" "holds s L q bs"
  shows "\<exists>L'. models s' L' \<and> holds s' L' q bs \<and> (p \<noteq> 0 \<longrightarrow> L' p = Some n)"
proof (cases "p = 0")
  case True
  then show ?thesis using alloc_law [OF assms(1,2)] assms(3,4)
    by (intro exI [of _ L]) (auto simp: holds_def)
next
  case False
  then show ?thesis using alloc_law [OF assms(1,2)] assms(3,4)
    by (intro exI [of _ "L(p \<mapsto> n)"]) (auto simp: holds_def)
qed

lemma release_holds:
  assumes "models s L" "L p = Some r" "holds s L q bs" "q \<noteq> p"
  shows "holds (release p s) (L(p := None)) q bs"
  using release_law [OF assms(1,2)] assms(3,4) by (auto simp: holds_def)

text \<open>Allocating and releasing again gives the same set of objects back.\<close>

lemma alloc_release:
  assumes "models s L" "fits n" "alloc n s = Some (s', p)" "p \<noteq> 0"
  shows "models (release p s') L"
proof -
  have "L p = None" "models s' (L(p \<mapsto> n))" using alloc_law [OF assms(1,2)] assms(3,4) by auto
  then show ?thesis using release_law [of s' "L(p \<mapsto> n)" p n] fun_upd_idem [of L p None] by simp
qed

end

lemma kept_bytes:
  "kept L s s' \<Longrightarrow> L q = Some t \<Longrightarrow> q \<le> a \<Longrightarrow> a < q + t \<Longrightarrow> hmem s' a = hmem s a"
  unfolding kept_def by (metis trans_less_add1)

lemma heap_models_say [simp]: "heap_models (heap_say m s) L = heap_models s L"
  by (rule heap_models_cong) (simp_all add: heap_say_def)

lemma hmem_say [simp]: "hmem (heap_say m s) = hmem s" "heap_log (heap_say m s) = heap_log s @ [m]"
  by (simp_all add: heap_say_def)

lemma kmalloc_models:
  assumes m: "heap_models s L" and n: "0 < n" "n + 23 < 2 ^ 64"
  shows "(\<not> heap_fits (ALIGN16 (add64 n 8)) s \<and> kmalloc n caller s = Some (heap_say (OutOfMemory n) s, 0)) \<or>
    (heap_fits (ALIGN16 (add64 n 8)) s \<and>
     (\<exists>s' p. kmalloc n caller s = Some (s', p) \<and> p \<noteq> 0 \<and> L p = None \<and>
       heap_models s' (L(p \<mapsto> n)) \<and> kept L s s' \<and> canary_at (p + n) s s' \<and> heap_log s' = heap_log s \<and>
       heap_base s' = heap_base s \<and> heap_capacity s' = heap_capacity s \<and>
       (accounted s L \<longrightarrow> accounted s' (L(p \<mapsto> n)))))"
  using kmalloc_nolock_models [OF m n, of caller]
proof (elim disjE conjE exE)
  assume "\<not> heap_fits (ALIGN16 (add64 n 8)) s" "kmalloc_nolock n caller s = Some (s, 0)"
  then show ?thesis using n(1) by (simp add: kmalloc_def)
next
  fix s' p
  assume a: "kmalloc_nolock n caller s = Some (s', p)" "p \<noteq> 0"
  then have "kmalloc n caller s = Some (s', p)" by (simp add: kmalloc_def)
  moreover assume "heap_fits (ALIGN16 (add64 n 8)) s" "L p = None"
    "heap_models s' (L(p \<mapsto> n))" "kept L s s'" "canary_at (p + n) s s'" "heap_log s' = heap_log s"
    "heap_base s' = heap_base s" "heap_capacity s' = heap_capacity s"
    "accounted s L \<longrightarrow> accounted s' (L(p \<mapsto> n))"
  ultimately show ?thesis using a(2) by (intro disjI2 conjI exI [of _ s'] exI [of _ p])
qed

interpretation kheap: object_heap heap_models hmem "\<lambda>n. kmalloc n caller" kfree
    "\<lambda>n. 0 < n \<and> n + 23 < 2 ^ 64" for caller
proof
  fix s L p r q t
  assume "heap_models s L" "L p = Some r" "L q = Some t" "p \<noteq> q"
  from heap_models_disjoint [OF this] show "p + r \<le> q \<or> q + t \<le> p" by auto
next
  fix s L and n :: nat assume m: "heap_models s L" and n: "0 < n \<and> n + 23 < 2 ^ 64"
  show "\<exists>s' p. kmalloc n caller s = Some (s', p) \<and>
          (if p = 0 then heap_models s' L else L p = None \<and> heap_models s' (L(p \<mapsto> n))) \<and>
          (\<forall>q t a. L q = Some t \<longrightarrow> q \<le> a \<longrightarrow> a < q + t \<longrightarrow> hmem s' a = hmem s a)"
    using kmalloc_models [OF m conjunct1 [OF n] conjunct2 [OF n], of caller]
  proof (elim disjE conjE exE)
    fix s' p
    assume "kmalloc n caller s = Some (s', p)" "p \<noteq> 0" "L p = None" "heap_models s' (L(p \<mapsto> n))" "kept L s s'"
    then show ?thesis using kept_bytes by (intro exI [of _ s'] exI [of _ p]) simp
  qed (use m in auto)
next
  fix s L p r assume m: "heap_models s L" "L p = Some r"
  show "heap_models (kfree p s) (L(p := None)) \<and>
     (\<forall>q t a. L q = Some t \<longrightarrow> q \<noteq> p \<longrightarrow> q \<le> a \<longrightarrow> a < q + t \<longrightarrow> hmem (kfree p s) a = hmem s a)"
    using kfree_nolock_models [OF m] by (simp add: kfree_def)
qed

section \<open>Initialisation\<close>

lemma heap_init_models:
  assumes "start \<noteq> 0" "16 dvd start" "16 dvd cap" "HDR \<le> cap" "start + cap < 2 ^ 64"
  shows "heap_models (heap_init kend start cap s) Map.empty"
    "accounted (heap_init kend start cap s) Map.empty"
    "heap_base (heap_init kend start cap s) = start"
    "heap_capacity (heap_init kend start cap s) = cap"
    "heap_log (heap_init kend start cap s) = heap_log s"
proof -
  let ?s = "heap_init kend start cap s"
  have c: "cap \<noteq> 0" using assms(4) by (auto simp: HDR_def)
  have h: "hdr ?s = (hdr s)(start := (hdr s start)\<lparr>hb_size := cap - HDR, hb_next := 0, hb_prev := 0,
                 hb_free := True, hb_magic := HEAP_MAGIC_FREE, hb_req := 0, hb_caller := 0,
                 hb_free_next := 0, hb_free_prev := 0\<rparr>)"
    using assms c by (simp add: heap_init_def Let_def set_hdr_def sub64_id)
  have f: "heap_base ?s = start" "heap_capacity ?s = cap" "head ?s = start" "free_head ?s = start"
    "heap_used_now ?s = 0" "heap_log ?s = heap_log s"
    using assms c by (simp_all add: heap_init_def Let_def)
  have "16 dvd cap - HDR" using assms(3) by (intro dvd_diff_nat) (simp_all add: HDR_def)
  then have "heap_rep 0 ?s [start] [start]" using assms c
    by (simp add: heap_rep_def heap_geo_def heap_mark_def f view_defs h del: hdr_views)
  moreover have "Map.empty = live_map ?s [start] [start]" by (simp add: live_map_def fun_eq_iff)
  ultimately show "heap_models ?s Map.empty"
    by (intro heap_modelsI [of ?s "[start]" "[start]"]) (simp_all add: nadj_def)
  show "accounted ?s Map.empty" by (simp add: accounted_def f)
  show "heap_base ?s = start" "heap_capacity ?s = cap" "heap_log ?s = heap_log s" by (fact f)+
qed

section \<open>The heap under an arbitrary client\<close>

text \<open>
  \<open>heap_step\<close>: a client that allocates, reallocates, frees only pointers it holds, and writes only
  inside the objects it holds. The second component records what it holds.
\<close>

inductive heap_step ::
    "heap_state \<times> (addr \<Rightarrow> nat option) \<Rightarrow> heap_state \<times> (addr \<Rightarrow> nat option) \<Rightarrow> bool" where
  Alloc: "0 < n \<Longrightarrow> n + 23 < 2 ^ 64 \<Longrightarrow> kmalloc n caller s = Some (s', p) \<Longrightarrow>
    heap_step (s, L) (s', if p = 0 then L else L(p \<mapsto> n))"
| Free: "L p = Some r \<Longrightarrow> heap_step (s, L) (kfree p s, L(p := None))"
| Realloc: "L p = Some r \<Longrightarrow> 0 < n \<Longrightarrow> n + 23 < 2 ^ 64 \<Longrightarrow> krealloc p n caller s = Some (s', q) \<Longrightarrow>
    heap_step (s, L) (s', if q = 0 then L else (L(p := None))(q \<mapsto> n))"
| Write: "L p = Some r \<Longrightarrow> i < r \<Longrightarrow> heap_step (s, L) (s\<lparr>hmem := (hmem s)(p + i := v)\<rparr>, L)"

inductive heap_reachable :: "heap_state \<Rightarrow> (addr \<Rightarrow> nat option) \<Rightarrow> bool" where
  Init: "start \<noteq> 0 \<Longrightarrow> 16 dvd start \<Longrightarrow> 16 dvd cap \<Longrightarrow> HDR \<le> cap \<Longrightarrow> start + cap < 2 ^ 64 \<Longrightarrow>
    heap_log s = [] \<Longrightarrow> heap_reachable (heap_init kend start cap s) Map.empty"
| Step: "heap_reachable s L \<Longrightarrow> heap_step (s, L) (s', L') \<Longrightarrow> heap_reachable s' L'"

definition heap_msg_benign :: "heap_msg \<Rightarrow> bool" where
  "heap_msg_benign m = (case m of OutOfMemory _ \<Rightarrow> True | ReallocFailed _ _ \<Rightarrow> True | _ \<Rightarrow> False)"

definition heap_sys_inv :: "heap_state \<Rightarrow> (addr \<Rightarrow> nat option) \<Rightarrow> bool" where
  "heap_sys_inv s L \<longleftrightarrow> heap_models s L \<and> guarded s L \<and> (\<forall>m\<in>set (heap_log s). heap_msg_benign m)"

lemma kept_guarded: "guarded s L \<Longrightarrow> kept L s s' \<Longrightarrow> guarded s' L"
  using kept_read unfolding guarded_def by metis

lemma guarded_upd:
  "guarded s L \<Longrightarrow> read_bytes (q + n) 8 s = HEAP_CANARY \<Longrightarrow> guarded s (L(q \<mapsto> n))"
  by (auto simp: guarded_def)

lemma guarded_sub: "guarded s L \<Longrightarrow> guarded s (L(p := None))"
  by (auto simp: guarded_def split: if_splits)

lemma read_bytes_cong: "hmem s' = hmem s \<Longrightarrow> read_bytes a n s' = read_bytes a n s"
  by (simp add: read_bytes_def)

lemma guarded_cong: "hmem s' = hmem s \<Longrightarrow> guarded s' L = guarded s L"
  by (simp add: guarded_def read_bytes_def)

lemma heap_inv_alloc:
  assumes i: "heap_sys_inv s L" and n: "0 < n" "n + 23 < 2 ^ 64" and k: "kmalloc n caller s = Some (s', p)"
  shows "heap_sys_inv s' (if p = 0 then L else L(p \<mapsto> n))"
proof -
  have m: "heap_models s L" and g: "guarded s L" and l: "\<forall>m\<in>set (heap_log s). heap_msg_benign m"
    using i by (auto simp: heap_sys_inv_def)
  show ?thesis using kmalloc_models [OF m n, of caller]
  proof (elim disjE conjE exE)
    assume "kmalloc n caller s = Some (heap_say (OutOfMemory n) s, 0)"
    then have "s' = heap_say (OutOfMemory n) s" "p = 0" using k by auto
    then show ?thesis using m g l guarded_cong [of "heap_say (OutOfMemory n) s" s L]
      by (auto simp: heap_sys_inv_def heap_msg_benign_def)
  next
    fix s1 q
    assume a: "kmalloc n caller s = Some (s1, q)" "q \<noteq> 0" "heap_models s1 (L(q \<mapsto> n))"
      "kept L s s1" "canary_at (q + n) s s1" "heap_log s1 = heap_log s"
    then have "s' = s1" "p = q" using k by auto
    then show ?thesis using a l guarded_upd [OF kept_guarded [OF g a(4)] canary_at_read [OF a(5)]]
      by (simp add: heap_sys_inv_def)
  qed
qed

lemma heap_inv_free:
  assumes i: "heap_sys_inv s L" and p: "L p = Some r"
  shows "heap_sys_inv (kfree p s) (L(p := None))"
proof -
  have m: "heap_models s L" and g: "guarded s L" and l: "\<forall>m\<in>set (heap_log s). heap_msg_benign m"
    using i by (auto simp: heap_sys_inv_def)
  note F = kfree_nolock_models [OF m p]
  have "read_bytes (p + r) 8 s = HEAP_CANARY" using g p by (simp add: guarded_def)
  then show ?thesis using F(1-3) l guarded_sub [OF g] guarded_cong [OF F(2)]
    by (simp add: heap_sys_inv_def kfree_def)
qed

lemma heap_inv_realloc:
  assumes i: "heap_sys_inv s L" and p: "L p = Some r" and n: "0 < n" "n + 23 < 2 ^ 64"
    and k: "krealloc p n caller s = Some (s', q)"
  shows "heap_sys_inv s' (if q = 0 then L else (L(p := None))(q \<mapsto> n))"
proof -
  have m: "heap_models s L" and g: "guarded s L" and l: "\<forall>m\<in>set (heap_log s). heap_msg_benign m"
    using i by (auto simp: heap_sys_inv_def)
  have c: "read_bytes (p + r) 8 s = HEAP_CANARY" using g p by (simp add: guarded_def)
  have p0: "p \<noteq> 0" using heap_models_bounds [OF m p] by auto
  obtain s1 q1 where R: "krealloc_nolock p n caller s = Some (s1, q1)" "realloc_ok p r q1 n L s s1"
    using krealloc_nolock_models [OF m p n] by blast
  have q: "q = q1" "s' = (if q = 0 then heap_say (ReallocFailed p n) s1 else s1)"
    using k R(1) p0 n(1) by (auto simp: krealloc_def)
  show ?thesis
  proof (cases "q = 0")
    case True
    then have a: "heap_models s1 L" "hmem s1 = hmem s" "heap_log s1 = heap_log s"
      using R(2) q by (auto simp: realloc_ok_def resized_def)
    then show ?thesis using True q g l guarded_cong [of s' s L]
      by (auto simp: heap_sys_inv_def heap_msg_benign_def)
  next
    case False
    then have z: "resized p r q n L s s'" "heap_log s' = heap_log s"
      using R(2) q c by (auto simp: realloc_ok_def)
    have "guarded s' (L(p := None))"
      using kept_guarded [OF guarded_sub [OF g]] z(1) by (simp add: resized_def)
    then have "guarded s' ((L(p := None))(q \<mapsto> n))" using guarded_upd z(1) by (simp add: resized_def)
    then show ?thesis using z l False by (simp add: heap_sys_inv_def resized_def)
  qed
qed

lemma heap_inv_write:
  assumes i: "heap_sys_inv s L" and p: "L p = Some r" "j < r"
  shows "heap_sys_inv (s\<lparr>hmem := (hmem s)(p + j := v)\<rparr>) L"
proof -
  let ?s = "s\<lparr>hmem := (hmem s)(p + j := v)\<rparr>"
  have m: "heap_models s L" and g: "guarded s L" using i by (auto simp: heap_sys_inv_def)
  have "read_bytes (q + t) 8 ?s = read_bytes (q + t) 8 s" if "L q = Some t" for q t
  proof -
    have "p + j < q + t \<or> q + t + 8 \<le> p + j"
      using heap_models_disjoint [OF m p(1) that] p that by (cases "p = q") auto
    then show ?thesis by (auto simp: read_bytes_def)
  qed
  then have "guarded ?s L" using g by (simp add: guarded_def)
  moreover have "heap_models ?s L" using m by (subst heap_models_cong) simp_all
  ultimately show ?thesis using i by (simp add: heap_sys_inv_def)
qed

lemma heap_reachable_inv: "heap_reachable s L \<Longrightarrow> heap_sys_inv s L"
proof (induction rule: heap_reachable.induct)
  case (Init start cap s kend)
  then show ?case using heap_init_models [of start cap kend s]
    by (simp add: heap_sys_inv_def guarded_def)
next
  case (Step s L s' L')
  from Step.hyps(2) show ?case
  proof cases
    case (Alloc n caller p)
    show ?thesis unfolding Alloc(1) by (rule heap_inv_alloc [OF Step.IH Alloc(2-4)])
  next
    case (Free p r)
    show ?thesis unfolding Free(1,2) by (rule heap_inv_free [OF Step.IH Free(3)])
  next
    case (Realloc p r n caller q)
    show ?thesis unfolding Realloc(1) by (rule heap_inv_realloc [OF Step.IH Realloc(2-5)])
  next
    case (Write p r i v)
    show ?thesis unfolding Write(1,2) by (rule heap_inv_write [OF Step.IH Write(3,4)])
  qed
qed

section \<open>Statistics\<close>

lemma heap_total_loop_sum:
  assumes "linked (fnext s) 0 cur vs" "\<forall>v\<in>set vs. bfree s v" "acc + (\<Sum>v\<leftarrow>vs. bsize s v) < 2 ^ 64"
  shows "heap_total_loop cur acc s = Some (acc + (\<Sum>v\<leftarrow>vs. bsize s v))"
  using assms
proof (induction vs arbitrary: cur acc)
  case Nil
  then show ?case by (subst heap_total_loop.simps) simp
next
  case (Cons v vs)
  have "add64 acc (bsize s v) = acc + bsize s v" using Cons.prems(3) by (simp add: add64_id)
  then show ?case using Cons.prems Cons.IH [of "fnext s v" "acc + bsize s v"]
    by (subst heap_total_loop.simps) (simp add: add.assoc)
qed

lemma nadj_count:
  "nadj fl bs \<Longrightarrow> length (filter (\<lambda>b. b \<in> set fl) bs) \<le>
     length (filter (\<lambda>b. b \<notin> set fl) bs) + (if bs \<noteq> [] \<and> hd bs \<in> set fl then 1 else 0)"
proof (induction bs)
  case (Cons b bs)
  then have "nadj fl bs" "bs = [] \<or> b \<notin> set fl \<or> hd bs \<notin> set fl" by (auto simp: nadj_Cons)
  then show ?case using Cons.IH by (auto split: if_splits)
qed simp

lemma card_dom_live:
  assumes "heap_rep 0 s bs fl"
  shows "card (dom (live_map s bs fl)) = length (filter (\<lambda>b. b \<notin> set fl) bs)"
proof -
  have "dom (live_map s bs fl) = {p. HDR \<le> p \<and> p - HDR \<in> set bs - set fl}"
    by (auto simp: live_map_def split: if_splits)
  also have "\<dots> = (\<lambda>b. b + HDR) ` (set bs - set fl)" by (rule shift_image)
  finally have "card (dom (live_map s bs fl)) = card (set bs - set fl)"
    by (simp add: card_image inj_on_def)
  also have "set bs - set fl = set (filter (\<lambda>b. b \<notin> set fl) bs)" by auto
  also have "card \<dots> = length (filter (\<lambda>b. b \<notin> set fl) bs)"
    using heap_geoD(1) [OF heap_repD(1) [OF assms]] by (intro distinct_card distinct_filter)
  finally show ?thesis .
qed

lemma free_blocks_filter:
  assumes "heap_rep 0 s bs fl"
  shows "set fl = set (filter (\<lambda>b. b \<in> set fl) bs)" "length fl = length (filter (\<lambda>b. b \<in> set fl) bs)"
    "(\<Sum>v\<leftarrow>fl. f v) = (\<Sum>v\<in>set fl. f v)"
proof -
  show s: "set fl = set (filter (\<lambda>b. b \<in> set fl) bs)" using heap_repD(3) [OF assms] by auto
  have d: "distinct fl" "distinct (filter (\<lambda>b. b \<in> set fl) bs)"
    using heap_repD(4) [OF assms] heap_geoD(1) [OF heap_repD(1) [OF assms]] by auto
  show "length fl = length (filter (\<lambda>b. b \<in> set fl) bs)"
    using s distinct_card [OF d(1)] distinct_card [OF d(2)] by metis
  show "(\<Sum>v\<leftarrow>fl. f v) = (\<Sum>v\<in>set fl. f v)" using d(1) by (simp add: sum_list_distinct_conv_sum_set)
qed

lemma heap_space_split:
  assumes r: "heap_rep 0 s bs fl"
  shows "(\<Sum>b\<in>set fl. bsize s b) + (\<Sum>b\<in>set bs - set fl. bsize s b) + HDR * length bs = heap_capacity s"
proof -
  note g = heap_repD(1) [OF r]
  have "(\<Sum>b\<leftarrow>bs. HDR + bsize s b) = heap_capacity s"
    using tiles_total [OF heap_geo_tiles(1) [OF g]] by simp
  moreover have "(\<Sum>b\<leftarrow>bs. HDR + bsize s b) = HDR * length bs + (\<Sum>b\<in>set bs. bsize s b)"
    using heap_geoD(1) [OF g]
    by (simp add: sum_list_addf sum_list_triv sum_list_distinct_conv_sum_set mult.commute)
  moreover have "(\<Sum>b\<in>set bs. bsize s b) = (\<Sum>b\<in>set bs - set fl. bsize s b) + (\<Sum>b\<in>set fl. bsize s b)"
    using heap_repD(3) [OF r] by (intro sum.subset_diff) auto
  ultimately show ?thesis by simp
qed

lemma heap_free_bytes_rep:
  assumes r: "heap_rep 0 s bs fl"
  shows "heap_free_bytes s = Some (\<Sum>b\<in>set fl. bsize s b)"
proof -
  have lt: "(\<Sum>v\<leftarrow>fl. bsize s v) < 2 ^ 64"
    using heap_space_split [OF r] free_blocks_filter(3) [OF r, of "bsize s"]
      heap_geoD(4) [OF heap_repD(1) [OF r]] by linarith
  show ?thesis
    using heap_total_loop_sum [OF dseg_linked [OF heap_repD(2) [OF r]], of 0] heap_rep_free [OF r] lt
      free_blocks_filter(3) [OF r, of "bsize s"]
    by (simp add: heap_free_bytes_def heap_total_free_bytes_def)
qed

text \<open>The client of \<open>heap_step\<close> restricted to \<open>kmalloc\<close> and \<open>kfree\<close>.\<close>

inductive heap_af_reachable :: "heap_state \<Rightarrow> (addr \<Rightarrow> nat option) \<Rightarrow> bool" where
  AfInit: "start \<noteq> 0 \<Longrightarrow> 16 dvd start \<Longrightarrow> 16 dvd cap \<Longrightarrow> HDR \<le> cap \<Longrightarrow> start + cap < 2 ^ 64 \<Longrightarrow>
    heap_af_reachable (heap_init kend start cap s) Map.empty"
| AfAlloc: "heap_af_reachable s L \<Longrightarrow> 0 < n \<Longrightarrow> n + 23 < 2 ^ 64 \<Longrightarrow> kmalloc n caller s = Some (s', p) \<Longrightarrow>
    heap_af_reachable s' (if p = 0 then L else L(p \<mapsto> n))"
| AfFree: "heap_af_reachable s L \<Longrightarrow> L p = Some r \<Longrightarrow> heap_af_reachable (kfree p s) (L(p := None))"

lemma accounted_say: "accounted (heap_say m s) L = accounted s L"
  by (simp add: accounted_def heap_say_def)

lemma heap_af_inv: "heap_af_reachable s L \<Longrightarrow> heap_models s L \<and> accounted s L"
proof (induction rule: heap_af_reachable.induct)
  case (AfInit start cap kend s)
  then show ?case using heap_init_models(1,2) by blast
next
  case (AfAlloc s L n caller s' p)
  then have m: "heap_models s L" "accounted s L" by auto
  show ?case using kmalloc_models [OF m(1) AfAlloc.hyps(2,3), of caller] AfAlloc.hyps(4) m
    by (elim disjE conjE exE) (auto simp: accounted_say fun_upd_def)
next
  case (AfFree s L p r)
  then show ?case using kfree_nolock_models(1,7) unfolding kfree_def by blast
qed

section \<open>The examples as instances\<close>

definition demo_obj :: "heap_state \<times> addr" where
  "demo_obj = the (kmalloc 100 7 demo_heap)"

lemma demo_heap_models: "heap_models demo_heap Map.empty"
  unfolding demo_heap_def by (rule heap_init_models) (simp_all add: HDR_def)

lemma demo_heap_reachable: "heap_reachable demo_heap Map.empty" "heap_af_reachable demo_heap Map.empty"
  unfolding demo_heap_def by (auto intro!: Init AfInit simp: HDR_def demo_heap0_def)

lemma demo_obj_eval: "kmalloc 100 7 demo_heap = Some (fst demo_obj, 4160)"
  using demo_kmalloc unfolding demo_obj_def by (cases "kmalloc 100 7 demo_heap") auto

lemma demo_obj_models: "heap_models (fst demo_obj) [4160 \<mapsto> 100]"
  using kmalloc_models [OF demo_heap_models, of 100 7] demo_obj_eval by auto

lemma demo_obj_reachable:
  "heap_reachable (fst demo_obj) [4160 \<mapsto> 100]" "heap_af_reachable (fst demo_obj) [4160 \<mapsto> 100]"
  using Step [OF demo_heap_reachable(1) Alloc [OF _ _ demo_obj_eval]]
    AfAlloc [OF demo_heap_reachable(2) _ _ demo_obj_eval] by simp_all

section \<open>Properties\<close>

text \<open>C1. In every state a well-behaved client can bring the heap into, the objects handed out lie inside
  the heap, are 16-byte aligned and do not overlap, and the only diagnostics printed are out-of-memory
  reports: no false double-free, invalid-pointer or overflow report.\<close>

theorem heap_reachable_safe:
  assumes "heap_reachable s L"
  shows "(\<forall>p r. L p = Some r \<longrightarrow> 16 dvd p \<and> heap_base s \<le> p \<and> p + r \<le> heap_base s + heap_capacity s) \<and>
    (\<forall>p q r t. L p = Some r \<longrightarrow> L q = Some t \<longrightarrow> p \<noteq> q \<longrightarrow> p + r \<le> q \<or> q + t \<le> p) \<and>
    (\<forall>m\<in>set (heap_log s). heap_msg_benign m)"
proof (intro conjI allI impI)
  have i: "heap_models s L" "\<forall>m\<in>set (heap_log s). heap_msg_benign m"
    using heap_reachable_inv [OF assms] by (auto simp: heap_sys_inv_def)
  show "\<forall>m\<in>set (heap_log s). heap_msg_benign m" by (fact i(2))
  show "16 dvd p" "heap_base s \<le> p" "p + r \<le> heap_base s + heap_capacity s" if "L p = Some r" for p r
    using heap_models_bounds [OF i(1) that] by auto
  show "p + r \<le> q \<or> q + t \<le> p" if "L p = Some r" "L q = Some t" "p \<noteq> q" for p q r t
    using kheap.apart [OF i(1) that] .
qed

theorem heap_reachable_safe_witness:
  "heap_reachable (fst demo_obj) [4160 \<mapsto> 100] \<and> heap_base (fst demo_obj) \<le> 4160"
  using heap_reachable_safe [OF demo_obj_reachable(1)] demo_obj_reachable(1) by simp

text \<open>C2. \<open>kmalloc\<close> always returns. It fails exactly when no free block can hold the request with its
  canary, and then it only reports; otherwise it hands out a fresh, aligned range inside the heap that
  meets no live object, and no byte of a live object changes.\<close>

theorem kmalloc_correct:
  assumes m: "heap_models s L" and n: "0 < n" "n + 23 < 2 ^ 64"
  shows "\<exists>s' p. kmalloc n caller s = Some (s', p) \<and>
    (p = 0 \<longleftrightarrow> \<not> heap_fits (ALIGN16 (add64 n 8)) s) \<and>
    (p = 0 \<longrightarrow> s' = heap_say (OutOfMemory n) s) \<and>
    (p \<noteq> 0 \<longrightarrow> heap_models s' (L(p \<mapsto> n)) \<and> 16 dvd p \<and> heap_base s \<le> p \<and>
       p + n \<le> heap_base s + heap_capacity s \<and>
       (\<forall>q t. L q = Some t \<longrightarrow> p + n \<le> q \<or> q + t \<le> p) \<and> kept L s s')"
  using kmalloc_models [OF m n, of caller]
proof (elim disjE conjE exE)
  fix s' p
  assume a: "heap_fits (ALIGN16 (add64 n 8)) s" "kmalloc n caller s = Some (s', p)" "p \<noteq> 0"
    "heap_models s' (L(p \<mapsto> n))" "kept L s s'" "heap_base s' = heap_base s"
    "heap_capacity s' = heap_capacity s"
  have "16 dvd p" "heap_base s \<le> p" "p + n \<le> heap_base s + heap_capacity s"
    using heap_models_bounds [OF a(4), of p n] a(6,7) by auto
  moreover have "p + n \<le> q \<or> q + t \<le> p" if "L q = Some t" for q t
    using kheap.alloc_fresh [OF m _ a(2,3) that] n by simp
  ultimately show ?thesis using a by (intro exI [of _ s'] exI [of _ p]) simp
qed simp

theorem kmalloc_correct_witness:
  "heap_models demo_heap Map.empty \<and> heap_fits (ALIGN16 (add64 100 8)) demo_heap \<and>
   heap_base demo_heap \<le> 4160 \<and> 4160 + 100 \<le> heap_base demo_heap + heap_capacity demo_heap"
  using kmalloc_correct [OF demo_heap_models, of 100 7] demo_heap_models demo_obj_eval by auto

text \<open>C3. \<open>krealloc\<close> of a live object always returns. If it fails the object is untouched. If it
  succeeds the result is a live object of the new size, disjoint from all others, whose bytes up to the
  smaller of the two sizes are those of the old object, and no other object changes. This covers the
  shrinking, the in-place growing and the moving path.\<close>

theorem krealloc_correct:
  assumes m: "heap_models s L" and p: "L p = Some r" and n: "0 < n" "n + 23 < 2 ^ 64"
  shows "\<exists>s' q. krealloc p n caller s = Some (s', q) \<and>
    (q = 0 \<longrightarrow> heap_models s' L \<and> hmem s' = hmem s) \<and>
    (q \<noteq> 0 \<longrightarrow> heap_models s' ((L(p := None))(q \<mapsto> n)) \<and>
       (\<forall>i < min r n. hmem s' (q + i) = hmem s (p + i)) \<and> kept (L(p := None)) s s')"
proof -
  obtain s1 q where R: "krealloc_nolock p n caller s = Some (s1, q)" "realloc_ok p r q n L s s1"
    using krealloc_nolock_models [OF m p n] by blast
  have "p \<noteq> 0" using heap_models_bounds [OF m p] by auto
  then have k: "krealloc p n caller s = Some (if q = 0 then heap_say (ReallocFailed p n) s1 else s1, q)"
    using R(1) n(1) by (simp add: krealloc_def)
  show ?thesis
  proof (cases "q = 0")
    case True
    then show ?thesis using R(2) k by (auto simp: realloc_ok_def resized_def)
  next
    case False
    then show ?thesis using R(2) k
      by (intro exI [of _ s1] exI [of _ q]) (simp add: realloc_ok_def resized_def)
  qed
qed

theorem krealloc_correct_witness:
  "\<exists>s' q. krealloc 4160 500 7 (fst demo_obj) = Some (s', q) \<and>
     (q \<noteq> 0 \<longrightarrow> (\<forall>i < 100. hmem s' (q + i) = hmem (fst demo_obj) (4160 + i)))"
  using krealloc_correct [OF demo_obj_models, of 4160 100 500 7] by auto

text \<open>C6. \<open>kfree\<close> of a live object takes exactly that object away, touches no byte, and reports an
  overflow if and only if the eight canary bytes behind the object were changed.\<close>

theorem kfree_correct:
  assumes "heap_models s L" "L p = Some r"
  shows "heap_models (kfree p s) (L(p := None)) \<and> hmem (kfree p s) = hmem s \<and>
    (OverflowDetected p \<in> set (drop (length (heap_log s)) (heap_log (kfree p s))) \<longleftrightarrow>
       read_bytes (p + r) 8 s \<noteq> HEAP_CANARY)"
  using kfree_nolock_models [OF assms] by (simp add: kfree_def)

theorem kfree_correct_witness:
  "heap_models (kfree 4160 (fst demo_obj)) Map.empty"
  using kfree_correct [OF demo_obj_models, of 4160 100] by (simp add: fun_upd_def cong: if_cong)

text \<open>C7. A pointer freed twice in a row is reported by the second \<open>kfree\<close>, which changes nothing
  else, although the block may meanwhile have been merged into a neighbour.\<close>

theorem kfree_double_free:
  assumes "heap_models s L" "L p = Some r"
  shows "kfree p (kfree p s) = heap_say (DoubleFree p) (kfree p s)"
proof -
  note F = kfree_nolock_models [OF assms] and c = heap_range_checks [OF assms]
  have "p \<noteq> 0" using heap_models_bounds [OF assms] by auto
  moreover have "heap_ptr_in_range (kfree p s) p" "heap_ptr_in_range (kfree p s) (p - HDR)"
    using c(2,3) F(4,5) by (simp_all add: heap_ptr_in_range_def kfree_def)
  moreover have "hb_magic (hdr (kfree p s) (p - HDR)) \<noteq> HEAP_MAGIC_ALLOC"
    using F(6) by (simp add: kfree_def HEAP_MAGIC_FREE_def HEAP_MAGIC_ALLOC_def)
  ultimately show ?thesis
    unfolding kfree_def [of p "kfree p s"] kfree_nolock_def [of p "kfree p s"] Let_def c(1) by simp
qed

theorem kfree_double_free_witness:
  "kfree 4160 (kfree 4160 (fst demo_obj)) = heap_say (DoubleFree 4160) (kfree 4160 (fst demo_obj))"
  using kfree_double_free [OF demo_obj_models, of 4160 100] by simp

text \<open>C8. Over any sequence of \<open>kmalloc\<close> and \<open>kfree\<close> the statistics are exact: free bytes, used bytes
  and one header per block add up to the capacity, and because freed neighbours are merged there are at
  most as many free blocks as objects, plus one.\<close>

theorem heap_statistics_exact:
  assumes "heap_af_reachable s L"
  shows "\<exists>f k. heap_free_bytes s = Some f \<and> k \<le> card (dom L) + 1 \<and>
     f + heap_used_bytes s + HDR * (card (dom L) + k) = heap_total_bytes s"
proof -
  have m: "heap_models s L" "accounted s L" using heap_af_inv [OF assms] by auto
  obtain bs fl where r: "heap_rep 0 s bs fl" and na: "nadj fl bs" and L: "L = live_map s bs fl"
    using heap_modelsE [OF m(1)] .
  have u: "heap_used_now s = (\<Sum>b\<in>set bs - set fl. bsize s b)"
    using m(2) unfolding L accounted_live_map .
  have c: "card (dom L) = length (filter (\<lambda>b. b \<notin> set fl) bs)" using card_dom_live [OF r] L by simp
  have k: "length fl \<le> card (dom L) + 1"
    using nadj_count [OF na] free_blocks_filter(2) [OF r] unfolding c by (auto split: if_splits)
  have "length bs = card (dom L) + length fl"
    using sum_length_filter_compl [of "\<lambda>b. b \<in> set fl" bs] free_blocks_filter(2) [OF r]
    unfolding c by simp
  then show ?thesis using heap_space_split [OF r] heap_free_bytes_rep [OF r] k u
    by (intro exI [of _ "\<Sum>b\<in>set fl. bsize s b"] exI [of _ "length fl"])
       (simp add: heap_used_bytes_def heap_total_bytes_def)
qed

theorem heap_statistics_exact_witness:
  "\<exists>f k. heap_free_bytes (fst demo_obj) = Some f \<and>
     f + heap_used_bytes (fst demo_obj) + HDR * (1 + k) = heap_total_bytes (fst demo_obj)"
  using heap_statistics_exact [OF demo_obj_reachable(2)] by auto




text \<open>Growing in place does not keep the accounting: the block may take more than the rounded
  size when the rest is too small to split off, but only the rounded size is added to the bytes in use.\<close>

theorem krealloc_used_undercounts:
  "\<exists>s' p. demo_grow demo_heap_small = Some (s', p) \<and> heap_used_bytes s' < hb_size (hdr s' (p - HDR))"
  using demo_grow_eval by (auto simp: heap_used_bytes_def split: prod.splits)

end
