(* ===== verification/Frame_Thms.thy ===== *)
theory Frame_Thms
  imports Frame Heap_Thms
begin

text \<open>
  The frame table refines a map from page addresses to reference counts: \<open>frame_models s R\<close>. The
  operations of \<open>mm/frame.c\<close> act on \<open>R\<close> as a reference counter should, and together with the
  page pool below they never hand out a page that is still referenced.
\<close>

section \<open>Views\<close>

definition flink :: "frame_state \<Rightarrow> int \<Rightarrow> int" where "flink s = (\<lambda>i. fm_link (frames s i))"
definition fpa :: "frame_state \<Rightarrow> int \<Rightarrow> addr" where "fpa s = (\<lambda>i. fm_pa (frames s i))"
definition fraw :: "frame_state \<Rightarrow> int \<Rightarrow> addr" where "fraw s = (\<lambda>i. fm_raw (frames s i))"
definition frefs :: "frame_state \<Rightarrow> int \<Rightarrow> nat" where "frefs s = (\<lambda>i. fm_refs (frames s i))"

lemmas fview_defs = flink_def fpa_def fraw_def frefs_def

lemma fview_set_frame:
  "flink (set_frame i f s) = (flink s)(i := fm_link (f (frames s i)))"
  "fpa (set_frame i f s) = (fpa s)(i := fm_pa (f (frames s i)))"
  "fraw (set_frame i f s) = (fraw s)(i := fm_raw (f (frames s i)))"
  "frefs (set_frame i f s) = (frefs s)(i := fm_refs (f (frames s i)))"
  by (simp_all add: set_frame_def fview_defs fun_eq_iff)

lemma set_frame_rest [simp]:
  "frames_p (set_frame i f s) = frames_p s" "frames_cap (set_frame i f s) = frames_cap s"
  "frame_hash_p (set_frame i f s) = frame_hash_p s" "frame_hash (set_frame i f s) = frame_hash s"
  "frame_free_head (set_frame i f s) = frame_free_head s" "f_pmm (set_frame i f s) = f_pmm s"
  "f_heap (set_frame i f s) = f_heap s"
  by (simp_all add: set_frame_def)

definition slots :: "frame_state \<Rightarrow> int set" where
  "slots s = {0..<int (frames_cap s)}"

section \<open>Representation\<close>

definition frame_rep :: "frame_state \<Rightarrow> int list \<Rightarrow> (nat \<Rightarrow> int list) \<Rightarrow> bool" where
  "frame_rep s fl ch \<longleftrightarrow> frames_p s \<noteq> 0 \<and> frame_hash_p s \<noteq> 0 \<and>
     linked (flink s) (-1) (frame_free_head s) fl \<and> set fl \<subseteq> slots s \<and>
     (\<forall>h < FRAME_HASH_SIZE. linked (flink s) (-1) (frame_hash s h) (ch h) \<and>
        set (ch h) = {i \<in> slots s. i \<notin> set fl \<and> frame_hash_pa (fpa s i) = h}) \<and>
     (\<forall>i \<in> slots s - set fl. 0 < frefs s i \<and> frefs s i < 2 ^ 32 \<and> pg_addr (fpa s i) = fpa s i) \<and>
     inj_on (fpa s) (slots s - set fl)"

definition frame_models :: "frame_state \<Rightarrow> (addr \<Rightarrow> nat option) \<Rightarrow> bool" where
  "frame_models s R \<longleftrightarrow> (\<exists>fl ch. frame_rep s fl ch \<and>
     (\<forall>pa n. R pa = Some n \<longleftrightarrow> (\<exists>i \<in> slots s - set fl. fpa s i = pa \<and> frefs s i = n)))"

lemma frame_hash_lt [simp]: "frame_hash_pa pa < FRAME_HASH_SIZE"
  by (simp add: frame_hash_pa_def FRAME_HASH_SIZE_def)

lemma pg_addr_idem [simp]: "pg_addr (pg_addr pa) = pg_addr pa"
proof -
  have "pa mod 2 ^ 52 div 2 ^ 12 * 2 ^ 12 \<le> pa mod 2 ^ 52" by simp
  then have "pa mod 2 ^ 52 div 2 ^ 12 * 2 ^ 12 mod 2 ^ 52 = pa mod 2 ^ 52 div 2 ^ 12 * 2 ^ 12"
    by (intro mod_less) (meson le_less_trans mod_less_divisor zero_less_numeral zero_less_power)
  then show ?thesis unfolding pg_addr_def by simp
qed

lemma frame_repD:
  assumes "frame_rep s fl ch"
  shows "frames_p s \<noteq> 0" "frame_hash_p s \<noteq> 0" "linked (flink s) (-1) (frame_free_head s) fl"
    "set fl \<subseteq> slots s" "h < FRAME_HASH_SIZE \<Longrightarrow> linked (flink s) (-1) (frame_hash s h) (ch h)"
    "h < FRAME_HASH_SIZE \<Longrightarrow> set (ch h) = {i \<in> slots s. i \<notin> set fl \<and> frame_hash_pa (fpa s i) = h}"
    "i \<in> slots s \<Longrightarrow> i \<notin> set fl \<Longrightarrow> 0 < frefs s i" "i \<in> slots s \<Longrightarrow> i \<notin> set fl \<Longrightarrow> frefs s i < 2 ^ 32"
    "i \<in> slots s \<Longrightarrow> i \<notin> set fl \<Longrightarrow> pg_addr (fpa s i) = fpa s i"
    "i \<in> slots s \<Longrightarrow> i \<notin> set fl \<Longrightarrow> j \<in> slots s \<Longrightarrow> j \<notin> set fl \<Longrightarrow> fpa s i = fpa s j \<Longrightarrow> i = j"
  using assms unfolding frame_rep_def inj_on_def by auto

lemma slots_nonneg: "i \<in> slots s \<Longrightarrow> 0 \<le> i"
  by (simp add: slots_def)

lemma frame_chain_find:
  assumes "linked (flink s) (-1) i xs" "\<forall>x\<in>set xs. 0 \<le> x \<and> 0 < frefs s x"
  shows "frame_chain i pa s = Some (case find (\<lambda>x. fpa s x = pa) xs of None \<Rightarrow> -1 | Some j \<Rightarrow> j)"
  using assms
proof (induction xs arbitrary: i)
  case Nil
  then show ?case by (subst frame_chain.simps) simp
next
  case (Cons x xs)
  then have "linked (flink s) (-1) (flink s x) xs" "i = x" "0 \<le> x" "0 < frefs s x" by auto
  with Cons.IH [of "flink s x"] Cons.prems show ?case
    by (subst frame_chain.simps) (simp add: fview_defs)
qed

text \<open>The lookup finds the slot of a page exactly when the page is tracked.\<close>

lemma frame_slot_lookup:
  assumes r: "frame_rep s fl ch"
  obtains i where "frame_slot_locked pa s = Some i" "i \<in> slots s" "i \<notin> set fl" "fpa s i = pg_addr pa"
  | "frame_slot_locked pa s = Some (-1)" "\<forall>i \<in> slots s - set fl. fpa s i \<noteq> pg_addr pa"
proof -
  let ?h = "frame_hash_pa (pg_addr pa)"
  note D = frame_repD [OF r]
  have c: "\<forall>x\<in>set (ch ?h). 0 \<le> x \<and> 0 < frefs s x" using D(6,7) slots_nonneg by auto
  have e: "frame_slot_locked pa s =
      Some (case find (\<lambda>x. fpa s x = pg_addr pa) (ch ?h) of None \<Rightarrow> -1 | Some j \<Rightarrow> j)"
    using frame_chain_find [OF D(5) c, of "pg_addr pa"] D(1,2) by (simp add: frame_slot_locked_def Let_def)
  show ?thesis
  proof (cases "find (\<lambda>x. fpa s x = pg_addr pa) (ch ?h)")
    case None
    then have "\<forall>x\<in>set (ch ?h). fpa s x \<noteq> pg_addr pa" by (simp add: find_None_iff)
    moreover have "i \<in> set (ch ?h)" if "i \<in> slots s" "i \<notin> set fl" "fpa s i = pg_addr pa" for i
      using D(6) [of ?h] that by simp
    ultimately have "\<forall>i \<in> slots s - set fl. fpa s i \<noteq> pg_addr pa" by blast
    then show ?thesis using e None by (intro that(2)) simp_all
  next
    case (Some j)
    then have "j \<in> set (ch ?h)" "fpa s j = pg_addr pa" by (auto simp: find_Some_iff)
    then show ?thesis using e Some D(6) [of ?h] by (intro that(1) [of j]) simp_all
  qed
qed

section \<open>Installing a page in a free slot\<close>

text \<open>The statements \<open>frame_alloc\<close> and \<open>frame_adopt\<close> share once a slot was taken.\<close>

definition frame_install :: "int \<Rightarrow> addr \<Rightarrow> addr \<Rightarrow> frame_state \<Rightarrow> frame_state" where
  "frame_install slot page raw s = frame_hash_insert_locked slot
     (set_frame slot (\<lambda>m. m\<lparr>fm_pa := page, fm_raw := raw, fm_refs := 1\<rparr>) s)"

lemma frame_install_views:
  fixes page raw :: addr
  assumes "frame_free_head s = i" "0 \<le> i" "frames_p s \<noteq> 0" "frame_hash_p s \<noteq> 0"
  defines "h \<equiv> frame_hash_pa page" and "s' \<equiv> frame_install i page raw (fst (frame_take_free_locked s))"
  shows "flink s' = (flink s)(i := frame_hash s h)" "fpa s' = (fpa s)(i := page)" "fraw s' = (fraw s)(i := raw)"
    "frefs s' = (frefs s)(i := 1)" "frame_hash s' = (frame_hash s)(h := i)" "frame_free_head s' = flink s i"
    "frames_p s' = frames_p s" "frame_hash_p s' = frame_hash_p s" "frames_cap s' = frames_cap s"
    "f_pmm s' = f_pmm s" "f_heap s' = f_heap s"
  using assms(1-4) unfolding assms(5,6)
  by (simp_all add: frame_take_free_locked_def frame_install_def frame_hash_insert_locked_def Let_def
      set_frame_def fview_defs fun_eq_iff)

lemma frame_rep_install:
  fixes raw :: addr
  assumes r: "frame_rep s (i # fl) ch" and p: "pg_addr page = page"
    and new: "\<forall>j \<in> slots s - set (i # fl). fpa s j \<noteq> page"
  defines "s' \<equiv> frame_install i page raw (fst (frame_take_free_locked s))" and "h \<equiv> frame_hash_pa page"
  shows "frame_rep s' fl (ch(h := i # ch h))"
proof -
  note D = frame_repD [OF r]
  have i: "frame_free_head s = i" "i \<in> slots s" "i \<notin> set fl" "0 \<le> i"
    using D(3,4) linked_distinct [OF D(3)] slots_nonneg by auto
  note v = frame_install_views [OF i(1,4) D(1,2), of page raw, folded s'_def h_def]
  have sl: "slots s' = slots s" by (simp add: slots_def v)
  have nc: "i \<notin> set (ch k)" if "k < FRAME_HASH_SIZE" for k using D(6) [OF that] by auto
  have "linked (flink s') (-1) (frame_hash s' k) ((ch(h := i # ch h)) k)" if k: "k < FRAME_HASH_SIZE" for k
    using D(5) [OF k] nc [OF k] i(4) by (auto simp: v)
  moreover have "set ((ch(h := i # ch h)) k) = {j \<in> slots s'. j \<notin> set fl \<and> frame_hash_pa (fpa s' j) = k}"
    if k: "k < FRAME_HASH_SIZE" for k
    using D(6) [OF k] i by (auto simp: v sl h_def)
  moreover have "linked (flink s') (-1) (frame_free_head s') fl" using D(3) i by (simp add: v)
  moreover have "\<forall>j \<in> slots s' - set fl. 0 < frefs s' j \<and> frefs s' j < 2 ^ 32 \<and> pg_addr (fpa s' j) = fpa s' j"
    using D(7-9) p by (auto simp: v sl)
  moreover have "inj_on (fpa s') (slots s' - set fl)"
    unfolding inj_on_def sl v(2) using D(10) new by (metis Diff_iff fun_upd_apply set_ConsD)
  ultimately show ?thesis unfolding frame_rep_def using D(1,2,4) by (simp add: v sl)
qed

section \<open>Dropping the last reference\<close>

lemma frame_unchain_spec:
  assumes "linked (flink s) (-1) (pp_get h pp s) (xs @ i # ys)" "i \<notin> set xs"
    "\<forall>x\<in>set (xs @ i # ys). 0 \<le> x"
  shows "frame_unchain h pp i s = Some (set_frame i (\<lambda>m. m\<lparr>fm_link := -1\<rparr>)
     (pp_set h (if xs = [] then pp else Some (last xs)) (flink s i) s))"
  using assms
proof (induction xs arbitrary: pp)
  case Nil
  then show ?case by (subst frame_unchain.simps) (simp add: flink_def)
next
  case (Cons x xs)
  then have x: "pp_get h pp s = x" "0 \<le> x" "x \<noteq> i" by auto
  have "linked (flink s) (-1) (pp_get h (Some x) s) (xs @ i # ys)"
    using Cons.prems by (simp add: pp_get_def flink_def)
  with Cons.IH [of "Some x"] Cons.prems x show ?case by (subst frame_unchain.simps) simp
qed

definition frame_drop :: "int \<Rightarrow> frame_state \<Rightarrow> frame_state option" where
  "frame_drop slot s = map_option (frame_return_free_locked slot) (frame_hash_remove_locked slot s)"

lemma frame_rep_drop:
  assumes r: "frame_rep s fl ch" and i: "i \<in> slots s" "i \<notin> set fl"
  defines "s1 \<equiv> set_frame i (\<lambda>m. m\<lparr>fm_refs := 0\<rparr>) s" and "h \<equiv> frame_hash_pa (fpa s i)"
  obtains s' where "frame_drop i s1 = Some s'" "frame_rep s' (i # fl) (ch(h := remove1 i (ch h)))"
    "slots s' = slots s" "\<forall>j. j \<noteq> i \<longrightarrow> fpa s' j = fpa s j \<and> frefs s' j = frefs s j \<and> fraw s' j = fraw s j"
    "f_pmm s' = f_pmm s" "f_heap s' = f_heap s"
proof -
  note D = frame_repD [OF r]
  have hl: "h < FRAME_HASH_SIZE" by (simp add: h_def)
  have "i \<in> set (ch h)" using D(6) [OF hl] i by (simp add: h_def)
  then obtain xs ys where c: "ch h = xs @ i # ys" "i \<notin> set xs" by (meson split_list_first)
  have d: "distinct (xs @ i # ys)" and l: "linked (flink s) (-1) (frame_hash s h) (xs @ i # ys)"
    using linked_distinct [OF D(5) [OF hl]] D(5) [OF hl] c by auto
  have pos: "\<forall>x\<in>set (xs @ i # ys). 0 \<le> x" using D(6) [OF hl] c slots_nonneg by auto
  have f1: "flink s1 = flink s" "frame_hash s1 = frame_hash s" "fpa s1 = fpa s" "frames_p s1 = frames_p s"
    "frame_hash_p s1 = frame_hash_p s" by (simp_all add: s1_def set_frame_def fview_defs fun_eq_iff)
  have l1: "linked (flink s1) (-1) (pp_get h None s1) (xs @ i # ys)" using l by (simp add: f1 pp_get_def)
  let ?s2 = "set_frame i (\<lambda>m. m\<lparr>fm_link := -1\<rparr>) (pp_set h (if xs = [] then None else Some (last xs)) (flink s i) s1)"
  have u: "frame_hash_remove_locked i s1 = Some ?s2"
    using frame_unchain_spec [OF l1 c(2) pos] D(1,2) slots_nonneg [OF i(1)]
    by (simp add: frame_hash_remove_locked_def f1 h_def fpa_def [symmetric, THEN fun_cong])
  define s' where "s' = frame_return_free_locked i ?s2"
  have li: "xs \<noteq> [] \<Longrightarrow> last xs \<noteq> i" using c(2) last_in_set by metis
  have v: "flink s' = (if xs = [] then flink s else (flink s)(last xs := flink s i))(i := frame_free_head s)"
    "frame_hash s' = (if xs = [] then (frame_hash s)(h := flink s i) else frame_hash s)"
    "frame_free_head s' = i" "fpa s' = (fpa s)(i := 0)" "frefs s' = (frefs s)(i := 0)" "fraw s' = (fraw s)(i := 0)"
    "frames_p s' = frames_p s" "frame_hash_p s' = frame_hash_p s" "frames_cap s' = frames_cap s"
    "f_pmm s' = f_pmm s" "f_heap s' = f_heap s"
    using D(1) i(1) li
    by (auto simp: s'_def s1_def frame_return_free_locked_def pp_set_def set_frame_def fview_defs slots_def
        fun_eq_iff)
  have sl: "slots s' = slots s" by (simp add: slots_def v)
  have off: "i \<notin> set fl" "last xs \<notin> set fl" if "xs \<noteq> []"
    using D(6) [OF hl] c(1) last_in_set [OF that] i by auto
  have fl: "linked (flink s') (-1) (frame_free_head s') (i # fl)"
    using D(3) i slots_nonneg [OF i(1)] off by (auto simp: v)
  have ch: "linked (flink s') (-1) (frame_hash s' k) ((ch(h := remove1 i (ch h))) k)" if k: "k < FRAME_HASH_SIZE" for k
  proof (cases "k = h")
    case True
    have "linked (flink s') (-1) (frame_hash s' h) (xs @ ys)"
    proof (cases "xs = []")
      case True
      then show ?thesis using l d by (simp add: v)
    next
      case False
      then show ?thesis using linked_unlink [OF l False] d by (simp add: v)
    qed
    then show ?thesis using True c by (simp add: remove1_append)
  next
    case False
    have "i \<notin> set (ch k)" using D(6) [OF k] False by (auto simp: h_def)
    moreover have "last xs \<notin> set (ch k)" if "xs \<noteq> []"
      using D(6) [OF k] D(6) [OF hl] c(1) last_in_set [OF that] False by auto
    ultimately show ?thesis using D(5) [OF k] False by (auto simp: v)
  qed
  have st: "set ((ch(h := remove1 i (ch h))) k) = {j \<in> slots s'. j \<notin> set (i # fl) \<and> frame_hash_pa (fpa s' j) = k}"
    if k: "k < FRAME_HASH_SIZE" for k
    using D(6) [OF k] linked_distinct [OF D(5) [OF hl]] by (auto simp: v sl h_def)
  have "frame_rep s' (i # fl) (ch(h := remove1 i (ch h)))"
    unfolding frame_rep_def using D fl ch st i by (auto simp: v sl inj_on_def simp del: linked.simps)
  then show ?thesis using that [of s'] u v sl by (simp add: frame_drop_def s'_def [symmetric])
qed

section \<open>The table over the page pool\<close>

text \<open>
  \<open>frame_sys s R\<close>: the table represents the counts \<open>R\<close>, the pool was carved (so no slot is backed by
  the heap), and the pool's pages that are not on its free list are exactly those with a count.
\<close>

definition frame_owned :: "frame_state \<Rightarrow> (addr \<Rightarrow> nat option) \<Rightarrow> addr set" where
  "frame_owned s R = dom R \<inter> pmm_arena (f_pmm s)"

definition frame_sys :: "frame_state \<Rightarrow> (addr \<Rightarrow> nat option) \<Rightarrow> bool" where
  "frame_sys s R \<longleftrightarrow> (\<exists>fl ch. frame_rep s fl ch \<and> (\<forall>i \<in> slots s - set fl. fraw s i = 0) \<and>
     (\<forall>pa n. R pa = Some n \<longleftrightarrow> (\<exists>i \<in> slots s - set fl. fpa s i = pa \<and> frefs s i = n))) \<and>
     pmm_end (f_pmm s) \<le> 2 ^ 52 \<and> pmm_inited (f_pmm s) \<and>
     pmm_pool.pool_inv (f_pmm s) (frame_owned s R)"

lemma frame_sysE:
  assumes "frame_sys s R"
  obtains fl ch where "frame_rep s fl ch" "\<forall>i \<in> slots s - set fl. fraw s i = 0"
    "\<And>pa n. R pa = Some n \<longleftrightarrow> (\<exists>i \<in> slots s - set fl. fpa s i = pa \<and> frefs s i = n)"
    "pmm_end (f_pmm s) \<le> 2 ^ 52" "pmm_inited (f_pmm s)"
    "pmm_pool.pool_inv (f_pmm s) (frame_owned s R)"
  using assms unfolding frame_sys_def by blast

lemma frame_sysI:
  "frame_rep s fl ch \<Longrightarrow> \<forall>i \<in> slots s - set fl. fraw s i = 0 \<Longrightarrow>
   (\<And>pa n. R pa = Some n \<longleftrightarrow> (\<exists>i \<in> slots s - set fl. fpa s i = pa \<and> frefs s i = n)) \<Longrightarrow>
   pmm_end (f_pmm s) \<le> 2 ^ 52 \<Longrightarrow> pmm_inited (f_pmm s) \<Longrightarrow>
   pmm_pool.pool_inv (f_pmm s) (frame_owned s R) \<Longrightarrow> frame_sys s R"
  unfolding frame_sys_def by blast

lemma pmm_arena_pg: "p \<in> pmm_arena q \<Longrightarrow> pmm_end q \<le> 2 ^ 52 \<Longrightarrow> pg_addr p = p"
  by (auto simp: pmm_arena_def pmm_page_ok_def PAGE_SIZE_4K_def pg_addr_def)

text \<open>The table alone does not depend on the pool.\<close>

lemma frame_rep_pmm [simp]: "frame_rep (s\<lparr>f_pmm := q\<rparr>) fl ch = frame_rep s fl ch"
  by (simp add: frame_rep_def slots_def fview_defs)

lemma fviews_pmm [simp]:
  "flink (s\<lparr>f_pmm := q\<rparr>) = flink s" "fpa (s\<lparr>f_pmm := q\<rparr>) = fpa s" "fraw (s\<lparr>f_pmm := q\<rparr>) = fraw s"
  "frefs (s\<lparr>f_pmm := q\<rparr>) = frefs s" "slots (s\<lparr>f_pmm := q\<rparr>) = slots s"
  by (simp_all add: fview_defs slots_def)

lemma pmm_alloc_rest:
  "pmm_end (fst (pmm_alloc_page q)) = pmm_end q" "pmm_inited (fst (pmm_alloc_page q)) = pmm_inited q"
  "pmm_arena (fst (pmm_alloc_page q)) = pmm_arena q"
  by (auto simp: pmm_alloc_page_def Let_def pmm_arena_def pmm_page_ok_def)

lemma pmm_free_rest:
  "pmm_end (pmm_free_page q p) = pmm_end q" "pmm_inited (pmm_free_page q p) = pmm_inited q"
  by (auto simp: pmm_free_page_def)

lemma frame_sys_track:
  fixes raw :: addr
  assumes R: "\<And>pa n. R pa = Some n \<longleftrightarrow> (\<exists>j \<in> slots s - set (i # fl). fpa s j = pa \<and> frefs s j = n)"
    and r: "frame_rep s (i # fl) ch" and new: "\<forall>j \<in> slots s - set (i # fl). fpa s j \<noteq> page"
  defines "s' \<equiv> frame_install i page raw (fst (frame_take_free_locked s))"
  shows "(R(page \<mapsto> 1)) pa = Some n \<longleftrightarrow> (\<exists>j \<in> slots s' - set fl. fpa s' j = pa \<and> frefs s' j = n)"
proof -
  note D = frame_repD [OF r]
  have i: "frame_free_head s = i" "i \<in> slots s" "i \<notin> set fl" "0 \<le> i"
    using D(3,4) linked_distinct [OF D(3)] slots_nonneg by auto
  note v = frame_install_views [OF i(1,4) D(1,2), of page raw, folded s'_def]
  have sl: "slots s' - set fl = insert i (slots s - set (i # fl))" using i by (auto simp: slots_def v)
  show ?thesis
  proof (cases "pa = page")
    case True
    have "(\<exists>j \<in> insert i (slots s - set (i # fl)). fpa s' j = page \<and> frefs s' j = n) \<longleftrightarrow> n = 1"
      using new by (auto simp: v)
    then show ?thesis unfolding sl True by auto
  next
    case False
    then show ?thesis unfolding sl using R [of pa n] by (auto simp: v)
  qed
qed

lemma frame_sys_install:
  assumes r: "frame_rep s (i # fl) ch" and raw: "\<forall>j \<in> slots s - set (i # fl). fraw s j = 0"
    and R: "\<And>pa n. R pa = Some n \<longleftrightarrow> (\<exists>j \<in> slots s - set (i # fl). fpa s j = pa \<and> frefs s j = n)"
    and e: "pmm_end (f_pmm s) \<le> 2 ^ 52" "pmm_inited (f_pmm s)"
    and P: "pmm_pool.pool_inv (f_pmm s) (frame_owned s (R(page \<mapsto> 1)))"
    and pg: "pg_addr page = page" and np: "R page = None"
  shows "snd (frame_take_free_locked s) = i" "0 \<le> i"
    "frame_sys (frame_install i page 0 (fst (frame_take_free_locked s))) (R(page \<mapsto> 1))"
proof -
  define s' where "s' = frame_install i page 0 (fst (frame_take_free_locked s))"
  note D = frame_repD [OF r]
  have ih: "frame_free_head s = i" using D(3) by simp
  show i0: "0 \<le> i" using D(4) slots_nonneg by auto
  note v = frame_install_views [OF ih i0 D(1,2), of page 0, folded s'_def]
  show "snd (frame_take_free_locked s) = i"
    using ih i0 D(1) by (simp add: frame_take_free_locked_def Let_def)
  have new: "\<forall>j \<in> slots s - set (i # fl). fpa s j \<noteq> page" using R [of page] np by auto
  have "frame_rep s' fl (ch(frame_hash_pa page := i # ch (frame_hash_pa page)))"
    using frame_rep_install [OF r pg new] by (simp add: s'_def)
  moreover have "(R(page \<mapsto> 1)) pa = Some n \<longleftrightarrow> (\<exists>j \<in> slots s' - set fl. fpa s' j = pa \<and> frefs s' j = n)" for pa n
    unfolding s'_def by (rule frame_sys_track [OF R r new])
  moreover have "frame_owned s' (R(page \<mapsto> 1)) = frame_owned s (R(page \<mapsto> 1))"
    by (simp add: frame_owned_def v)
  moreover have "\<forall>j \<in> slots s' - set fl. fraw s' j = 0" using raw by (auto simp: v slots_def)
  ultimately show "frame_sys (frame_install i page 0 (fst (frame_take_free_locked s))) (R(page \<mapsto> 1))"
    unfolding s'_def [symmetric] using P e by (intro frame_sysI) (simp_all add: v)
qed

lemma frame_install_pmm [simp]:
  "f_pmm (frame_install i page raw (fst (frame_take_free_locked s))) = f_pmm s"
  by (simp add: frame_install_def frame_hash_insert_locked_def frame_take_free_locked_def Let_def)

lemma frame_alloc_sys:
  assumes "frame_sys s R"
  shows "\<exists>s' p. frame_alloc caller s = Some (s', p) \<and> pmm_arena (f_pmm s') = pmm_arena (f_pmm s) \<and>
    (if p = 0 then frame_sys s' R
     else p \<in> pmm_arena (f_pmm s) \<and> R p = None \<and> frame_sys s' (R(p \<mapsto> 1)))"
proof -
  obtain fl ch where r: "frame_rep s fl ch" and raw: "\<forall>i \<in> slots s - set fl. fraw s i = 0"
    and R: "\<And>pa n. R pa = Some n \<longleftrightarrow> (\<exists>i \<in> slots s - set fl. fpa s i = pa \<and> frefs s i = n)"
    and e: "pmm_end (f_pmm s) \<le> 2 ^ 52" "pmm_inited (f_pmm s)"
    and P: "pmm_pool.pool_inv (f_pmm s) (frame_owned s R)"
    using frame_sysE [OF assms] by metis
  obtain q page where q: "pmm_alloc_page (f_pmm s) = (q, page)" by fastforce
  let ?s = "s\<lparr>f_pmm := q\<rparr>"
  have g: "frame_get_page caller s = Some (?s, page, 0)"
    using e(2) q by (simp add: frame_get_page_def pmm_ready_def)
  have qe: "pmm_end q = pmm_end (f_pmm s)" "pmm_inited q" "pmm_arena q = pmm_arena (f_pmm s)"
    using pmm_alloc_rest [of "f_pmm s"] q e by auto
  have fp: "frames_p s \<noteq> 0" using frame_repD(1) [OF r] .
  show ?thesis
  proof (cases "page = 0")
    case True
    then have "q = f_pmm s" using pmm_pool.pool_alloc_null(1) [OF P] q by simp
    then have "frame_alloc caller s = Some (s, 0)" using g fp True by (simp add: frame_alloc_def)
    then show ?thesis using assms by auto
  next
    case False
    note A = pmm_pool.pool_alloc [OF P q False]
    have np: "R page = None" using A(1,2) by (auto simp: frame_owned_def)
    have r': "frame_rep ?s fl ch" using r by simp
    show ?thesis
    proof (cases fl)
      case Nil
      then have "frame_free_head s = -1" using frame_repD(3) [OF r] by simp
      then have a: "frame_alloc caller s = Some (?s\<lparr>f_pmm := pmm_free_page q page\<rparr>, 0)"
        using g fp False by (simp add: frame_alloc_def frame_take_free_locked_def Let_def)
      have "pmm_pool.pool_inv (pmm_free_page q page) (insert page (frame_owned s R) - {page})"
        by (rule pmm_pool.pool_free [OF A(3)]) simp
      then have "pmm_pool.pool_inv (pmm_free_page q page) (frame_owned s R)" using A(2) by simp
      then have "frame_sys (?s\<lparr>f_pmm := pmm_free_page q page\<rparr>) R"
        using r raw R e qe by (intro frame_sysI [of _ fl ch])
          (simp_all add: pmm_free_rest frame_owned_def pmm_free_page_arena)
      moreover have "pmm_arena (pmm_free_page q page) = pmm_arena (f_pmm s)"
        using qe(3) by (simp add: pmm_free_page_arena)
      ultimately show ?thesis using a by auto
    next
      case (Cons i fl')
      have own: "frame_owned ?s (R(page \<mapsto> 1)) = insert page (frame_owned s R)"
        using A(1) qe by (auto simp: frame_owned_def)
      have pg: "pg_addr page = page" using pmm_arena_pg [OF A(1) e(1)] .
      have I: "snd (frame_take_free_locked ?s) = i" "0 \<le> i"
        "frame_sys (frame_install i page 0 (fst (frame_take_free_locked ?s))) (R(page \<mapsto> 1))"
        by (rule frame_sys_install [where R = R and page = page and s = ?s and fl = fl' and ch = ch];
            use r' pg np raw R e qe A(3) own Cons in simp)+
      then have a: "frame_alloc caller s = Some (frame_install i page 0 (fst (frame_take_free_locked ?s)), page)"
        using g fp False by (simp add: frame_alloc_def frame_install_def case_prod_unfold)
      show ?thesis using a I(3) np A(1) False qe(3) by auto
    qed
  qed
qed

text \<open>The slot found for a page carries its count.\<close>

lemma frame_sys_slot:
  assumes r: "frame_rep s fl ch" and R: "\<And>pa n. R pa = Some n \<longleftrightarrow> (\<exists>i \<in> slots s - set fl. fpa s i = pa \<and> frefs s i = n)"
  obtains i n where "frame_slot_locked pa s = Some i" "i \<in> slots s" "i \<notin> set fl" "fpa s i = pg_addr pa"
      "R (pg_addr pa) = Some n" "frefs s i = n" "0 < n" "n < 2 ^ 32" "0 \<le> i"
  | "frame_slot_locked pa s = Some (-1)" "R (pg_addr pa) = None"
proof (rule frame_slot_lookup [OF r, of pa])
  fix i assume i: "frame_slot_locked pa s = Some i" "i \<in> slots s" "i \<notin> set fl" "fpa s i = pg_addr pa"
  then have "R (pg_addr pa) = Some (frefs s i)" using R by blast
  then show ?thesis
    using i frame_repD(7,8) [OF r i(2,3)] slots_nonneg [OF i(2)] by (intro that(1) [of i "frefs s i"] refl)
next
  assume a: "frame_slot_locked pa s = Some (-1)" "\<forall>i \<in> slots s - set fl. fpa s i \<noteq> pg_addr pa"
  then have "R (pg_addr pa) = None" using R [of "pg_addr pa"] by (cases "R (pg_addr pa)") auto
  then show ?thesis using that(2) a(1) by blast
qed

lemma frame_refcount_sys:
  assumes "frame_sys s R"
  shows "frame_refcount pa s = Some (case R (pg_addr pa) of None \<Rightarrow> 0 | Some n \<Rightarrow> n)"
proof -
  obtain fl ch where r: "frame_rep s fl ch"
    and R: "\<And>pa n. R pa = Some n \<longleftrightarrow> (\<exists>i \<in> slots s - set fl. fpa s i = pa \<and> frefs s i = n)"
    using frame_sysE [OF assms] by metis
  show ?thesis
    by (rule frame_sys_slot [OF r R, of "pg_addr pa"]) (simp_all add: frame_refcount_def frefs_def)
qed

text \<open>Changing the count of a tracked page.\<close>

lemma frame_rep_refs:
  assumes r: "frame_rep s fl ch" and i: "i \<in> slots s" "i \<notin> set fl" and m: "0 < m" "m < 2 ^ 32"
  shows "frame_rep (set_frame i (\<lambda>f. f\<lparr>fm_refs := m\<rparr>) s) fl ch"
proof -
  let ?s = "set_frame i (\<lambda>f. f\<lparr>fm_refs := m\<rparr>) s"
  have "flink ?s = flink s" "fpa ?s = fpa s" "frefs ?s = (frefs s)(i := m)" "slots ?s = slots s"
    by (auto simp: set_frame_def fview_defs slots_def fun_eq_iff)
  then show ?thesis using r m unfolding frame_rep_def by auto
qed

lemma frame_sys_refs:
  assumes "frame_sys s R" and pa: "R pa = Some n" and m: "0 < m" "m < 2 ^ 32"
    and i: "frame_slot_locked pa s = Some i" and pg: "pg_addr pa = pa"
  shows "frame_sys (set_frame i (\<lambda>f. f\<lparr>fm_refs := m\<rparr>) s) (R(pa \<mapsto> m))"
proof -
  obtain fl ch where r: "frame_rep s fl ch" and raw: "\<forall>i \<in> slots s - set fl. fraw s i = 0"
    and R: "\<And>pa n. R pa = Some n \<longleftrightarrow> (\<exists>i \<in> slots s - set fl. fpa s i = pa \<and> frefs s i = n)"
    and e: "pmm_end (f_pmm s) \<le> 2 ^ 52" "pmm_inited (f_pmm s)"
    and P: "pmm_pool.pool_inv (f_pmm s) (frame_owned s R)"
    using frame_sysE [OF assms(1)] by metis
  let ?s = "set_frame i (\<lambda>f. f\<lparr>fm_refs := m\<rparr>) s"
  have j: "i \<in> slots s" "i \<notin> set fl" "fpa s i = pa"
    using frame_sys_slot [OF r R, of pa] i pa pg by (metis option.inject option.distinct(1))+
  have v: "fpa ?s = fpa s" "fraw ?s = fraw s" "frefs ?s = (frefs s)(i := m)" "slots ?s = slots s"
    by (auto simp: set_frame_def fview_defs slots_def fun_eq_iff)
  have "(R(pa \<mapsto> m)) qa = Some k \<longleftrightarrow> (\<exists>l \<in> slots s - set fl. fpa s l = qa \<and> ((frefs s)(i := m)) l = k)" for qa k
  proof (cases "qa = pa")
    case True
    have u: "l = i" if "l \<in> slots s - set fl" "fpa s l = pa" for l
      using frame_repD(10) [OF r, of l i] that j by simp
    have "i \<in> slots s - set fl" using j by simp
    then have "(\<exists>l \<in> slots s - set fl. fpa s l = pa \<and> ((frefs s)(i := m)) l = k) \<longleftrightarrow> m = k"
      using u j(3) by (metis fun_upd_same)
    then show ?thesis using True by simp
  next
    case False
    then show ?thesis using R [of qa k] j by auto
  qed
  moreover have "frame_owned ?s (R(pa \<mapsto> m)) = frame_owned s R" using pa by (auto simp: frame_owned_def)
  ultimately show ?thesis
    using frame_rep_refs [OF r j(1,2) m] raw e P by (intro frame_sysI [of _ fl ch]) (simp_all add: v)
qed

lemma frame_retain_sys:
  assumes "frame_sys s R"
  shows "R (pg_addr pa) = None \<Longrightarrow> frame_retain pa s = Some (s, -1)"
    and "R (pg_addr pa) = Some n \<Longrightarrow> n + 1 < 2 ^ 32 \<Longrightarrow>
      \<exists>s'. frame_retain pa s = Some (s', 0) \<and> frame_sys s' (R(pg_addr pa \<mapsto> n + 1)) \<and> f_pmm s' = f_pmm s"
proof -
  obtain fl ch where r: "frame_rep s fl ch"
    and R: "\<And>pa n. R pa = Some n \<longleftrightarrow> (\<exists>i \<in> slots s - set fl. fpa s i = pa \<and> frefs s i = n)"
    using frame_sysE [OF assms] by metis
  show "frame_retain pa s = Some (s, -1)" if "R (pg_addr pa) = None"
    by (rule frame_sys_slot [OF r R, of "pg_addr pa"]) (use that in \<open>simp_all add: frame_retain_def\<close>)
  show "\<exists>s'. frame_retain pa s = Some (s', 0) \<and> frame_sys s' (R(pg_addr pa \<mapsto> n + 1)) \<and> f_pmm s' = f_pmm s"
    if n: "R (pg_addr pa) = Some n" "n + 1 < 2 ^ 32"
  proof (rule frame_sys_slot [OF r R, of "pg_addr pa"])
    fix i m assume i: "frame_slot_locked (pg_addr pa) s = Some i" "0 \<le> i" "frefs s i = m"
      "R (pg_addr (pg_addr pa)) = Some m"
    then have "(fm_refs (frames s i) + 1) mod 2 ^ 32 = n + 1" using n by (simp add: frefs_def)
    then have "set_frame i (\<lambda>f. f\<lparr>fm_refs := (fm_refs f + 1) mod 2 ^ 32\<rparr>) s = set_frame i (\<lambda>f. f\<lparr>fm_refs := n + 1\<rparr>) s"
      by (simp add: set_frame_def)
    then have "frame_retain pa s = Some (set_frame i (\<lambda>f. f\<lparr>fm_refs := n + 1\<rparr>) s, 0)"
      using i by (simp add: frame_retain_def)
    then show ?thesis using frame_sys_refs [OF assms n(1) _ n(2) i(1)] by simp
  qed (use n in simp)
qed

lemma dec32_mod: "0 < n \<Longrightarrow> n < 2 ^ 32 \<Longrightarrow> (n + (2 ^ 32 - 1)) mod 2 ^ 32 = n - (1::nat)"
proof -
  assume n: "0 < n" "n < (2::nat) ^ 32"
  then have "n + (2 ^ 32 - 1) = n - 1 + 2 ^ 32" by simp
  then show ?thesis using n by (metis less_imp_diff_less mod_add_self2 mod_less)
qed

lemma pmm_free_outside: "p \<notin> pmm_arena q \<Longrightarrow> pmm_free_page q p = q"
  by (auto simp: pmm_free_page_def pmm_arena_def pmm_page_ok_def)

lemma pool_release:
  assumes "pmm_pool.pool_inv (f_pmm s) (frame_owned s R)" "R p = Some n" "f_pmm s' = pmm_free_page (f_pmm s) p"
  shows "pmm_pool.pool_inv (f_pmm s') (frame_owned s' (R(p := None)))"
proof -
  have o: "frame_owned s' (R(p := None)) = frame_owned s R - {p}"
    unfolding frame_owned_def assms(3) pmm_free_page_arena by auto
  show ?thesis
  proof (cases "p \<in> pmm_arena (f_pmm s)")
    case True
    then have "p \<in> frame_owned s R" using assms(2) by (auto simp: frame_owned_def)
    then show ?thesis unfolding o assms(3) by (rule pmm_pool.pool_free [OF assms(1)])
  next
    case False
    then have "frame_owned s R - {p} = frame_owned s R" by (auto simp: frame_owned_def)
    then show ?thesis unfolding o assms(3) using assms(1) pmm_free_outside [OF False] by simp
  qed
qed

lemma frame_release_sys:
  assumes "frame_sys s R"
  shows "R (pg_addr pa) = None \<Longrightarrow> frame_release pa s = Some s"
    and "R (pg_addr pa) = Some n \<Longrightarrow> \<exists>s'. frame_release pa s = Some s' \<and>
      frame_sys s' (R(pg_addr pa := if n = 1 then None else Some (n - 1)))"
proof -
  obtain fl ch where r: "frame_rep s fl ch" and raw: "\<forall>i \<in> slots s - set fl. fraw s i = 0"
    and R: "\<And>pa n. R pa = Some n \<longleftrightarrow> (\<exists>i \<in> slots s - set fl. fpa s i = pa \<and> frefs s i = n)"
    and e: "pmm_end (f_pmm s) \<le> 2 ^ 52" "pmm_inited (f_pmm s)"
    and P: "pmm_pool.pool_inv (f_pmm s) (frame_owned s R)"
    using frame_sysE [OF assms] by metis
  show "frame_release pa s = Some s" if "R (pg_addr pa) = None"
    by (rule frame_sys_slot [OF r R, of "pg_addr pa"]) (use that in \<open>simp_all add: frame_release_def\<close>)
  show "\<exists>s'. frame_release pa s = Some s' \<and> frame_sys s' (R(pg_addr pa := if n = 1 then None else Some (n - 1)))"
    if n: "R (pg_addr pa) = Some n"
  proof (rule frame_sys_slot [OF r R, of "pg_addr pa"])
    fix i m assume i: "frame_slot_locked (pg_addr pa) s = Some i" "0 \<le> i" "frefs s i = m" "i \<in> slots s"
      "i \<notin> set fl" "fpa s i = pg_addr (pg_addr pa)" "R (pg_addr (pg_addr pa)) = Some m" "0 < m" "m < 2 ^ 32"
    let ?p = "pg_addr pa"
    have m: "m = n" "0 < n" "n < 2 ^ 32" using i n by simp_all
    have "(fm_refs (frames s i) + (2 ^ 32 - 1)) mod 2 ^ 32 = n - 1"
      using i(3) dec32_mod [OF m(2,3)] m(1) unfolding frefs_def by metis
    then have s1: "set_frame i (\<lambda>f. f\<lparr>fm_refs := (fm_refs f + (2 ^ 32 - 1)) mod 2 ^ 32\<rparr>) s =
        set_frame i (\<lambda>f. f\<lparr>fm_refs := n - 1\<rparr>) s" by (simp add: set_frame_def)
    have fr: "fm_refs (frames (set_frame i (\<lambda>f. f\<lparr>fm_refs := n - 1\<rparr>) s) i) = n - 1"
      "fm_raw (frames (set_frame i (\<lambda>f. f\<lparr>fm_refs := n - 1\<rparr>) s) i) = 0"
      using raw i(4,5) by (simp_all add: set_frame_def fraw_def)
    show ?thesis
    proof (cases "n = 1")
      case False
      then have "frame_release pa s = Some (set_frame i (\<lambda>f. f\<lparr>fm_refs := n - 1\<rparr>) s)"
        using i(2) m(2) fr(1) unfolding frame_release_def Let_def i(1) option.case s1 by simp
      then show ?thesis using frame_sys_refs [OF assms n _ _ i(1)] False m by simp
    next
      case True
      obtain s2 where S: "frame_drop i (set_frame i (\<lambda>f. f\<lparr>fm_refs := 0\<rparr>) s) = Some s2"
        "frame_rep s2 (i # fl) (ch(frame_hash_pa (fpa s i) := remove1 i (ch (frame_hash_pa (fpa s i)))))"
        "slots s2 = slots s" "\<forall>j. j \<noteq> i \<longrightarrow> fpa s2 j = fpa s j \<and> frefs s2 j = frefs s j \<and> fraw s2 j = fraw s j"
        "f_pmm s2 = f_pmm s" using frame_rep_drop [OF r i(4,5)] by metis
      let ?s = "s2\<lparr>f_pmm := pmm_free_page (f_pmm s2) ?p\<rparr>"
      obtain s3 where s3: "frame_hash_remove_locked i (set_frame i (\<lambda>f. f\<lparr>fm_refs := 0\<rparr>) s) = Some s3"
        "s2 = frame_return_free_locked i s3" using S(1) by (auto simp: frame_drop_def)
      have rel: "frame_release pa s = Some ?s"
        using i(2) fr True s3 unfolding frame_release_def Let_def i(1) option.case s1 by simp
      have "(R(?p := None)) qa = Some k \<longleftrightarrow> (\<exists>l \<in> slots ?s - set (i # fl). fpa ?s l = qa \<and> frefs ?s l = k)" for qa k
      proof -
        have "fpa s l \<noteq> ?p" if "l \<in> slots s - set (i # fl)" for l
          using frame_repD(10) [OF r, of l i] that i(4-6) by auto
        then show ?thesis using R [of qa k] S(3,4) i(4-6) by (auto split: if_splits)
      qed
      moreover have "pmm_pool.pool_inv (f_pmm ?s) (frame_owned ?s (R(?p := None)))"
        by (rule pool_release [OF P n]) (simp add: S(5))
      moreover have "\<forall>l \<in> slots ?s - set (i # fl). fraw ?s l = 0" using raw S(3,4) by simp
      moreover have "pmm_end (f_pmm ?s) \<le> 2 ^ 52" "pmm_inited (f_pmm ?s)"
        using e S(5) by (simp_all add: pmm_free_rest)
      moreover have "frame_rep ?s (i # fl) (ch(frame_hash_pa (fpa s i) := remove1 i (ch (frame_hash_pa (fpa s i)))))"
        using S(2) by simp
      ultimately have "frame_sys ?s (R(?p := None))" by (intro frame_sysI)
      then show ?thesis using rel True by auto
    qed
  qed (use n in simp)
qed

lemma frame_adopt_sys:
  assumes "frame_sys s R" "pg_addr pa \<noteq> 0"
  shows "R (pg_addr pa) = Some n \<Longrightarrow> frame_adopt pa s = Some (s, 0)"
    and "R (pg_addr pa) = None \<Longrightarrow> pg_addr pa \<notin> pmm_arena (f_pmm s) \<Longrightarrow>
      frame_adopt pa s = Some (s, -1) \<or>
      (\<exists>s'. frame_adopt pa s = Some (s', 0) \<and> frame_sys s' (R(pg_addr pa \<mapsto> 1)))"
proof -
  obtain fl ch where r: "frame_rep s fl ch" and raw: "\<forall>i \<in> slots s - set fl. fraw s i = 0"
    and R: "\<And>pa n. R pa = Some n \<longleftrightarrow> (\<exists>i \<in> slots s - set fl. fpa s i = pa \<and> frefs s i = n)"
    and e: "pmm_end (f_pmm s) \<le> 2 ^ 52" "pmm_inited (f_pmm s)"
    and P: "pmm_pool.pool_inv (f_pmm s) (frame_owned s R)"
    using frame_sysE [OF assms(1)] by metis
  have fp: "frames_p s \<noteq> 0" using frame_repD(1) [OF r] .
  show "frame_adopt pa s = Some (s, 0)" if "R (pg_addr pa) = Some n"
    by (rule frame_sys_slot [OF r R, of "pg_addr pa"])
       (use that fp assms(2) in \<open>simp_all add: frame_adopt_def\<close>)
  show "frame_adopt pa s = Some (s, -1) \<or> (\<exists>s'. frame_adopt pa s = Some (s', 0) \<and> frame_sys s' (R(pg_addr pa \<mapsto> 1)))"
    if n: "R (pg_addr pa) = None" "pg_addr pa \<notin> pmm_arena (f_pmm s)"
  proof -
    have sl: "frame_slot_locked (pg_addr pa) s = Some (-1)"
      by (rule frame_sys_slot [OF r R, of "pg_addr pa"]) (use n in simp_all)
    show ?thesis
    proof (cases fl)
      case Nil
      then have "frame_free_head s = -1" using frame_repD(3) [OF r] by simp
      then show ?thesis using sl fp assms(2) by (simp add: frame_adopt_def frame_take_free_locked_def Let_def)
    next
      case (Cons i fl')
      have own: "frame_owned s (R(pg_addr pa \<mapsto> 1)) = frame_owned s R"
        using n(2) by (auto simp: frame_owned_def)
      have I: "snd (frame_take_free_locked s) = i" "0 \<le> i"
        "frame_sys (frame_install i (pg_addr pa) 0 (fst (frame_take_free_locked s))) (R(pg_addr pa \<mapsto> 1))"
        by (rule frame_sys_install [where R = R and page = "pg_addr pa" and s = s and fl = fl' and ch = ch];
            use r n(1) raw R e P own Cons in simp)+
      then have "frame_adopt pa s = Some (frame_install i (pg_addr pa) 0 (fst (frame_take_free_locked s)), 0)"
        using sl fp assms(2) by (simp add: frame_adopt_def frame_install_def case_prod_unfold Let_def)
      then show ?thesis using I(3) by auto
    qed
  qed
qed

section \<open>Initialisation\<close>

lemma frame_init_loop_spec:
  assumes "linked (flink s) (-1) (frame_free_head s) xs" "\<forall>x\<in>set xs. int n \<le> x"
  defines "t \<equiv> frame_init_loop n s"
  shows "linked (flink t) (-1) (frame_free_head t) (map int [0..<n] @ xs) \<and> fpa t = fpa s \<and>
    frefs t = frefs s \<and> fraw t = fraw s \<and> frame_hash t = frame_hash s \<and> frames_p t = frames_p s \<and>
    frame_hash_p t = frame_hash_p s \<and> frames_cap t = frames_cap s \<and> f_pmm t = f_pmm s \<and> f_heap t = f_heap s"
  using assms(1,2) unfolding t_def
proof (induction n arbitrary: s xs)
  case (Suc n)
  let ?s = "(set_frame (int n) (\<lambda>m. m\<lparr>fm_link := frame_free_head s\<rparr>) s)\<lparr>frame_free_head := int n\<rparr>"
  have v: "flink ?s = (flink s)(int n := frame_free_head s)" "fpa ?s = fpa s" "frefs ?s = frefs s" "fraw ?s = fraw s"
    by (auto simp: set_frame_def fview_defs fun_eq_iff)
  have "int n \<notin> set xs" using Suc.prems(2) by auto
  then have l: "linked (flink ?s) (-1) (frame_free_head ?s) (int n # xs)" using Suc.prems(1) by (simp add: v)
  have "\<forall>x\<in>set (int n # xs). int n \<le> x" using Suc.prems(2) by auto
  from Suc.IH [OF l this] show ?case by (simp add: v)
qed simp

text \<open>After \<open>frame_init\<close> on a carved pool, when both tables could be allocated, nothing is tracked.\<close>

lemma frame_init_sys:
  assumes i: "frame_init caller s = Some s'" and p: "frames_p s' \<noteq> 0" "frame_hash_p s' \<noteq> 0"
    and e: "pmm_end (f_pmm s) \<le> 2 ^ 52" "pmm_inited (f_pmm s)" "pmm_pool.pool_inv (f_pmm s) {}"
  shows "frame_sys s' Map.empty" "f_pmm s' = f_pmm s"
proof -
  obtain h3 p2 hp cap where k: "s' = frame_init_tables h3 p2 cap hp s"
    using i unfolding frame_init_def by (auto split: option.splits prod.splits if_splits)
  define s1 where "s1 = s\<lparr>f_heap := h3, frames_p := p2, frames_cap := cap,
        frames := (if p2 \<noteq> 0 then (\<lambda>i. if 0 \<le> i \<and> i < int cap
            then \<lparr>fm_pa = 0, fm_raw = 0, fm_refs = 0, fm_link = 0\<rparr> else frames s i) else frames s),
        frame_hash_p := hp,
        frame_hash := (if hp \<noteq> 0 then (\<lambda>h. if h < FRAME_HASH_SIZE then -1 else frame_hash s h) else frame_hash s),
        frame_free_head := -1\<rparr>"
  have L: "linked (flink (frame_init_loop cap s1)) (-1) (frame_free_head (frame_init_loop cap s1)) (map int [0..<cap] @ []) \<and>
    frame_hash (frame_init_loop cap s1) = frame_hash s1 \<and> frames_p (frame_init_loop cap s1) = p2 \<and>
    frame_hash_p (frame_init_loop cap s1) = hp \<and> frames_cap (frame_init_loop cap s1) = cap \<and>
    f_pmm (frame_init_loop cap s1) = f_pmm s"
    using frame_init_loop_spec [of s1 "[]" cap] by (simp add: s1_def)
  have "p2 \<noteq> 0"
  proof
    assume "p2 = 0" then have "frames_p s' = 0" using k by (simp add: frame_init_tables_def Let_def)
    then show False using p(1) by simp
  qed
  then have s': "s' = frame_init_loop cap s1" using k by (simp add: s1_def frame_init_tables_def Let_def)
  then have hp: "hp \<noteq> 0" using p(2) L by simp
  have sl: "slots s' = {0..<int cap}" using L by (simp add: slots_def s')
  have im: "set (map int [0..<cap]) = {0..<int cap}" by (simp add: image_int_atLeastLessThan)
  have hs: "frame_hash s' h = -1" if "h < FRAME_HASH_SIZE" for h
    using L hp that by (simp add: s' s1_def)
  have r: "frame_rep s' (map int [0..<cap]) (\<lambda>_. [])"
    unfolding frame_rep_def im sl using L p hs by (simp add: s')
  show f: "f_pmm s' = f_pmm s" using L by (simp add: s')
  show "frame_sys s' Map.empty"
    by (rule frame_sysI [OF r]) (use e f im sl in \<open>simp_all add: frame_owned_def\<close>)
qed

section \<open>The frame layer under its clients\<close>

text \<open>
  \<open>frame_step\<close>: clients allocate (zeroed or not), share and drop the frames they hold a reference to,
  adopt pages outside the pool's arena, and write to arena pages they hold. \<open>R\<close> counts references.
\<close>

inductive frame_step ::
    "frame_state \<times> (addr \<Rightarrow> nat option) \<Rightarrow> frame_state \<times> (addr \<Rightarrow> nat option) \<Rightarrow> bool" where
  FAlloc: "frame_alloc caller s = Some (s', p) \<Longrightarrow> frame_step (s, R) (s', if p = 0 then R else R(p \<mapsto> 1))"
| FAllocZero: "frame_alloc_zero caller s = Some (s', p) \<Longrightarrow>
    frame_step (s, R) (s', if p = 0 then R else R(p \<mapsto> 1))"
| FRetain: "R (pg_addr pa) = Some n \<Longrightarrow> n + 1 < 2 ^ 32 \<Longrightarrow> frame_retain pa s = Some (s', rc) \<Longrightarrow>
    frame_step (s, R) (s', R(pg_addr pa \<mapsto> n + 1))"
| FRelease: "R (pg_addr pa) = Some n \<Longrightarrow> frame_release pa s = Some s' \<Longrightarrow>
    frame_step (s, R) (s', R(pg_addr pa := if n = 1 then None else Some (n - 1)))"
| FAdopt: "pg_addr pa \<noteq> 0 \<Longrightarrow> pg_addr pa \<notin> pmm_arena (f_pmm s) \<Longrightarrow> frame_adopt pa s = Some (s', rc) \<Longrightarrow>
    frame_step (s, R) (s', if rc = 0 \<and> R (pg_addr pa) = None then R(pg_addr pa \<mapsto> 1) else R)"
| FWrite: "R p = Some n \<Longrightarrow> p \<in> pmm_arena (f_pmm s) \<Longrightarrow>
    frame_step (s, R) (s\<lparr>f_pmm := pmm_client_write (f_pmm s) p v\<rparr>, R)"

inductive frame_reachable :: "frame_state \<Rightarrow> (addr \<Rightarrow> nat option) \<Rightarrow> bool" where
  FBoot: "pmm_boot_ok lo hi \<Longrightarrow> f_pmm s = pmm_init lo hi q \<Longrightarrow> frame_init caller s = Some s' \<Longrightarrow>
    frames_p s' \<noteq> 0 \<Longrightarrow> frame_hash_p s' \<noteq> 0 \<Longrightarrow> frame_reachable s' Map.empty"
| FStep: "frame_reachable s R \<Longrightarrow> frame_step (s, R) (s', R') \<Longrightarrow> frame_reachable s' R'"

lemma page_inner_unaligned:
  "p mod 4096 = 0 \<Longrightarrow> a mod 4096 = 0 \<Longrightarrow> p \<le> a \<Longrightarrow> a < p + 4096 \<Longrightarrow> a = (p::nat)"
proof -
  assume *: "p mod 4096 = 0" "a mod 4096 = 0" "p \<le> a" "a < p + 4096"
  then obtain k where k: "a = p + k" by (auto simp: le_iff_add)
  with * have "k < 4096" by simp
  moreover have "a mod 4096 = (p mod 4096 + k) mod 4096" using k by (simp add: mod_add_left_eq)
  ultimately show ?thesis using * k by simp
qed

lemma pool_zero_page:
  assumes "pmm_pool.pool_inv q own" "p \<in> own"
  shows "pmm_pool.pool_inv (q\<lparr>pmm_mem := (\<lambda>a. if p \<le> a \<and> a < p + PAGE_SIZE_4K then 0 else pmm_mem q a)\<rparr>) own"
proof -
  let ?m = "\<lambda>a. if p \<le> a \<and> a < p + PAGE_SIZE_4K then 0 else pmm_mem q a"
  obtain ps where ps: "pmm_rep q ps" "set ps \<inter> own = {}" "set ps \<union> own = pmm_arena q"
    using assms(1) unfolding pmm_pool.pool_inv_def by blast
  have "p \<in> pmm_arena q" using ps(3) assms(2) by blast
  then have pa: "p mod 4096 = 0" by (simp add: pmm_arena_def pmm_page_ok_def PAGE_SIZE_4K_def)
  have "?m x = pmm_mem q x" if "x \<in> set ps" for x
  proof -
    have "x \<noteq> p" "x mod 4096 = 0"
      using that ps assms(2) by (auto simp: pmm_rep_def pmm_page_ok_def PAGE_SIZE_4K_def)
    then show ?thesis using page_inner_unaligned [OF pa, of x] by (auto simp: PAGE_SIZE_4K_def)
  qed
  then have "linked ?m 0 (pmm_free_head q) ps = linked (pmm_mem q) 0 (pmm_free_head q) ps"
    by (intro linked_cong)
  then have "pmm_rep (q\<lparr>pmm_mem := ?m\<rparr>) ps" using ps(1) by (simp add: pmm_rep_def pmm_page_ok_def)
  moreover have "pmm_arena (q\<lparr>pmm_mem := ?m\<rparr>) = pmm_arena q" by (rule pmm_arena_cong) simp_all
  ultimately show ?thesis unfolding pmm_pool.pool_inv_def using ps(2,3) by (intro exI [of _ ps]) simp
qed

lemma frame_sys_mem:
  assumes "frame_sys s R" and q: "pmm_pool.pool_inv q (frame_owned s R)"
    and "pmm_end q = pmm_end (f_pmm s)" "pmm_base q = pmm_base (f_pmm s)" "pmm_inited q = pmm_inited (f_pmm s)"
  shows "frame_sys (s\<lparr>f_pmm := q, f_heap := h\<rparr>) R"
proof -
  let ?s = "s\<lparr>f_pmm := q, f_heap := h\<rparr>"
  have "frame_rep ?s fl ch = frame_rep s fl ch" "fpa ?s = fpa s" "frefs ?s = frefs s" "fraw ?s = fraw s"
    "slots ?s = slots s" for fl ch by (simp_all add: frame_rep_def slots_def fview_defs)
  moreover have "frame_owned ?s R = frame_owned s R"
    using pmm_arena_cong [OF assms(4,3)] by (simp add: frame_owned_def)
  ultimately show ?thesis using assms unfolding frame_sys_def by simp
qed

lemma frame_alloc_zero_sys:
  assumes "frame_sys s R" "frame_alloc_zero caller s = Some (s', p)"
  shows "frame_sys s' (if p = 0 then R else R(p \<mapsto> 1))"
proof -
  obtain s1 p1 where a: "frame_alloc caller s = Some (s1, p1)" "pmm_arena (f_pmm s1) = pmm_arena (f_pmm s)"
    "if p1 = 0 then frame_sys s1 R else p1 \<in> pmm_arena (f_pmm s) \<and> R p1 = None \<and> frame_sys s1 (R(p1 \<mapsto> 1))"
    using frame_alloc_sys [OF assms(1)] by blast
  have z: "p1 = p" "s' = (if p = 0 then s1 else page_zero p s1)"
    using assms(2) a(1) by (auto simp: frame_alloc_zero_def)
  show ?thesis
  proof (cases "p = 0")
    case False
    then have f: "frame_sys s1 (R(p \<mapsto> 1))" using a z by simp
    have P: "pmm_pool.pool_inv (f_pmm s1) (frame_owned s1 (R(p \<mapsto> 1)))" using frame_sysE [OF f] by metis
    have "p \<in> frame_owned s1 (R(p \<mapsto> 1))" using a z False by (simp add: frame_owned_def)
    from frame_sys_mem [OF f pool_zero_page [OF P this]] show ?thesis
      using False z by (simp add: page_zero_def)
  qed (use a z in simp)
qed

lemma frame_step_inv:
  assumes "frame_step (s, R) (s', R')" "frame_sys s R"
  shows "frame_sys s' R'"
  using assms(1)
proof cases
  case (FAlloc caller p)
  then show ?thesis using frame_alloc_sys [OF assms(2), of caller] by auto
next
  case (FAllocZero caller p)
  then show ?thesis using frame_alloc_zero_sys [OF assms(2)] by simp
next
  case (FRetain pa n rc)
  then show ?thesis using frame_retain_sys(2) [OF assms(2), of pa n] by auto
next
  case (FRelease pa n)
  then show ?thesis using frame_release_sys(2) [OF assms(2), of pa n] by auto
next
  case (FAdopt pa rc)
  show ?thesis
  proof (cases "R (pg_addr pa)")
    case None
    then show ?thesis using FAdopt frame_adopt_sys(2) [OF assms(2) FAdopt(2) None FAdopt(3)] assms(2) by auto
  next
    case (Some n)
    then show ?thesis using FAdopt frame_adopt_sys(1) [OF assms(2) FAdopt(2) Some] assms(2) by auto
  qed
next
  case (FWrite p n v)
  have P: "pmm_pool.pool_inv (f_pmm s) (frame_owned s R)" using frame_sysE [OF assms(2)] by metis
  have "p \<in> frame_owned s R" using FWrite by (auto simp: frame_owned_def)
  from frame_sys_mem [OF assms(2) pmm_pool.pool_store [OF P this, of v], of "f_heap s"] show ?thesis
    using FWrite(1,2) by (simp add: pmm_client_write_def)
qed

lemma frame_reachable_sys: "frame_reachable s R \<Longrightarrow> frame_sys s R"
proof (induction rule: frame_reachable.induct)
  case (FBoot lo hi s q caller s')
  have "pmm_end (f_pmm s) \<le> 2 ^ 52"
    using pmm_init_pool(3) [OF FBoot(1), of q] FBoot(2) by (simp add: boot_hi_def MMIO_IDENTITY_LIMIT_def)
  moreover have P: "pmm_pool.pool_inv (f_pmm s) {}" using pmm_init_pool(1) [OF FBoot(1)] FBoot(2) by simp
  moreover have "pmm_inited (f_pmm s)"
    using P by (auto simp: pmm_pool.pool_inv_def pmm_rep_def)
  ultimately show ?case using frame_init_sys(1) [OF FBoot(3-5)] by blast
qed (use frame_step_inv in blast)

lemma frame_pool_account:
  assumes "frame_sys s R"
  shows "pmm_free_pages (f_pmm s) + card (frame_owned s R) = card (pmm_arena (f_pmm s))"
    "finite (frame_owned s R)"
proof -
  have "pmm_pool.pool_inv (f_pmm s) (frame_owned s R)" using frame_sysE [OF assms] by metis
  then obtain ps where ps: "pmm_rep (f_pmm s) ps" "set ps \<inter> frame_owned s R = {}"
    "set ps \<union> frame_owned s R = pmm_arena (f_pmm s)" unfolding pmm_pool.pool_inv_def by blast
  have "pmm_arena (f_pmm s) \<subseteq> {..<pmm_end (f_pmm s)}" by (auto simp: pmm_arena_def pmm_page_ok_def)
  then have fin: "finite (pmm_arena (f_pmm s))" using finite_subset by blast
  then show "finite (frame_owned s R)" by (simp add: frame_owned_def)
  then have "card (set ps) + card (frame_owned s R) = card (pmm_arena (f_pmm s))"
    using card_Un_disjoint [of "set ps" "frame_owned s R"] ps(2,3) by simp
  moreover have "card (set ps) = pmm_free_pages (f_pmm s)"
    using ps(1) pmm_pool.rep_distinct [OF ps(1)] by (simp add: pmm_rep_def distinct_card pmm_free_pages_def)
  ultimately show "pmm_free_pages (f_pmm s) + card (frame_owned s R) = card (pmm_arena (f_pmm s))" by simp
qed

section \<open>Properties\<close>

definition demo_frames :: frame_state where
  "demo_frames = the (frame_init 7 (demo_frame0 (pmm_init 4096 16384 demo_boot)))"

lemma demo_frames_reachable: "frame_reachable demo_frames Map.empty"
proof -
  let ?s = "demo_frame0 (pmm_init 4096 16384 demo_boot)"
  have i: "frame_init 7 ?s = Some demo_frames" "frames_p demo_frames \<noteq> 0" "frame_hash_p demo_frames \<noteq> 0"
    using demo_frame_init [of "pmm_init 4096 16384 demo_boot"] unfolding demo_frames_def
    by (cases "frame_init 7 ?s"; simp)+
  show ?thesis by (rule FBoot [OF demo_boot_ok _ i]) (simp add: demo_frame0_def)
qed

text \<open>C11. However clients allocate, share, drop and write to frames, \<open>frame_alloc\<close> always returns, and a
  page it hands out has no reference left: its count was 0 before and is 1 after, and the page is a
  4 KiB aligned page of the pool.\<close>

theorem frame_alloc_unreferenced:
  assumes "frame_reachable s R"
  shows "\<exists>s' p. frame_alloc caller s = Some (s', p) \<and>
     (p \<noteq> 0 \<longrightarrow> frame_refcount p s = Some 0 \<and> frame_refcount p s' = Some 1 \<and>
        p mod PAGE_SIZE_4K = 0 \<and> pmm_base (f_pmm s) \<le> p \<and> p < pmm_end (f_pmm s))"
proof -
  have f: "frame_sys s R" using frame_reachable_sys [OF assms] .
  obtain s' p where a: "frame_alloc caller s = Some (s', p)"
    "if p = 0 then frame_sys s' R else p \<in> pmm_arena (f_pmm s) \<and> R p = None \<and> frame_sys s' (R(p \<mapsto> 1))"
    using frame_alloc_sys [OF f] by blast
  have "pmm_end (f_pmm s) \<le> 2 ^ 52" using frame_sysE [OF f] by metis
  then show ?thesis using a frame_refcount_sys [OF f, of p] frame_refcount_sys [of s' "R(p \<mapsto> 1)" p]
      pmm_arena_pg [of p "f_pmm s"]
    by (intro exI [of _ s'] exI [of _ p]) (auto simp: pmm_arena_def pmm_page_ok_def)
qed

theorem frame_alloc_unreferenced_witness:
  "\<exists>s' p. frame_alloc 7 demo_frames = Some (s', p) \<and> (p \<noteq> 0 \<longrightarrow> frame_refcount p demo_frames = Some 0)"
  using frame_alloc_unreferenced [OF demo_frames_reachable, of 7] by blast

text \<open>C12. The hash table with its free list implements a reference counter: in every reachable state
  \<open>frame_refcount\<close> is the number of references the clients hold, \<open>frame_retain\<close> and \<open>frame_release\<close>
  return, and they change the count of that page by one and no other count; an untracked page is refused
  by \<open>frame_retain\<close> and ignored by \<open>frame_release\<close>.\<close>

theorem frame_counts_refine:
  assumes "frame_reachable s R"
  defines "count \<equiv> \<lambda>pa. case R (pg_addr pa) of None \<Rightarrow> 0 | Some n \<Rightarrow> n"
  shows "frame_refcount pa s = Some (count pa) \<and>
    (count pa + 1 < 2 ^ 32 \<longrightarrow> (\<exists>s' rc. frame_retain pa s = Some (s', rc) \<and> (rc = 0 \<longleftrightarrow> 0 < count pa) \<and>
       frame_refcount qa s' = Some (count qa + (if rc = 0 \<and> pg_addr qa = pg_addr pa then 1 else 0)))) \<and>
    (\<exists>s'. frame_release pa s = Some s' \<and>
       frame_refcount qa s' = Some (count qa - (if pg_addr qa = pg_addr pa then 1 else 0)))"
proof -
  have f: "frame_sys s R" using frame_reachable_sys [OF assms(1)] .
  have c: "frame_refcount x s = Some (count x)" for x
    using frame_refcount_sys [OF f] by (simp add: count_def)
  have pos: "0 < n" if "R (pg_addr pa) = Some n" for n
    using frame_sysE [OF f] frame_repD(7) that by (metis Diff_iff)
  show ?thesis
  proof (cases "R (pg_addr pa)")
    case None
    then show ?thesis using c frame_retain_sys(1) [OF f None] frame_release_sys(1) [OF f None]
      by (auto simp: count_def)
  next
    case (Some n)
    obtain s2 where l: "frame_release pa s = Some s2"
      "frame_sys s2 (R(pg_addr pa := if n = 1 then None else Some (n - 1)))"
      using frame_release_sys(2) [OF f Some] by blast
    have "\<exists>s'. frame_retain pa s = Some (s', 0) \<and> frame_sys s' (R(pg_addr pa \<mapsto> n + 1))" if "n + 1 < 2 ^ 32"
      using frame_retain_sys(2) [OF f Some that] by blast
    then show ?thesis
      using c l(1) frame_refcount_sys [OF l(2), of qa] Some pos [OF Some] frame_refcount_sys [of _ "R(pg_addr pa \<mapsto> n + 1)" qa]
      by (fastforce simp: count_def split: option.splits if_splits)
  qed
qed

theorem frame_counts_refine_witness:
  "frame_refcount 4096 demo_frames = Some 0 \<and> (\<exists>s'. frame_release 4096 demo_frames = Some s')"
  using frame_counts_refine [OF demo_frames_reachable, of 4096] by auto

text \<open>C13. No page is lost: in every reachable state the pages on the pool's free list and the pages of the
  arena with a reference add up to the arena, and dropping the last reference to an arena page puts
  exactly that page back on the free list.\<close>

theorem frame_no_page_leak:
  assumes "frame_reachable s R"
  shows "pmm_free_pages (f_pmm s) + card {p \<in> pmm_arena (f_pmm s). frame_refcount p s \<noteq> Some 0} =
      card (pmm_arena (f_pmm s)) \<and>
    (p \<in> pmm_arena (f_pmm s) \<longrightarrow> frame_refcount p s = Some 1 \<longrightarrow>
      (\<exists>s'. frame_release p s = Some s' \<and> frame_refcount p s' = Some 0))"
proof -
  have f: "frame_sys s R" using frame_reachable_sys [OF assms] .
  have e: "pmm_end (f_pmm s) \<le> 2 ^ 52" using frame_sysE [OF f] by metis
  have pos: "0 < n" if "R p = Some n" for n p
    using frame_sysE [OF f] frame_repD(7) that by (metis Diff_iff)
  have "{p \<in> pmm_arena (f_pmm s). frame_refcount p s \<noteq> Some 0} = frame_owned s R"
    using frame_refcount_sys [OF f] pmm_arena_pg [OF _ e] pos
    by (auto simp: frame_owned_def split: option.splits)
  moreover have "\<exists>s'. frame_release p s = Some s' \<and> frame_refcount p s' = Some 0"
    if p: "p \<in> pmm_arena (f_pmm s)" "frame_refcount p s = Some 1"
  proof -
    have "R (pg_addr p) = Some 1"
      using p(2) frame_refcount_sys [OF f, of p] by (auto split: option.splits)
    from frame_release_sys(2) [OF f this] show ?thesis using frame_refcount_sys by fastforce
  qed
  ultimately show ?thesis using frame_pool_account(1) [OF f] by simp
qed

theorem frame_no_page_leak_witness:
  "pmm_free_pages (f_pmm demo_frames) + card {p \<in> pmm_arena (f_pmm demo_frames). frame_refcount p demo_frames \<noteq> Some 0} =
     card (pmm_arena (f_pmm demo_frames))"
  using frame_no_page_leak [OF demo_frames_reachable] by blast

end
