(* ===== verification/LibcString.thy ===== *)
theory LibcString
  imports Prelude "HOL-Library.Monad_Syntax" "HOL-Library.Signed_Division" "HOL-Library.Sublist"
begin

text \<open>
  The kernel's string library, \<open>libc/string.c\<close>. A function of the C file that writes takes the
  memory and returns the new one; a scan that only a terminating 0 byte stops is a
  \<open>partial_function\<close> into \<open>option\<close>, so that running on forever is the value \<open>None\<close>, and the
  lemmas show that a C string in memory makes it return. Pointers are addresses and an object
  does not wrap around the address space (C gives no meaning to one that does); \<open>char\<close> is signed,
  as it is on x86-64.
\<close>

section \<open>Model\<close>

subsection \<open>Length and copying\<close>

partial_function (option) strlen_loop :: "cmem \<Rightarrow> addr \<Rightarrow> nat \<Rightarrow> nat option" where
  "strlen_loop m str len =
     (if m (str + len) \<noteq> 0 then strlen_loop m str (len + 1) else Some len)"

definition strlen :: "cmem \<Rightarrow> addr \<Rightarrow> nat option" where
  "strlen m str = strlen_loop m str 0"

text \<open>The copying loop that \<open>strcpy\<close> and \<open>strcat\<close> share.\<close>

partial_function (option) copy_loop :: "cmem \<Rightarrow> addr \<Rightarrow> addr \<Rightarrow> (cmem \<times> addr) option" where
  "copy_loop m ptr src =
     (if m src \<noteq> 0 then copy_loop (m(ptr := m src)) (ptr + 1) (src + 1) else Some (m, ptr))"

definition strcpy :: "cmem \<Rightarrow> addr \<Rightarrow> addr \<Rightarrow> (cmem \<times> addr) option" where
  "strcpy m dest src = do {
     (m, ptr) \<leftarrow> copy_loop m dest src;
     Some (m(ptr := 0), dest)
   }"

definition strcat :: "cmem \<Rightarrow> addr \<Rightarrow> addr \<Rightarrow> (cmem \<times> addr) option" where
  "strcat m dest src = do {
     len \<leftarrow> strlen m dest;
     (m, ptr) \<leftarrow> copy_loop m (dest + len) src;
     Some (m(ptr := 0), dest)
   }"

text \<open>The bounded copying loop of \<open>strncpy\<close> and \<open>strncat\<close>, and the padding loop of \<open>strncpy\<close>.\<close>

function ncopy_loop :: "cmem \<Rightarrow> addr \<Rightarrow> addr \<Rightarrow> nat \<Rightarrow> nat \<Rightarrow> cmem \<times> addr \<times> nat" where
  "ncopy_loop m ptr src i n =
     (if i < n \<and> m src \<noteq> 0 then ncopy_loop (m(ptr := m src)) (ptr + 1) (src + 1) (i + 1) n
      else (m, ptr, i))"
  by pat_completeness auto
termination
  by (relation "measure (\<lambda>(m, ptr, src, i, n). n - i)") auto

function pad_loop :: "cmem \<Rightarrow> addr \<Rightarrow> nat \<Rightarrow> nat \<Rightarrow> cmem" where
  "pad_loop m ptr i n = (if i < n then pad_loop (m(ptr := 0)) (ptr + 1) (i + 1) n else m)"
  by pat_completeness auto
termination
  by (relation "measure (\<lambda>(m, ptr, i, n). n - i)") auto

declare ncopy_loop.simps [simp del] pad_loop.simps [simp del]

definition strncpy :: "cmem \<Rightarrow> addr \<Rightarrow> addr \<Rightarrow> nat \<Rightarrow> cmem \<times> addr" where
  "strncpy m dest src n =
     (let (m, ptr, i) = ncopy_loop m dest src 0 n
      in (pad_loop m ptr i n, dest))"

definition strncat :: "cmem \<Rightarrow> addr \<Rightarrow> addr \<Rightarrow> nat \<Rightarrow> (cmem \<times> addr) option" where
  "strncat m dest src n = do {
     len \<leftarrow> strlen m dest;
     let (m, ptr, i) = ncopy_loop m (dest + len) src 0 n;
     Some (m(ptr := 0), dest)
   }"

function strnlen_loop :: "cmem \<Rightarrow> addr \<Rightarrow> nat \<Rightarrow> nat \<Rightarrow> nat" where
  "strnlen_loop m s maxlen i =
     (if i < maxlen \<and> m (s + i) \<noteq> 0 then strnlen_loop m s maxlen (i + 1) else i)"
  by pat_completeness auto
termination
  by (relation "measure (\<lambda>(m, s, maxlen, i). maxlen - i)") auto

declare strnlen_loop.simps [simp del]

definition strnlen :: "cmem \<Rightarrow> addr \<Rightarrow> nat \<Rightarrow> nat" where
  "strnlen m s maxlen = (if s = 0 then 0 else strnlen_loop m s maxlen 0)"

subsection \<open>Comparing and searching\<close>

partial_function (option) strcmp :: "cmem \<Rightarrow> addr \<Rightarrow> addr \<Rightarrow> int option" where
  "strcmp m str1 str2 =
     (if m str1 \<noteq> 0 \<and> m str2 \<noteq> 0 then
        (if m str1 \<noteq> m str2 then Some (if sint (m str1) < sint (m str2) then - 1 else 1)
         else strcmp m (str1 + 1) (str2 + 1))
      else if m str1 = 0 \<and> m str2 = 0 then Some 0
      else Some (if m str1 = 0 then - 1 else 1))"

function strncmp_loop :: "cmem \<Rightarrow> addr \<Rightarrow> addr \<Rightarrow> nat \<Rightarrow> nat \<Rightarrow> int" where
  "strncmp_loop m str1 str2 i n =
     (if i < n \<and> m str1 \<noteq> 0 \<and> m str2 \<noteq> 0 then
        (if m str1 \<noteq> m str2 then (if sint (m str1) < sint (m str2) then - 1 else 1)
         else strncmp_loop m (str1 + 1) (str2 + 1) (i + 1) n)
      else if i = n then 0
      else if m str1 = 0 \<and> m str2 = 0 then 0
      else if m str1 = 0 then - 1 else 1)"
  by pat_completeness auto
termination
  by (relation "measure (\<lambda>(m, s1, s2, i, n). n - i)") auto

declare strncmp_loop.simps [simp del]

definition strncmp :: "cmem \<Rightarrow> addr \<Rightarrow> addr \<Rightarrow> nat \<Rightarrow> int" where
  "strncmp m str1 str2 n = strncmp_loop m str1 str2 0 n"

text \<open>The character argument is an \<open>int\<close>; it is compared after the cast to \<open>char\<close>, but tested
  against 0 before it.\<close>

partial_function (option) strchr :: "cmem \<Rightarrow> addr \<Rightarrow> int \<Rightarrow> addr option" where
  "strchr m str c =
     (if m str \<noteq> 0 then
        (if m str = word_of_int c then Some str else strchr m (str + 1) c)
      else if c = 0 then Some str
      else Some 0)"

partial_function (option) strrchr_loop :: "cmem \<Rightarrow> addr \<Rightarrow> int \<Rightarrow> addr \<Rightarrow> addr option" where
  "strrchr_loop m str c lst =
     (if m str \<noteq> 0 then
        strrchr_loop m (str + 1) c (if m str = word_of_int c then str else lst)
      else if c = 0 then Some str
      else Some lst)"

definition strrchr :: "cmem \<Rightarrow> addr \<Rightarrow> int \<Rightarrow> addr option" where
  "strrchr m str c = strrchr_loop m str c 0"

text \<open>The inner loop of \<open>strstr\<close>; its result is the value of \<open>n\<close> on exit.\<close>

partial_function (option) strstr_match :: "cmem \<Rightarrow> addr \<Rightarrow> addr \<Rightarrow> addr option" where
  "strstr_match m h n =
     (if m h \<noteq> 0 \<and> m n \<noteq> 0 \<and> m h = m n then strstr_match m (h + 1) (n + 1) else Some n)"

partial_function (option) strstr_loop :: "cmem \<Rightarrow> addr \<Rightarrow> addr \<Rightarrow> addr option" where
  "strstr_loop m haystack needle =
     (if m haystack \<noteq> 0 then do {
        n \<leftarrow> strstr_match m haystack needle;
        if m n = 0 then Some haystack else strstr_loop m (haystack + 1) needle
      }
      else Some 0)"

definition strstr :: "cmem \<Rightarrow> addr \<Rightarrow> addr \<Rightarrow> addr option" where
  "strstr m haystack needle =
     (if m needle = 0 then Some haystack else strstr_loop m haystack needle)"

subsection \<open>Memory blocks\<close>

text \<open>\<open>rep movsb\<close> with the direction flag clear and the loop both copy one byte at a time, in
  ascending order.\<close>

fun memcpy_loop :: "cmem \<Rightarrow> addr \<Rightarrow> addr \<Rightarrow> nat \<Rightarrow> cmem" where
  "memcpy_loop m d s 0 = m"
| "memcpy_loop m d s (Suc n) = memcpy_loop (m(d := m s)) (d + 1) (s + 1) n"

definition memcpy :: "cmem \<Rightarrow> addr \<Rightarrow> addr \<Rightarrow> nat \<Rightarrow> cmem \<times> addr" where
  "memcpy m dest src n = (memcpy_loop m dest src n, dest)"

function memmove_words :: "cmem \<Rightarrow> addr \<Rightarrow> addr \<Rightarrow> nat \<Rightarrow> cmem \<times> nat" where
  "memmove_words m d s n =
     (if 8 \<le> n then memmove_words (mput m (d + (n - 8)) (mget m (s + (n - 8)) 8)) d s (n - 8)
      else (m, n))"
  by pat_completeness auto
termination
  by (relation "measure (\<lambda>(m, d, s, n). n)") auto

declare memmove_words.simps [simp del]

fun memmove_bytes :: "cmem \<Rightarrow> addr \<Rightarrow> addr \<Rightarrow> nat \<Rightarrow> cmem" where
  "memmove_bytes m d s 0 = m"
| "memmove_bytes m d s (Suc n) = memmove_bytes (m(d + n := m (s + n))) d s n"

definition memmove :: "cmem \<Rightarrow> addr \<Rightarrow> addr \<Rightarrow> nat \<Rightarrow> cmem \<times> addr" where
  "memmove m dest src n =
     (if dest < src then memcpy m dest src n
      else if dest > src then
        (let (m, n) = memmove_words m dest src n in (memmove_bytes m dest src n, dest))
      else (m, dest))"

fun memset_loop :: "cmem \<Rightarrow> addr \<Rightarrow> byte \<Rightarrow> nat \<Rightarrow> cmem" where
  "memset_loop m p v 0 = m"
| "memset_loop m p v (Suc n) = memset_loop (m(p := v)) (p + 1) v n"

definition memset :: "cmem \<Rightarrow> addr \<Rightarrow> int \<Rightarrow> nat \<Rightarrow> cmem \<times> addr" where
  "memset m ptr v n = (memset_loop m ptr (word_of_int v) n, ptr)"

fun memcmp :: "cmem \<Rightarrow> addr \<Rightarrow> addr \<Rightarrow> nat \<Rightarrow> int" where
  "memcmp m p1 p2 0 = 0"
| "memcmp m p1 p2 (Suc n) =
     (if m p1 \<noteq> m p2 then (if m p1 < m p2 then - 1 else 1)
      else memcmp m (p1 + 1) (p2 + 1) n)"

subsection \<open>Numbers\<close>

text \<open>Wrap-around of a 32-bit signed \<open>int\<close>.\<close>

definition s32 :: "int \<Rightarrow> int" where
  "s32 v = (v + 2 ^ 31) mod 2 ^ 32 - 2 ^ 31"

function reverse_loop :: "cmem \<Rightarrow> addr \<Rightarrow> nat \<Rightarrow> nat \<Rightarrow> cmem" where
  "reverse_loop m str start fin =
     (if start < fin then
        reverse_loop (m(str + start := m (str + fin), str + fin := m (str + start)))
          str (start + 1) (fin - 1)
      else m)"
  by pat_completeness auto
termination
  by (relation "measure (\<lambda>(m, str, start, fin). fin - start)") auto

declare reverse_loop.simps [simp del]

definition reverse_str :: "cmem \<Rightarrow> addr \<Rightarrow> nat \<Rightarrow> cmem" where
  "reverse_str m str len = reverse_loop m str 0 (sub64 len 1)"

definition digit_char :: "int \<Rightarrow> byte" where
  "digit_char r = word_of_int (if r > 9 then (r - 10) + 97 else r + 48)"

text \<open>Dividing by 0 traps: like a loop that goes on forever it gives no result.\<close>

partial_function (option) itoa_loop ::
    "cmem \<Rightarrow> addr \<Rightarrow> int \<Rightarrow> int \<Rightarrow> nat \<Rightarrow> (cmem \<times> nat) option" where
  "itoa_loop m str base v i =
     (if v \<noteq> 0 then
        if base = 0 then None
        else itoa_loop (m(str + i := digit_char (v smod base))) str base (v sdiv base) (i + 1)
      else Some (m, i))"

definition itoa :: "cmem \<Rightarrow> int \<Rightarrow> addr \<Rightarrow> int \<Rightarrow> cmem option" where
  "itoa m v str base =
     (if v = 0 then Some (m(str := 48, str + 1 := 0))
      else do {
        let neg = (v < 0 \<and> base = 10);
        (m, i) \<leftarrow> itoa_loop m str base (if neg then s32 (- v) else v) 0;
        let (m, i) = (if neg then (m(str + i := 45), i + 1) else (m, i));
        Some (reverse_str (m(str + i := 0)) str i)
      })"

text \<open>The base is an \<open>int\<close> that the division converts to \<open>uint32_t\<close>.\<close>

partial_function (option) utoa_loop ::
    "cmem \<Rightarrow> addr \<Rightarrow> int \<Rightarrow> int \<Rightarrow> nat \<Rightarrow> (cmem \<times> nat) option" where
  "utoa_loop m str base v i =
     (if v \<noteq> 0 then
        if base = 0 then None
        else utoa_loop (m(str + i := digit_char (v mod base))) str base (v div base) (i + 1)
      else Some (m, i))"

definition utoa :: "cmem \<Rightarrow> u32 \<Rightarrow> addr \<Rightarrow> int \<Rightarrow> cmem option" where
  "utoa m v str base =
     (if v = 0 then Some (m(str := 48, str + 1 := 0))
      else do {
        (m, i) \<leftarrow> utoa_loop m str (base mod 2 ^ 32) (uint v) 0;
        Some (reverse_str (m(str + i := 0)) str i)
      })"

partial_function (option) atoi_skip :: "cmem \<Rightarrow> addr \<Rightarrow> nat \<Rightarrow> nat option" where
  "atoi_skip m str i =
     (if m (str + i) = 32 \<or> m (str + i) = 9 \<or> m (str + i) = 10 then atoi_skip m str (i + 1)
      else Some i)"

partial_function (option) atoi_loop :: "cmem \<Rightarrow> addr \<Rightarrow> nat \<Rightarrow> int \<Rightarrow> int option" where
  "atoi_loop m str i result =
     (if sint (m (str + i)) \<ge> 48 \<and> sint (m (str + i)) \<le> 57 then
        atoi_loop m str (i + 1) (s32 (result * 10 + (sint (m (str + i)) - 48)))
      else Some result)"

definition atoi :: "cmem \<Rightarrow> addr \<Rightarrow> int option" where
  "atoi m str = do {
     i \<leftarrow> atoi_skip m str 0;
     let (sgn, i) = (if m (str + i) = 45 \<or> m (str + i) = 43
                     then (if m (str + i) = 45 then - 1 else 1, i + 1) else (1, i));
     result \<leftarrow> atoi_loop m str i 0;
     Some (s32 (sgn * result))
   }"

subsection \<open>Trimming and tokens\<close>

definition is_blank :: "byte \<Rightarrow> bool" where
  "is_blank c \<longleftrightarrow> c = 32 \<or> c = 9 \<or> c = 10 \<or> c = 13"

partial_function (option) trim_front :: "cmem \<Rightarrow> addr \<Rightarrow> addr option" where
  "trim_front m str = (if is_blank (m str) then trim_front m (str + 1) else Some str)"

function trim_back :: "cmem \<Rightarrow> addr \<Rightarrow> addr \<Rightarrow> addr" where
  "trim_back m str fin =
     (if fin > str \<and> is_blank (m fin) then trim_back m str (fin - 1) else fin)"
  by pat_completeness auto
termination
  by (relation "measure (\<lambda>(m, str, fin). fin)") auto

declare trim_back.simps [simp del]

definition trim :: "cmem \<Rightarrow> addr \<Rightarrow> (cmem \<times> int) option" where
  "trim m str =
     (if str = 0 then Some (m, 0)
      else do {
        str \<leftarrow> trim_front m str;
        if m str = 0 then Some (m, 0)
        else do {
          len \<leftarrow> strlen m str;
          let fin = trim_back m str (str + len - 1);
          Some (m(fin + 1 := 0), 1)
        }
      })"

text \<open>The two scanning loops of \<open>strtok\<close>: \<open>want\<close> is whether a delimiter keeps the loop going.\<close>

partial_function (option) strtok_scan :: "cmem \<Rightarrow> addr \<Rightarrow> bool \<Rightarrow> addr \<Rightarrow> addr option" where
  "strtok_scan m delim want save =
     (if m save \<noteq> 0 then do {
        p \<leftarrow> strchr m delim (sint (m save));
        if (p \<noteq> 0) = want then strtok_scan m delim want (save + 1) else Some save
      }
      else Some save)"

text \<open>The state is the memory and the static \<open>strtok_save\<close>; the result pairs them with the
  returned pointer.\<close>

definition strtok :: "cmem \<Rightarrow> addr \<Rightarrow> addr \<Rightarrow> addr \<Rightarrow> (cmem \<times> addr \<times> addr) option" where
  "strtok m strtok_save str delim =
     (if str = 0 \<and> strtok_save = 0 then Some (m, strtok_save, 0)
      else do {
        let save = (if str \<noteq> 0 then str else strtok_save);
        save \<leftarrow> strtok_scan m delim True save;
        if m save = 0 then Some (m, 0, 0)
        else do {
          let token_start = save;
          save \<leftarrow> strtok_scan m delim False save;
          if m save \<noteq> 0 then Some (m(save := 0), save + 1, token_start)
          else Some (m, 0, token_start)
        }
      })"

section \<open>Copying\<close>

lemma strlen_loop_cstr: "cstr m (p + i) s \<Longrightarrow> strlen_loop m p i = Some (i + length s)"
proof (induction s arbitrary: i)
  case Nil
  then show ?case by (subst strlen_loop.simps) simp
next
  case (Cons c s)
  then have "strlen_loop m p (i + 1) = Some (i + 1 + length s)"
    by (intro Cons.IH) (simp add: cstr_Cons)
  with Cons.prems show ?case by (subst strlen_loop.simps) (simp add: cstr_Cons)
qed

lemma strlen_cstr [simp]: "cstr m p s \<Longrightarrow> strlen m p = Some (length s)"
  using strlen_loop_cstr [of m p 0 s] by (simp add: strlen_def)

lemma copy_loop_cstr:
  "cstr m src s \<Longrightarrow> ptr + length s \<le> src \<or> src + length s < ptr \<Longrightarrow>
   copy_loop m ptr src = Some (mput m ptr s, ptr + length s)"
proof (induction s arbitrary: m ptr src)
  case Nil
  then show ?case by (subst copy_loop.simps) simp
next
  case (Cons c s)
  then have "cstr (m(ptr := c)) (src + 1) s"
    using cstr_cong [of s "m(ptr := c)" "src + 1" m] by (auto simp: cstr_Cons)
  with Cons.prems Cons.IH [of "m(ptr := c)" "src + 1" "ptr + 1"] show ?case
    by (subst copy_loop.simps) (auto simp: cstr_Cons mput_Cons fun_upd_def)
qed

lemma strcpy_cstr:
  "cstr m src s \<Longrightarrow> dest + length s \<le> src \<or> src + length s < dest \<Longrightarrow>
   strcpy m dest src = Some (mput m dest (s @ [0]), dest)"
  by (simp add: strcpy_def copy_loop_cstr mput_snoc)

lemma strcat_cstr:
  "cstr m dest s \<Longrightarrow> cstr m src t \<Longrightarrow>
   dest + length s + length t \<le> src \<or> src + length t < dest + length s \<Longrightarrow>
   strcat m dest src = Some (mput m (dest + length s) (t @ [0]), dest)"
  by (simp add: strcat_def copy_loop_cstr mput_snoc)

text \<open>The bytes a bounded copy of \<open>n\<close> bytes reads from \<open>src\<close>.\<close>

definition nbytes :: "cmem \<Rightarrow> addr \<Rightarrow> nat \<Rightarrow> byte list" where
  "nbytes m src n = takeWhile (\<lambda>c. c \<noteq> 0) (mget m src n)"

lemma length_nbytes: "length (nbytes m src n) \<le> n"
  using length_takeWhile_le [of _ "mget m src n"] by (simp add: nbytes_def)

lemma zero_nbytes: "0 \<notin> set (nbytes m src n)"
  by (auto simp: nbytes_def dest: set_takeWhileD)

lemma nbytes_Suc: "nbytes m src (Suc n) = (if m src = 0 then [] else m src # nbytes m (src + 1) n)"
  by (simp add: nbytes_def mget_Suc)

lemma ncopy_loop_nbytes:
  "i + k = n \<Longrightarrow> ptr + k \<le> src \<or> src + k \<le> ptr \<Longrightarrow>
   ncopy_loop m ptr src i n =
     (mput m ptr (nbytes m src k), ptr + length (nbytes m src k), i + length (nbytes m src k))"
proof (induction k arbitrary: m ptr src i)
  case 0
  then show ?case by (subst ncopy_loop.simps) (simp add: nbytes_def)
next
  case (Suc k)
  have "nbytes (m(ptr := m src)) (src + 1) k = nbytes m (src + 1) k"
    using Suc.prems(2) unfolding nbytes_def by (subst mget_outside) auto
  with Suc.prems Suc.IH [of "i + 1" "ptr + 1" "src + 1" "m(ptr := m src)"] show ?case
    by (subst ncopy_loop.simps) (auto simp: nbytes_Suc mput_Cons fun_upd_def)
qed

lemma pad_loop_mput: "i + k = n \<Longrightarrow> pad_loop m ptr i n = mput m ptr (replicate k 0)"
proof (induction k arbitrary: m ptr i)
  case 0
  then show ?case by (subst pad_loop.simps) simp
next
  case (Suc k)
  then show ?case by (subst pad_loop.simps) (simp add: mput_Cons fun_upd_def)
qed

lemma mput_mput_next: "mput (mput m a xs) (a + length xs) ys = mput m a (xs @ ys)"
  by (auto simp: mput_def fun_eq_iff nth_append)

lemma strncpy_nbytes:
  fixes m :: cmem
  assumes "dest + n \<le> src \<or> src + n \<le> dest"
  defines "s \<equiv> nbytes m src n"
  shows "strncpy m dest src n = (mput m dest (s @ replicate (n - length s) 0), dest)"
  using assms(1) length_nbytes [of m src n] unfolding s_def
  by (simp add: strncpy_def ncopy_loop_nbytes [of 0 n n] mput_mput_next
      pad_loop_mput [of _ "n - length (nbytes m src n)"])

lemma strncat_nbytes:
  assumes "cstr m dest s" and "dest + length s + n \<le> src \<or> src + n \<le> dest + length s"
  shows "strncat m dest src n = Some (mput m (dest + length s) (nbytes m src n @ [0]), dest)"
  using assms by (simp add: strncat_def ncopy_loop_nbytes [of 0 n n] mput_snoc)

section \<open>Comparing and searching\<close>

text \<open>The order \<open>strcmp\<close> decides: lexicographic over signed characters, a prefix first.\<close>

fun strorder :: "byte list \<Rightarrow> byte list \<Rightarrow> int" where
  "strorder [] [] = 0"
| "strorder [] (y # ys) = - 1"
| "strorder (x # xs) [] = 1"
| "strorder (x # xs) (y # ys) =
     (if x \<noteq> y then (if sint x < sint y then - 1 else 1) else strorder xs ys)"

lemma strorder_range: "strorder s t \<in> {- 1, 0, 1}"
  by (induction s t rule: strorder.induct) auto

lemma strorder_0_iff: "strorder s t = 0 \<longleftrightarrow> s = t"
  by (induction s t rule: strorder.induct) auto

lemma sint_eq_iff: "sint a = sint b \<longleftrightarrow> a = (b :: byte)"
  by (auto intro: signed_word_eqI)

lemma strorder_swap: "strorder t s = - strorder s t"
  by (induction s t rule: strorder.induct) (auto simp: not_less order_le_less sint_eq_iff)

lemma strorder_trans: "strorder s t \<le> 0 \<Longrightarrow> strorder t u \<le> 0 \<Longrightarrow> strorder s u \<le> 0"
proof (induction s t arbitrary: u rule: strorder.induct)
  case (2 y ys)
  then show ?case by (cases u) auto
next
  case (4 x xs y ys)
  then show ?case by (cases u) (auto split: if_splits)
qed simp_all

lemma strcmp_cstr: "cstr m p s \<Longrightarrow> cstr m q t \<Longrightarrow> strcmp m p q = Some (strorder s t)"
proof (induction s t arbitrary: p q rule: strorder.induct)
  case (4 x xs y ys)
  then show ?case by (subst strcmp.simps) (auto simp: cstr_Cons)
qed (subst strcmp.simps, auto simp: cstr_Cons)+

lemma strncmp_loop_cstr:
  "i + k = n \<Longrightarrow> cstr m p s \<Longrightarrow> cstr m q t \<Longrightarrow>
   strncmp_loop m p q i n = strorder (take k s) (take k t)"
proof (induction s t arbitrary: p q i k rule: strorder.induct)
  case (4 x xs y ys)
  show ?case
  proof (cases k)
    case 0
    with 4 show ?thesis by (subst strncmp_loop.simps) simp
  next
    case (Suc k')
    with 4 show ?thesis by (subst strncmp_loop.simps) (auto simp: cstr_Cons)
  qed
next
  case (2 y ys)
  then show ?case by (subst strncmp_loop.simps, cases k) (auto simp: cstr_Cons)
next
  case (3 x xs)
  then show ?case by (subst strncmp_loop.simps, cases k) (auto simp: cstr_Cons)
qed (subst strncmp_loop.simps, auto)

lemma strncmp_cstr:
  "cstr m p s \<Longrightarrow> cstr m q t \<Longrightarrow> strncmp m p q n = strorder (take n s) (take n t)"
  by (simp add: strncmp_def strncmp_loop_cstr)

lemma strchr_cstr:
  "cstr m p s \<Longrightarrow> c \<noteq> 0 \<Longrightarrow>
   strchr m p c = Some (if word_of_int c \<in> set s
     then p + length (takeWhile (\<lambda>x. x \<noteq> word_of_int c) s) else 0)"
proof (induction s arbitrary: p)
  case Nil
  then show ?case by (subst strchr.simps) simp
next
  case (Cons x s)
  then show ?case by (subst strchr.simps) (auto simp: cstr_Cons)
qed

lemma strstr_match_cstr:
  "cstr m h hs \<Longrightarrow> cstr m n ns \<Longrightarrow>
   strstr_match m h n = Some (n + length (longest_common_prefix hs ns))"
proof (induction hs ns arbitrary: h n rule: longest_common_prefix.induct)
  case (1 x xs y ys)
  then show ?case by (subst strstr_match.simps) (auto simp: cstr_Cons)
qed (subst strstr_match.simps, auto simp: cstr_Cons)+

lemma lcp_complete: "length (longest_common_prefix hs ns) = length ns \<longleftrightarrow> prefix ns hs"
  by (induction hs ns rule: longest_common_prefix.induct) auto

lemma strstr_match_zero:
  assumes "cstr m h hs" and "cstr m n ns" and "strstr_match m h n = Some e"
  shows "m e = 0 \<longleftrightarrow> prefix ns hs"
proof -
  let ?l = "length (longest_common_prefix hs ns)"
  have e: "e = n + ?l" using strstr_match_cstr [OF assms(1,2)] assms(3) by simp
  have "?l \<le> length ns" by (induction hs ns rule: longest_common_prefix.induct) auto
  then have "m (n + ?l) = 0 \<longleftrightarrow> ?l = length ns"
    using assms(2) by (metis cstr_def le_neq_implies_less nth_mem)
  with e show ?thesis by (simp add: lcp_complete)
qed

lemma strstr_loop_cstr:
  assumes "cstr m n ns" and "ns \<noteq> []"
  shows "cstr m h hs \<Longrightarrow>
    (case strstr_loop m h n of
       Some r \<Rightarrow> (r = 0 \<and> \<not> sublist ns hs) \<or>
         (\<exists>i. r = h + i \<and> prefix ns (drop i hs) \<and> (\<forall>j < i. \<not> prefix ns (drop j hs)))
     | None \<Rightarrow> False)"
proof (induction hs arbitrary: h)
  case Nil
  then show ?case using assms(2) by (subst strstr_loop.simps) simp
next
  case (Cons c hs)
  have match: "strstr_match m h n = Some (n + length (longest_common_prefix (c # hs) ns))"
    (is "_ = Some ?e") by (rule strstr_match_cstr [OF Cons.prems assms(1)])
  note zero = strstr_match_zero [OF Cons.prems assms(1) match]
  have rec: "strstr_loop m h n =
      (if prefix ns (c # hs) then Some h else strstr_loop m (h + 1) n)"
    using Cons.prems match zero by (subst strstr_loop.simps) (simp add: cstr_Cons)
  show ?case
  proof (cases "prefix ns (c # hs)")
    case True
    with rec show ?thesis by auto
  next
    case False
    have IH: "case strstr_loop m (h + 1) n of
       Some r \<Rightarrow> (r = 0 \<and> \<not> sublist ns hs) \<or>
         (\<exists>i. r = h + 1 + i \<and> prefix ns (drop i hs) \<and> (\<forall>j < i. \<not> prefix ns (drop j hs)))
     | None \<Rightarrow> False"
      using Cons.prems by (intro Cons.IH) (simp add: cstr_Cons)
    have shift: "\<exists>k. h + 1 + i = h + k \<and> prefix ns (drop k (c # hs)) \<and>
        (\<forall>j < k. \<not> prefix ns (drop j (c # hs)))"
      if "prefix ns (drop i hs)" "\<forall>j < i. \<not> prefix ns (drop j hs)" for i
      using that False by (intro exI [of _ "Suc i"]) (auto simp: drop_Cons split: nat.splits)
    have sub: "sublist ns (c # hs) \<longleftrightarrow> sublist ns hs"
      using False by (auto simp: sublist_Cons_right)
    from IH have "case strstr_loop m (h + 1) n of
       Some r \<Rightarrow> (r = 0 \<and> \<not> sublist ns hs) \<or>
         (\<exists>i. r = h + i \<and> prefix ns (drop i (c # hs)) \<and> (\<forall>j < i. \<not> prefix ns (drop j (c # hs))))
     | None \<Rightarrow> False"
      using shift by (auto split: option.splits simp del: drop_Suc_Cons)
    then show ?thesis unfolding rec sub using False by simp
  qed
qed

section \<open>Memory blocks\<close>

lemma memcpy_loop_mput:
  "d \<le> s \<or> s + n \<le> d \<Longrightarrow> memcpy_loop m d s n = mput m d (mget m s n)"
proof (induction n arbitrary: m d s)
  case (Suc n)
  then have "mget (m(d := m s)) (s + 1) n = mget m (s + 1) n"
    by (intro mget_outside) auto
  with Suc.prems Suc.IH [of "d + 1" "s + 1" "m(d := m s)"] show ?case
    by (auto simp: mget_Suc mput_Cons fun_upd_def)
qed simp

lemma memmove_bytes_mput: "s < d \<Longrightarrow> memmove_bytes m d s n = mput m d (mget m s n)"
proof (induction n arbitrary: m)
  case (Suc n)
  have "mget (m(d + n := m (s + n))) s n = mget m s n"
    using Suc.prems by (intro mget_outside) auto
  moreover have "mput (m(d + n := b)) d (mget m s n) = mput m d (mget m s n @ [b])" for b
    using mput_append [of m d "mget m s n" "[b]"] by (simp add: mput_Cons)
  ultimately show ?case
    using Suc mget_append [of m s n 1] by (simp add: mget_Suc)
qed simp

lemma memmove_words_mput:
  "s < d \<Longrightarrow> memmove_words m d s n =
     (mput m (d + n mod 8) (mget m (s + n mod 8) (n - n mod 8)), n mod 8)"
proof (induction n arbitrary: m rule: less_induct)
  case (less n)
  show ?case
  proof (cases "8 \<le> n")
    case False
    then show ?thesis by (subst memmove_words.simps) simp
  next
    case True
    let ?r = "n mod 8" and ?k = "n - 8"
    let ?m = "mput m (d + ?k) (mget m (s + ?k) 8)"
    have r: "?k mod 8 = ?r" using True by (simp add: le_mod_geq)
    have "?r \<le> ?k" using True r by (metis mod_less_eq_dividend)
    have "memmove_words m d s n = memmove_words ?m d s ?k"
      using True by (subst memmove_words.simps) simp
    also have "\<dots> = (mput ?m (d + ?r) (mget ?m (s + ?r) (?k - ?r)), ?r)"
      using less True r by simp
    also have "mget ?m (s + ?r) (?k - ?r) = mget m (s + ?r) (?k - ?r)"
      using less.prems \<open>?r \<le> ?k\<close> by (intro mget_cong mput_outside) auto
    also have "mput ?m (d + ?r) (mget m (s + ?r) (?k - ?r)) =
        mput m (d + ?r) (mget m (s + ?r) (?k - ?r) @ mget m (s + ?k) 8)"
      using \<open>?r \<le> ?k\<close> mput_append [of m "d + ?r" "mget m (s + ?r) (?k - ?r)" "mget m (s + ?k) 8"]
      by (simp only: length_mget add.assoc le_add_diff_inverse)
    also have "mget m (s + ?r) (?k - ?r) @ mget m (s + ?k) 8 = mget m (s + ?r) (n - ?r)"
      using \<open>?r \<le> ?k\<close> True mget_append [of m "s + ?r" "?k - ?r" 8] by simp
    finally show ?thesis .
  qed
qed

lemma mput_same: "mput m a (mget m a n) = m"
  by (auto simp: mput_def fun_eq_iff)

lemma memset_loop_mput: "memset_loop m p v n = mput m p (replicate n v)"
  by (induction n arbitrary: m p) (simp_all add: mput_Cons)

lemma memcmp_0_iff: "memcmp m p q n = 0 \<longleftrightarrow> mget m p n = mget m q n"
  by (induction n arbitrary: p q) (simp_all add: mget_Suc)

section \<open>Numbers\<close>

lemma s32_id: "- (2 ^ 31) \<le> v \<Longrightarrow> v < 2 ^ 31 \<Longrightarrow> s32 v = v"
  by (simp add: s32_def)

lemma reverse_loop_spec:
  "start \<le> fin + 1 \<Longrightarrow> reverse_loop m str start fin =
     (\<lambda>x. if str + start \<le> x \<and> x \<le> str + fin then m (str + start + (str + fin - x)) else m x)"
proof (induction m str start fin rule: reverse_loop.induct)
  case (1 m str start fin)
  show ?case
  proof (cases "start < fin")
    case True
    then have IH: "reverse_loop m str start fin =
      (\<lambda>x. if str + (start + 1) \<le> x \<and> x \<le> str + (fin - 1)
        then (m(str + start := m (str + fin), str + fin := m (str + start)))
          (str + (start + 1) + (str + (fin - 1) - x))
        else (m(str + start := m (str + fin), str + fin := m (str + start))) x)"
      using 1 by (subst reverse_loop.simps) (simp add: fun_upd_def cong: if_cong)
    show ?thesis unfolding IH using True by (auto simp: fun_eq_iff Suc_diff_Suc)
  next
    case False
    with 1 have "start = fin \<or> start = fin + 1" by auto
    with False show ?thesis by (subst reverse_loop.simps) (auto simp: fun_eq_iff)
  qed
qed

lemma reverse_str_mput:
  assumes "ds \<noteq> []" and "length ds < 2 ^ 64"
  shows "reverse_str (mput m str (ds @ es)) str (length ds) = mput m str (rev ds @ es)"
proof -
  have "sub64 (length ds) 1 = length ds - 1" "Suc (length ds - 1) = length ds"
    using assms by (simp_all add: sub64_id Suc_le_eq)
  then show ?thesis
    by (auto simp: reverse_str_def reverse_loop_spec fun_eq_iff mput_def nth_append rev_nth
        add.commute)
qed

text \<open>The digits of a number, least significant first.\<close>

function digits :: "int \<Rightarrow> int \<Rightarrow> byte list" where
  "digits b v = (if v \<le> 0 \<or> b < 2 then [] else digit_char (v mod b) # digits b (v div b))"
  by pat_completeness auto
termination
  by (relation "measure (\<lambda>(b, v). nat v)") (auto simp: int_div_less_self)

declare digits.simps [simp del]

lemma digits_0 [simp]: "digits b 0 = []"
  by (simp add: digits.simps)

lemma digits_step: "0 < v \<Longrightarrow> 2 \<le> b \<Longrightarrow> digits b v = digit_char (v mod b) # digits b (v div b)"
  by (subst digits.simps) simp

lemma itoa_loop_digits:
  "0 \<le> v \<Longrightarrow> 2 \<le> b \<Longrightarrow>
   itoa_loop m str b v i = Some (mput m (str + i) (digits b v), i + length (digits b v))"
proof (induction b v arbitrary: m i rule: digits.induct)
  case (1 b v)
  show ?case
  proof (cases "v = 0")
    case True
    then show ?thesis by (subst itoa_loop.simps) simp
  next
    case False
    with 1 show ?thesis
      by (subst itoa_loop.simps)
        (simp add: digits_step mput_Cons pos_imp_zdiv_nonneg_iff signed_divide_int_def
          signed_modulo_int_def fun_upd_def)
  qed
qed

lemma utoa_loop_digits:
  "0 \<le> v \<Longrightarrow> 2 \<le> b \<Longrightarrow>
   utoa_loop m str b v i = Some (mput m (str + i) (digits b v), i + length (digits b v))"
proof (induction b v arbitrary: m i rule: digits.induct)
  case (1 b v)
  show ?case
  proof (cases "v = 0")
    case True
    then show ?thesis by (subst utoa_loop.simps) simp
  next
    case False
    with 1 show ?thesis
      by (subst utoa_loop.simps)
        (simp add: digits_step mput_Cons pos_imp_zdiv_nonneg_iff fun_upd_def)
  qed
qed

lemma length_digits: "v < b ^ n \<Longrightarrow> length (digits b v) \<le> n"
proof (induction n arbitrary: v)
  case 0
  then show ?case by (simp add: digits.simps)
next
  case (Suc n)
  show ?case
  proof (cases "v \<le> 0 \<or> b < 2")
    case True
    then show ?thesis by (subst digits.simps) simp
  next
    case False
    have "v div b < b ^ n"
    proof (rule ccontr)
      assume "\<not> v div b < b ^ n"
      with False have "b * b ^ n \<le> b * (v div b)" by (intro mult_left_mono) auto
      also have "\<dots> \<le> v" using False mult_div_mod_eq [of b v] pos_mod_sign [of b v] by linarith
      finally show False using Suc.prems by simp
    qed
    with Suc.IH False show ?thesis by (simp add: digits_step)
  qed
qed

text \<open>What \<open>itoa\<close> leaves in memory.\<close>

definition decimal :: "int \<Rightarrow> byte list" where
  "decimal v = (if v = 0 then [48] else if v < 0 then 45 # rev (digits 10 (- v))
                else rev (digits 10 v))"

lemma itoa_decimal:
  assumes "- (2 ^ 31) < v" and "v < 2 ^ 31"
  shows "itoa m v str 10 = Some (mput m str (decimal v @ [0]))"
proof (cases "v = 0")
  case True
  then show ?thesis by (simp add: itoa_def decimal_def mput_Cons)
next
  case False
  define a where "a = \<bar>v\<bar>"
  have a: "0 < a" "a < 10 ^ 10" "s32 a = a" using False assms by (auto simp: a_def s32_id)
  have len: "length (digits 10 a) \<le> 10" by (rule length_digits [OF a(2)])
  have ne: "digits 10 a \<noteq> []" using a by (simp add: digits_step)
  note loop = itoa_loop_digits [of a 10 m str 0]
  note rv = reverse_str_mput [of "digits 10 a" m str "[0]"]
    reverse_str_mput [of "digits 10 a @ [45]" m str "[0]"]
  show ?thesis
  proof (cases "v < 0")
    case True
    then have "a = - v" by (simp add: a_def)
    moreover have "mput m str (digits 10 a @ [45, 0]) =
        (mput m str (digits 10 a))(str + length (digits 10 a) := 45,
          Suc (str + length (digits 10 a)) := 0)"
      using mput_snoc [of m str "digits 10 a @ [45]" 0] by (simp add: mput_snoc)
    ultimately show ?thesis using True a len loop rv(2)
      by (simp add: itoa_def decimal_def)
  next
    case nneg: False
    then have "a = v" by (simp add: a_def)
    with nneg False a len ne loop rv(1) show ?thesis
      by (simp add: itoa_def decimal_def mput_snoc)
  qed
qed

lemma sint_digit: "0 \<le> r \<Longrightarrow> r \<le> 9 \<Longrightarrow> sint (digit_char r) = r + 48"
proof -
  assume "0 \<le> r" "r \<le> 9"
  then have "r = 0 \<or> r = 1 \<or> r = 2 \<or> r = 3 \<or> r = 4 \<or> r = 5 \<or> r = 6 \<or> r = 7 \<or> r = 8 \<or> r = 9"
    by arith
  then show ?thesis by (auto simp: digit_char_def)
qed

lemma digits_range: "c \<in> set (digits 10 v) \<Longrightarrow> 48 \<le> sint c \<and> sint c \<le> 57"
proof (induction "10 :: int" v rule: digits.induct)
  case (1 v)
  moreover have "v mod 10 \<le> 9" "0 \<le> v mod 10" by auto
  ultimately show ?case
    using sint_digit [of "v mod 10"] by (cases "v \<le> 0") (auto simp: digits.simps [of 10 v])
qed

lemma atoi_loop_run:
  "(\<And>j. j < length ds \<Longrightarrow> m (str + i + j) = ds ! j) \<Longrightarrow>
   (\<And>c. c \<in> set ds \<Longrightarrow> 48 \<le> sint c \<and> sint c \<le> 57) \<Longrightarrow>
   atoi_loop m str i acc =
   atoi_loop m str (i + length ds) (foldl (\<lambda>r c. s32 (r * 10 + (sint c - 48))) acc ds)"
proof (induction ds arbitrary: i acc)
  case (Cons d ds)
  have "m (str + i) = d" using Cons.prems(1) [of 0] by simp
  moreover have "48 \<le> sint d \<and> sint d \<le> 57" using Cons.prems(2) by simp
  moreover have "m (str + Suc i + j) = ds ! j" if "j < length ds" for j
    using Cons.prems(1) [of "Suc j"] that by simp
  ultimately show ?case
    using Cons.IH [of "Suc i"] Cons.prems(2) by (subst atoi_loop.simps) simp
qed simp

lemma foldl_digits:
  "0 \<le> v \<Longrightarrow> v < 2 ^ 31 \<Longrightarrow>
   foldl (\<lambda>r c. s32 (r * 10 + (sint c - 48))) 0 (rev (digits 10 v)) = v"
proof (induction "10 :: int" v rule: digits.induct)
  case (1 v)
  show ?case
  proof (cases "v = 0")
    case False
    with 1 have "foldl (\<lambda>r c. s32 (r * 10 + (sint c - 48))) 0 (rev (digits 10 (v div 10))) = v div 10"
      by simp
    with False 1 show ?thesis
      by (simp add: digits_step sint_digit s32_id)
  qed simp
qed

lemma atoi_loop_cstr:
  assumes "cstr m (str + i) ds" and "\<And>c. c \<in> set ds \<Longrightarrow> 48 \<le> sint c \<and> sint c \<le> 57"
  shows "atoi_loop m str i acc = Some (foldl (\<lambda>r c. s32 (r * 10 + (sint c - 48))) acc ds)"
proof -
  have "atoi_loop m str (i + length ds) r = Some r" for r
    using assms(1) by (subst atoi_loop.simps) (simp add: cstr_def add.assoc)
  then show ?thesis
    using assms atoi_loop_run [of ds m str i acc] by (auto simp: cstr_def)
qed

lemma atoi_skip_stop:
  "m str \<noteq> 32 \<Longrightarrow> m str \<noteq> 9 \<Longrightarrow> m str \<noteq> 10 \<Longrightarrow> atoi_skip m str 0 = Some 0"
  by (subst atoi_skip.simps) simp

lemma atoi_decimal:
  assumes "cstr m str (decimal v)" and "- (2 ^ 31) < v" and "v < 2 ^ 31"
  shows "atoi m str = Some v"
proof -
  consider "v = 0" | "0 < v" | "v < 0" by linarith
  then show ?thesis
  proof cases
    case 1
    with assms have c: "cstr m str [48]" by (simp add: decimal_def)
    then show ?thesis
      using 1 atoi_loop_cstr [of m str 0 "[48]" 0]
      by (simp add: atoi_def atoi_skip_stop cstr_Cons s32_id)
  next
    case 2
    with assms have c: "cstr m str (rev (digits 10 v))" by (simp add: decimal_def)
    have "rev (digits 10 v) \<noteq> []" using 2 by (simp add: digits_step)
    then obtain d ds where d: "rev (digits 10 v) = d # ds" by (cases "rev (digits 10 v)") auto
    then have "d \<in> set (digits 10 v)" by (metis list.set_intros(1) set_rev)
    then have "48 \<le> sint d" by (simp add: digits_range)
    moreover have "m str = d" using c d by (simp add: cstr_Cons)
    ultimately have "m str \<notin> {32, 9, 10, 45, 43}" by auto
    then show ?thesis
      using c 2 assms atoi_loop_cstr [of m str 0 "rev (digits 10 v)" 0]
      by (simp add: atoi_def atoi_skip_stop digits_range foldl_digits s32_id)
  next
    case 3
    with assms have c: "m str = 45" "cstr m (str + 1) (rev (digits 10 (- v)))"
      by (simp_all add: decimal_def cstr_Cons)
    then show ?thesis
      using 3 assms atoi_loop_cstr [of m str 1 "rev (digits 10 (- v))" 0]
      by (simp add: atoi_def atoi_skip_stop digits_range foldl_digits s32_id)
  qed
qed

lemma decimal_chars: "c \<in> set (decimal v) \<Longrightarrow> c \<noteq> 0"
  using digits_range [of c v] digits_range [of c "- v"] by (auto simp: decimal_def split: if_splits)

lemma length_decimal: "- (2 ^ 31) < v \<Longrightarrow> v < 2 ^ 31 \<Longrightarrow> length (decimal v) \<le> 11"
  using length_digits [of v 10 10] length_digits [of "- v" 10 10] by (auto simp: decimal_def)

text \<open>C16. \<open>itoa\<close> in base 10 writes a C string of at most 11 characters, writes nothing else, and
  \<open>atoi\<close> reads the same number back, for every \<open>int\<close> but the smallest.\<close>

theorem itoa_atoi_roundtrip:
  assumes "- (2 ^ 31) < v" and "v < 2 ^ 31"
  shows "\<exists>m' s. itoa m v str 10 = Some m' \<and> cstr m' str s \<and> length s \<le> 11 \<and>
    (\<forall>x. x < str \<or> str + length s < x \<longrightarrow> m' x = m x) \<and> atoi m' str = Some v"
proof -
  have c: "cstr (mput m str (decimal v @ [0])) str (decimal v)"
    using decimal_chars by (intro cstr_mput) blast
  with assms show ?thesis
    by (intro exI [of _ "mput m str (decimal v @ [0])"] exI [of _ "decimal v"])
      (auto simp: itoa_decimal length_decimal atoi_decimal mput_outside)
qed

theorem itoa_atoi_roundtrip_witness:
  "\<exists>m' s. itoa (\<lambda>_. 7) (- 42) 100 10 = Some m' \<and> cstr m' 100 s \<and> length s \<le> 11 \<and>
    (\<forall>x. x < 100 \<or> 100 + length s < x \<longrightarrow> m' x = 7) \<and> atoi m' 100 = Some (- 42)"
  using itoa_atoi_roundtrip [of "- 42" "\<lambda>_. 7" 100] by simp

section \<open>Blocks and strings: the contracts\<close>

text \<open>C14. \<open>memmove\<close> is the simultaneous copy: whatever the overlap of the two blocks, the
  destination ends up with the bytes the source had, and nothing else changes. The code's three
  paths (the forward copy, the backward copy by 8-byte words followed by bytes, and the empty one
  for equal addresses) agree with this one-line reference.\<close>

theorem memmove_simultaneous: "memmove m dest src n = (mput m dest (mget m src n), dest)"
proof -
  consider "dest < src" | "src < dest" | "dest = src" by linarith
  then show ?thesis
  proof cases
    case 1
    then show ?thesis by (simp add: memmove_def memcpy_def memcpy_loop_mput)
  next
    case 2
    let ?r = "n mod 8"
    let ?m = "mput m (dest + ?r) (mget m (src + ?r) (n - ?r))"
    have "mget ?m src ?r = mget m src ?r"
      using 2 by (intro mget_cong mput_outside) auto
    then have "memmove_bytes ?m dest src ?r = mput m dest (mget m src ?r @ mget m (src + ?r) (n - ?r))"
      using 2 by (simp add: memmove_bytes_mput mput_append)
    with 2 show ?thesis
      using mget_append [of m src ?r "n - ?r"]
      by (simp add: memmove_def memmove_words_mput)
  next
    case 3
    then show ?thesis by (simp add: memmove_def mput_same)
  qed
qed

text \<open>C18. \<open>strcmp\<close> returns on every pair of C strings, decides equality, is antisymmetric, and is
  transitive: it is a total order on the strings.\<close>

theorem strcmp_total_order:
  assumes "cstr m p s" and "cstr m q t" and "cstr m r u"
  shows "\<exists>a b c. strcmp m p q = Some a \<and> strcmp m q r = Some b \<and> strcmp m p r = Some c \<and>
    (a = 0 \<longleftrightarrow> s = t) \<and> strcmp m q p = Some (- a) \<and> (a \<le> 0 \<and> b \<le> 0 \<longrightarrow> c \<le> 0) \<and>
    strncmp m p q (length s + 1) = a"
proof -
  have "strorder (take (Suc (length s)) s) (take (Suc (length s)) t) = strorder s t"
    by (induction s t rule: strorder.induct) auto
  then show ?thesis
    using assms strorder_trans [of s t u] strorder_swap [of s t]
    by (auto simp: strcmp_cstr strncmp_cstr strorder_0_iff)
qed

definition demo_strings :: cmem where
  "demo_strings = mput (mput (mput (\<lambda>_. 0) 100 [97, 44, 98]) 200 [97, 44, 99]) 300 [44]"

lemma demo_strings_cstr:
  "cstr demo_strings 100 [97, 44, 98]" "cstr demo_strings 200 [97, 44, 99]"
  "cstr demo_strings 300 [44]" "cstr demo_strings 101 [44, 98]"
  by (simp_all add: cstr_Cons demo_strings_def mput_def nth_Cons')

theorem strcmp_total_order_witness:
  "\<exists>a b c. strcmp demo_strings 100 200 = Some a \<and> strcmp demo_strings 200 101 = Some b \<and>
    strcmp demo_strings 100 101 = Some c \<and> (a = 0 \<longleftrightarrow> [97, 44, 98] = [97, 44, 99 :: byte]) \<and>
    strcmp demo_strings 200 100 = Some (- a) \<and> (a \<le> 0 \<and> b \<le> 0 \<longrightarrow> c \<le> 0) \<and>
    strncmp demo_strings 100 200 (length [97, 44, 98 :: byte] + 1) = a"
  by (rule strcmp_total_order [OF demo_strings_cstr(1,2,4)])

text \<open>C17. \<open>strstr\<close> returns on every pair of C strings: the address of the first occurrence of the
  needle, or NULL exactly when the needle does not occur.\<close>

theorem strstr_first:
  assumes "cstr m h hs" and "cstr m n ns" and "h \<noteq> 0"
  shows "\<exists>r. strstr m h n = Some r \<and> (r = 0 \<longleftrightarrow> \<not> sublist ns hs) \<and>
    (r \<noteq> 0 \<longrightarrow> h \<le> r \<and> prefix ns (drop (r - h) hs) \<and>
       (\<forall>j < r - h. \<not> prefix ns (drop j hs)))"
proof (cases "ns = []")
  case True
  then show ?thesis using assms by (auto simp: strstr_def)
next
  case False
  then have "strstr m h n = strstr_loop m h n"
    using assms(2) by (cases ns) (auto simp: strstr_def cstr_Cons)
  moreover have "sublist ns hs" if "prefix ns (drop i hs)" for i
    using that by (meson prefix_imp_sublist sublist_drop sublist_order.order_trans)
  ultimately show ?thesis
    using strstr_loop_cstr [OF assms(2) False assms(1)] assms(3)
    by (auto split: option.splits)
qed

theorem strstr_first_witness:
  "\<exists>r. strstr demo_strings 100 300 = Some r \<and> (r = 0 \<longleftrightarrow> \<not> sublist [44] [97, 44, 98 :: byte]) \<and>
    (r \<noteq> 0 \<longrightarrow> 100 \<le> r \<and> prefix [44] (drop (r - 100) [97, 44, 98 :: byte]) \<and>
       (\<forall>j < r - 100. \<not> prefix [44] (drop j [97, 44, 98 :: byte])))"
  by (rule strstr_first [OF demo_strings_cstr(1,3)]) simp

section \<open>Tokens\<close>

lemma after_token_shorter:
  assumes "dropWhile (\<lambda>c. c \<in> D) s \<noteq> []"
  shows "length (dropWhile (\<lambda>c. c \<notin> D) (dropWhile (\<lambda>c. c \<in> D) s)) < length s"
proof (cases "dropWhile (\<lambda>c. c \<in> D) s")
  case (Cons x xs)
  have "x \<notin> D" using hd_dropWhile [OF assms] Cons by simp
  moreover have "length (x # xs) \<le> length s"
    using length_dropWhile_le [of "\<lambda>c. c \<in> D" s] Cons by simp
  ultimately show ?thesis
    using Cons length_dropWhile_le [of "\<lambda>c. c \<notin> D" xs] by simp
qed (use assms in simp)

text \<open>The reference: the maximal runs of characters that are not delimiters.\<close>

function tokens :: "byte set \<Rightarrow> byte list \<Rightarrow> byte list list" where
  "tokens D s =
     (let r = dropWhile (\<lambda>c. c \<in> D) s
      in if r = [] then []
         else takeWhile (\<lambda>c. c \<notin> D) r # tokens D (dropWhile (\<lambda>c. c \<notin> D) r))"
  by pat_completeness auto
termination
  by (relation "measure (\<lambda>(D, s). length s)") (auto intro: after_token_shorter)

declare tokens.simps [simp del]

lemma strtok_scan_cstr:
  assumes "cstr m d ds" and "d \<noteq> 0"
  shows "cstr m p s \<Longrightarrow> strtok_scan m d want p =
    Some (p + length (takeWhile (\<lambda>c. (c \<in> set ds) = want) s))"
proof (induction s arbitrary: p)
  case Nil
  then show ?case by (subst strtok_scan.simps) simp
next
  case (Cons c s)
  have "sint c \<noteq> 0" using Cons.prems sint_eq_iff [of c 0] by (simp add: cstr_Cons)
  then have "strchr m d (sint c) = Some (if c \<in> set ds
      then d + length (takeWhile (\<lambda>x. x \<noteq> c) ds) else 0)"
    using strchr_cstr [OF assms(1)] by simp
  with Cons assms(2) show ?case
    by (subst strtok_scan.simps) (auto simp: cstr_Cons)
qed

lemma cstr_append: "cstr m p (s @ t) \<Longrightarrow> cstr m (p + length s) t"
  by (induction s arbitrary: p) (simp, simp add: cstr_Cons, metis add_Suc)

lemma cstr_cut:
  "cstr m p (s @ c # t) \<Longrightarrow> cstr (m(p + length s := 0)) p s"
  by (auto simp: cstr_def nth_append)

lemma tokens_rest:
  "c \<in> D \<Longrightarrow> tokens D (c # s) = tokens D s"
  by (subst (1 2) tokens.simps) simp

text \<open>One call, on a string \<open>s\<close> at \<open>p\<close> that starts with a token after some delimiters.\<close>

lemma strtok_call:
  assumes s: "cstr m p s" and ds: "cstr m d ds" and nz: "p \<noteq> 0" "d \<noteq> 0"
    and str: "str = p \<or> str = 0 \<and> save = p"
  defines "D \<equiv> set ds"
  defines "skip \<equiv> takeWhile (\<lambda>c. c \<in> D) s" and "r \<equiv> dropWhile (\<lambda>c. c \<in> D) s"
  defines "tok \<equiv> takeWhile (\<lambda>c. c \<notin> D) r" and "rest \<equiv> dropWhile (\<lambda>c. c \<notin> D) r"
  defines "q \<equiv> p + length skip"
  shows "strtok m save str d =
    (if r = [] then Some (m, 0, 0)
     else if rest = [] then Some (m, 0, q)
     else Some (m(q + length tok := 0), q + length tok + 1, q))"
proof -
  have "s = skip @ r" by (simp add: skip_def r_def)
  then have r: "cstr m q r" using s cstr_append [of m p skip r] by (simp add: q_def)
  have "r = tok @ rest" by (simp add: tok_def rest_def)
  then have rest: "cstr m (q + length tok) rest" using r cstr_append by metis
  have "strtok_scan m d True p = Some q"
    using strtok_scan_cstr [OF ds nz(2) s, of True] by (simp add: q_def skip_def D_def)
  moreover have "strtok_scan m d False q = Some (q + length tok)"
    using strtok_scan_cstr [OF ds nz(2) r, of False] by (simp add: tok_def D_def)
  moreover have "m q = 0 \<longleftrightarrow> r = []" using r by (cases r) (auto simp: cstr_Cons)
  moreover have "m (q + length tok) = 0 \<longleftrightarrow> rest = []"
    using rest by (cases rest) (auto simp: cstr_Cons)
  ultimately show ?thesis using str nz by (auto simp: strtok_def)
qed

text \<open>The client's loop: \<open>for (t = strtok(s, d); t; t = strtok(NULL, d))\<close>.\<close>

partial_function (option) strtok_all ::
    "cmem \<Rightarrow> addr \<Rightarrow> addr \<Rightarrow> addr \<Rightarrow> (cmem \<times> addr list) option" where
  "strtok_all m save str d = do {
     (m, save, t) \<leftarrow> strtok m save str d;
     if t = 0 then Some (m, [])
     else do {
       (m, ts) \<leftarrow> strtok_all m save 0 d;
       Some (m, t # ts)
     }
   }"

lemma strtok_all_done: "strtok_all m 0 0 d = Some (m, [])"
  by (subst strtok_all.simps) (simp add: strtok_def)

lemma strtok_all_tokens:
  assumes "cstr m p s" and "cstr m d ds" and "p \<noteq> 0" and "d \<noteq> 0"
    and "str = p \<or> str = 0 \<and> save = p"
    and "p + length s < d \<or> d + length ds < p"
  shows "\<exists>m' ps. strtok_all m save str d = Some (m', ps) \<and>
    list_all2 (cstr m') ps (tokens (set ds) s) \<and>
    (\<forall>x. x < p \<or> p + length s \<le> x \<longrightarrow> m' x = m x)"
  using assms
proof (induction "length s" arbitrary: m p s str save rule: less_induct)
  case less
  define D where "D = set ds"
  define skip where "skip = takeWhile (\<lambda>c. c \<in> D) s"
  define r where "r = dropWhile (\<lambda>c. c \<in> D) s"
  define tok where "tok = takeWhile (\<lambda>c. c \<notin> D) r"
  define rest where "rest = dropWhile (\<lambda>c. c \<notin> D) r"
  define q where "q = p + length skip"
  note defs = D_def skip_def r_def tok_def rest_def q_def
  have sr: "s = skip @ r" "r = tok @ rest" by (simp_all add: defs)
  then have r: "cstr m q r" using less.prems(1) cstr_append [of m p skip r] by (simp add: q_def)
  have toks: "tokens D s = (if r = [] then [] else tok # tokens D rest)"
    by (subst tokens.simps) (simp add: r_def tok_def rest_def Let_def)
  note call = strtok_call [OF less.prems(1-5), folded D_def, folded skip_def r_def, folded tok_def
      rest_def q_def]
  consider "r = []" | "r \<noteq> []" "rest = []" | c t where "r \<noteq> []" "rest = c # t"
    by (cases rest) auto
  then show ?case
  proof cases
    case 1
    with call toks show ?thesis
      by (subst strtok_all.simps) (simp add: D_def)
  next
    case 2
    with sr r have "cstr m q tok" by simp
    with 2 call toks less.prems(3) show ?thesis
      by (subst strtok_all.simps) (simp add: D_def strtok_all_done q_def tokens.simps)
  next
    case 3
    define m1 where "m1 = m(q + length tok := 0)"
    define p1 where "p1 = q + length tok + 1"
    have len: "length s = length skip + length tok + 1 + length t" using sr 3 by simp
    have "c \<in> D" using 3 hd_dropWhile [of "\<lambda>c. c \<notin> D" r] by (simp add: rest_def)
    then have toks3: "tokens D s = tok # tokens D t" using toks 3 by (simp add: tokens_rest)
    have t: "cstr m p1 t"
      using r sr 3 cstr_append [of m q "tok @ [c]" t] by (simp add: p1_def)
    have tok: "cstr m1 q tok" unfolding m1_def using r sr 3 cstr_cut by metis
    have "cstr m1 p1 t" using t cstr_cong [of t m1 p1 m] by (simp add: m1_def p1_def)
    moreover have "cstr m1 d ds"
      using less.prems(2,6) len cstr_cong [of ds m1 d m] by (auto simp: m1_def q_def)
    moreover have "p1 + length t < d \<or> d + length ds < p1"
      using less.prems(6) len by (auto simp: p1_def q_def)
    ultimately obtain m' ps where run: "strtok_all m1 p1 0 d = Some (m', ps)"
      and ps: "list_all2 (cstr m') ps (tokens D t)"
      and keep: "\<forall>x. x < p1 \<or> p1 + length t \<le> x \<longrightarrow> m' x = m1 x"
      using less.hyps [of t m1 p1 0 p1] len less.prems(4) by (auto simp: p1_def D_def)
    have "cstr m' q tok"
      using tok keep cstr_cong [of tok m' q m1] by (simp add: p1_def)
    moreover have "\<forall>x. x < p \<or> p + length s \<le> x \<longrightarrow> m' x = m x"
      using keep len by (auto simp: p1_def m1_def q_def)
    moreover have "strtok_all m save str d = Some (m', q # ps)"
      using call 3 run less.prems(3)
      by (subst strtok_all.simps) (simp add: m1_def p1_def q_def)
    ultimately show ?thesis using ps toks3 by (simp add: D_def)
  qed
qed

text \<open>C15. Calling \<open>strtok\<close> until it answers NULL ends, on every C string and delimiter set, and
  enumerates exactly the tokens of the string in order: each returned pointer is a C string
  holding the token, and it stays so after the later calls. Only the string itself is written.\<close>

theorem strtok_enumerates:
  assumes "cstr m p s" and "cstr m d ds" and "p \<noteq> 0" and "d \<noteq> 0"
    and "p + length s < d \<or> d + length ds < p"
  shows "\<exists>m' ps. strtok_all m save p d = Some (m', ps) \<and>
    list_all2 (cstr m') ps (tokens (set ds) s) \<and>
    (\<forall>x. x < p \<or> p + length s \<le> x \<longrightarrow> m' x = m x)"
  by (rule strtok_all_tokens [OF assms(1-4) _ assms(5)]) simp

theorem strtok_enumerates_witness:
  "\<exists>m' ps. strtok_all demo_strings 0 100 300 = Some (m', ps) \<and>
    list_all2 (cstr m') ps (tokens (set [44]) [97, 44, 98]) \<and>
    (\<forall>x. x < 100 \<or> 100 + length [97, 44, 98 :: byte] \<le> x \<longrightarrow> m' x = demo_strings x) \<and>
    tokens (set [44]) [97, 44, 98] = [[97], [98 :: byte]]"
proof -
  have "tokens (set [44]) [97, 44, 98] = [[97], [98 :: byte]]"
    by (simp add: tokens.simps)
  then show ?thesis
    using strtok_enumerates [OF demo_strings_cstr(1,3), of 0] by simp
qed

end
