(* ===== verification/Pty.thy ===== *)
theory Pty
  imports Prelude
begin

text \<open>
  Pseudo terminals, \<open>fs/virt/pty.c\<close>: a table of \<open>PTY_MAX\<close> pairs, each with a ring buffer per
  direction and a line discipline between them. Master writes pass through
  \<open>pty_input_from_master\<close> into \<open>m2s\<close>, which the slave reads; slave writes pass through
  \<open>pty_output_from_slave\<close> into \<open>s2m\<close>, which the master reads.

  An open file is an address; the store gives its \<open>struct fs_file\<close> and the \<open>struct pty_handle\<close> its
  \<open>driver_private\<close> points to. The results of the three \<open>kmalloc\<close> calls of \<open>pty_alloc_file\<close> are
  arguments (0 is NULL). Calls of \<open>thread_unblock\<close> are recorded in \<open>unblocked\<close>. A read that
  blocks takes what happens until it runs again from a list of wake-ups, each the change other
  threads made and whether an unmasked signal is pending; a read with no wake-up left stays
  blocked. Between two blocking points an operation runs without interleaving.
\<close>

section \<open>Ring buffers\<close>

definition PTY_BUF_CAP :: nat where "PTY_BUF_CAP = 4096"
definition PTY_WAITERS :: nat where "PTY_WAITERS = 8" \<comment> \<open>length of \<open>waiters\<close>\<close>

record pty_ring =
  buf :: "nat \<Rightarrow> byte"
  rhead :: nat
  rtail :: nat
  rcount :: nat
  waiters :: "int list" \<comment> \<open>the first \<open>waiters_count\<close> entries\<close>

definition pty_ring_init :: pty_ring where
  "pty_ring_init = \<lparr>buf = (\<lambda>_. 0), rhead = 0, rtail = 0, rcount = 0, waiters = []\<rparr>"

text \<open>The threads that \<open>pty_ring_wake\<close> unblocks.\<close>

definition pty_ring_wake :: "pty_ring \<Rightarrow> pty_ring \<times> int list" where
  "pty_ring_wake r = (r\<lparr>waiters := []\<rparr>, filter (\<lambda>t. t \<ge> 0) (waiters r))"

fun ring_put_loop :: "byte list \<Rightarrow> pty_ring \<Rightarrow> nat \<Rightarrow> pty_ring \<times> nat" where
  "ring_put_loop [] r k = (r, k)"
| "ring_put_loop (c # src) r k =
     (if rcount r < PTY_BUF_CAP - 1 then
        ring_put_loop src
          (r\<lparr>buf := (buf r)(rtail r := c), rtail := (rtail r + 1) mod PTY_BUF_CAP,
             rcount := rcount r + 1\<rparr>) (k + 1)
      else (r, k))"

definition pty_ring_write :: "byte list \<Rightarrow> pty_ring \<Rightarrow> pty_ring \<times> nat \<times> int list" where
  "pty_ring_write src r =
     (let (r, k) = ring_put_loop src r 0
      in if k > 0 then (let (r, w) = pty_ring_wake r in (r, k, w)) else (r, k, []))"

text \<open>The inner loop of \<open>pty_ring_read\<close>: up to \<open>n\<close> bytes.\<close>

fun ring_get_loop :: "nat \<Rightarrow> pty_ring \<Rightarrow> pty_ring \<times> byte list" where
  "ring_get_loop 0 r = (r, [])"
| "ring_get_loop (Suc n) r =
     (if rcount r > 0 then
        (let (r', bs) = ring_get_loop n
               (r\<lparr>rhead := (rhead r + 1) mod PTY_BUF_CAP, rcount := rcount r - 1\<rparr>)
         in (r', buf r (rhead r) # bs))
      else (r, []))"

definition pty_ring_avail :: "pty_ring \<Rightarrow> nat" where
  "pty_ring_avail r = rcount r"

definition pty_ring_flush :: "pty_ring \<Rightarrow> pty_ring" where
  "pty_ring_flush r = r\<lparr>rhead := 0, rtail := 0, rcount := 0\<rparr>"

definition pty_ring_erase_last :: "pty_ring \<Rightarrow> pty_ring \<times> bool" where
  "pty_ring_erase_last r =
     (if rcount r > 0 then
        (let lst = (rtail r + PTY_BUF_CAP - 1) mod PTY_BUF_CAP
         in if buf r lst \<noteq> 10 then (r\<lparr>rtail := lst, rcount := rcount r - 1\<rparr>, True)
            else (r, False))
      else (r, False))"

definition pty_ring_free :: "pty_ring \<Rightarrow> nat" where
  "pty_ring_free r =
     (let used = pty_ring_avail r
      in if used \<ge> PTY_BUF_CAP - 1 then 0 else (PTY_BUF_CAP - 1) - used)"

section \<open>The pair and its line discipline\<close>

definition TCS_IGNCR :: u32 where "TCS_IGNCR = 0x80"
definition TCS_INLCR :: u32 where "TCS_INLCR = 0x40"
definition TCS_ICRNL :: u32 where "TCS_ICRNL = 0x100"
definition TCS_IXON :: u32 where "TCS_IXON = 0x400"
definition TCS_OPOST :: u32 where "TCS_OPOST = 0x1"
definition TCS_ONLCR :: u32 where "TCS_ONLCR = 0x4"
definition TCS_OCRNL :: u32 where "TCS_OCRNL = 0x8"
definition TCS_ISIG :: u32 where "TCS_ISIG = 0x1"
definition TCS_ICANON :: u32 where "TCS_ICANON = 0x2"
definition TCS_ECHO :: u32 where "TCS_ECHO = 0x8"
definition TCS_ECHOE :: u32 where "TCS_ECHOE = 0x10"
definition TCS_ECHOK :: u32 where "TCS_ECHOK = 0x20"
definition TCS_ECHONL :: u32 where "TCS_ECHONL = 0x40"
definition TCS_ECHOCTL :: u32 where "TCS_ECHOCTL = 0x200"
definition TCS_IEXTEN :: u32 where "TCS_IEXTEN = 0x8000"
definition TCS_CFLAG_DEF :: u32 where "TCS_CFLAG_DEF = 0xCB7"
definition TCS_VERASE :: nat where "TCS_VERASE = 2"
definition TCS_VKILL :: nat where "TCS_VKILL = 3"
definition PTY_NCCS :: nat where "PTY_NCCS = 19"
definition PTY_MAX :: nat where "PTY_MAX = 32"

record pty_pair =
  pindex :: int
  in_use :: bool
  locked :: int
  master_opens :: int
  slave_opens :: int
  fg_pgrp :: int
  controlling_sid :: int
  term_iflag :: u32
  term_oflag :: u32
  term_cflag :: u32
  term_lflag :: u32
  term_cc :: "byte list"
  ws_row :: "16 word"
  ws_col :: "16 word"
  m2s :: pty_ring
  s2m :: pty_ring

definition flag :: "u32 \<Rightarrow> u32 \<Rightarrow> bool" where
  "flag w b \<longleftrightarrow> w AND b \<noteq> 0"

definition pty_init_termios :: "pty_pair \<Rightarrow> pty_pair" where
  "pty_init_termios p = p\<lparr>
     term_iflag := TCS_ICRNL OR TCS_IXON,
     term_oflag := TCS_OPOST OR TCS_ONLCR,
     term_cflag := TCS_CFLAG_DEF,
     term_lflag := TCS_ISIG OR TCS_ICANON OR TCS_ECHO OR TCS_ECHOE OR TCS_ECHOK OR TCS_IEXTEN,
     term_cc := [3, 28, 127, 21, 4, 0, 1, 0, 17, 19, 26] @ replicate 8 0\<rparr>"

text \<open>Pair operations carry the log of unblocked threads.\<close>

type_synonym pw = "pty_pair \<times> int list"

definition write_s2m :: "byte list \<Rightarrow> pw \<Rightarrow> pw \<times> nat" where
  "write_s2m src pw =
     (let (p, w) = pw; (r, k, ts) = pty_ring_write src (s2m p)
      in ((p\<lparr>s2m := r\<rparr>, w @ ts), k))"

definition write_m2s :: "byte list \<Rightarrow> pw \<Rightarrow> pw \<times> nat" where
  "write_m2s src pw =
     (let (p, w) = pw; (r, k, ts) = pty_ring_write src (m2s p)
      in ((p\<lparr>m2s := r\<rparr>, w @ ts), k))"

definition opost_bytes :: "u32 \<Rightarrow> byte \<Rightarrow> byte list" where
  "opost_bytes oflag c =
     (if flag oflag TCS_OPOST \<and> flag oflag TCS_ONLCR \<and> c = 10 then [13, 10]
      else if flag oflag TCS_OPOST \<and> flag oflag TCS_OCRNL \<and> c = 13 then [10]
      else [c])"

definition pty_opost_one :: "byte \<Rightarrow> pw \<Rightarrow> pw \<times> bool" where
  "pty_opost_one c pw =
     (let tmp = opost_bytes (term_oflag (fst pw)) c
      in if pty_ring_free (s2m (fst pw)) < length tmp then (pw, False)
         else (let (pw, k) = write_s2m tmp pw in (pw, k = length tmp)))"

definition pty_echo_char :: "byte \<Rightarrow> pw \<Rightarrow> pw" where
  "pty_echo_char c pw =
     (let lflag = term_lflag (fst pw)
      in if \<not> flag lflag TCS_ECHO \<and> \<not> (flag lflag TCS_ECHONL \<and> c = 10) then pw
         else if flag lflag TCS_ECHOCTL \<and> c < 32 \<and> c \<noteq> 9 \<and> c \<noteq> 10 \<and> c \<noteq> 13
           then fst (write_s2m [94, c + 64] pw)
         else if flag lflag TCS_ECHOCTL \<and> c = 127 then fst (write_s2m [94, 63] pw)
         else fst (pty_opost_one c pw))"

fun pty_output_from_slave :: "byte list \<Rightarrow> pw \<Rightarrow> pw \<times> nat" where
  "pty_output_from_slave [] pw = (pw, 0)"
| "pty_output_from_slave (c # src) pw =
     (let (pw', ok) = pty_opost_one c pw
      in if \<not> ok then (pw', 0)
         else (let (pw'', i) = pty_output_from_slave src pw' in (pw'', i + 1)))"

text \<open>The rubout sequence that erasing a character echoes, when both flags ask for it.\<close>

definition echo_rubout :: "u32 \<Rightarrow> pw \<Rightarrow> pw" where
  "echo_rubout lflag pw =
     (if flag lflag TCS_ECHO \<and> flag lflag TCS_ECHOE then fst (write_s2m [8, 32, 8] pw) else pw)"

text \<open>The loop of the kill character; \<open>pty_ring_erase_last\<close> shortens the ring, so the number of
  bytes in it bounds the iterations.\<close>

definition erase_m2s :: "pw \<Rightarrow> pw \<times> bool" where
  "erase_m2s pw = (let (p, w) = pw; (r, ok) = pty_ring_erase_last (m2s p) in ((p\<lparr>m2s := r\<rparr>, w), ok))"

lemma erase_m2s_count:
  "(pw', True) = erase_m2s pw \<Longrightarrow> rcount (m2s (fst pw')) < rcount (m2s (fst pw))"
  by (auto simp: erase_m2s_def pty_ring_erase_last_def Let_def split: prod.splits if_splits)

lemma echo_rubout_m2s [simp]: "m2s (fst (echo_rubout f pw)) = m2s (fst pw)"
  by (auto simp: echo_rubout_def write_s2m_def Let_def split: prod.splits)

function kill_line :: "u32 \<Rightarrow> pw \<Rightarrow> pw" where
  "kill_line lflag pw =
     (let (pw', ok) = erase_m2s pw
      in if ok then kill_line lflag (echo_rubout lflag pw') else pw')"
  by pat_completeness auto
termination
  by (relation "measure (\<lambda>(f, pw). rcount (m2s (fst pw)))") (auto dest: erase_m2s_count)

declare kill_line.simps [simp del]

definition input_map :: "u32 \<Rightarrow> byte \<Rightarrow> byte" where
  "input_map iflag c =
     (if flag iflag TCS_ICRNL \<and> c = 13 then 10
      else if flag iflag TCS_INLCR \<and> c = 10 then 13 else c)"

text \<open>One iteration of the loop of \<open>pty_input_from_master\<close>; the result tells whether it goes on.\<close>

definition input_char :: "u32 \<Rightarrow> u32 \<Rightarrow> byte \<Rightarrow> byte \<Rightarrow> byte \<Rightarrow> pw \<Rightarrow> pw \<times> bool" where
  "input_char iflag lflag verase vkill c pw =
     (if flag iflag TCS_IGNCR \<and> c = 13 then (pw, True)
      else
        (let c = input_map iflag c
         in if flag lflag TCS_ICANON \<and> verase \<noteq> 0 \<and> c = verase then
              (let (pw, ok) = erase_m2s pw
               in (if ok then echo_rubout lflag pw else pw, True))
            else if flag lflag TCS_ICANON \<and> vkill \<noteq> 0 \<and> c = vkill then
              (kill_line lflag pw, True)
            else if pty_ring_free (m2s (fst pw)) < 1 then (pw, False)
            else
              (let (pw, k) = write_m2s [c] pw
               in if k \<noteq> 1 then (pw, False) else (pty_echo_char c pw, True))))"

fun input_loop :: "u32 \<Rightarrow> u32 \<Rightarrow> byte \<Rightarrow> byte \<Rightarrow> byte list \<Rightarrow> pw \<Rightarrow> pw \<times> nat" where
  "input_loop iflag lflag verase vkill [] pw = (pw, 0)"
| "input_loop iflag lflag verase vkill (c # src) pw =
     (let (pw', go) = input_char iflag lflag verase vkill c pw
      in if \<not> go then (pw', 0)
         else (let (pw'', i) = input_loop iflag lflag verase vkill src pw' in (pw'', i + 1)))"

definition pty_input_from_master :: "byte list \<Rightarrow> pw \<Rightarrow> pw \<times> nat" where
  "pty_input_from_master src pw =
     input_loop (term_iflag (fst pw)) (term_lflag (fst pw))
       (term_cc (fst pw) ! TCS_VERASE) (term_cc (fst pw) ! TCS_VKILL) src pw"

section \<open>Files and the table\<close>

definition FS_TYPE_REG :: int where "FS_TYPE_REG = 1"

record pty_file =
  pf_path :: string
  pf_type :: int
  pf_size :: nat
  pf_pos :: nat
  pf_refcount :: int
  pf_flags :: u32
  driver_private :: addr

record pty_handle =
  is_master :: bool
  hpair :: nat \<comment> \<open>the index of the pair in \<open>g_ptys\<close>\<close>

record pty_state =
  g_ptys :: "nat \<Rightarrow> pty_pair"
  pfiles :: "addr \<Rightarrow> pty_file option"
  phandles :: "addr \<Rightarrow> pty_handle option" \<comment> \<open>the objects whose magic is \<open>PTY_HANDLE_MAGIC\<close>\<close>
  unblocked :: "int list"

definition pty_handle_of :: "addr \<Rightarrow> pty_state \<Rightarrow> pty_handle option" where
  "pty_handle_of f s =
     (if f = 0 then None
      else case pfiles s f of
        None \<Rightarrow> None
      | Some ff \<Rightarrow> if driver_private ff = 0 then None else phandles s (driver_private ff))"

definition pty_is_file :: "addr \<Rightarrow> pty_state \<Rightarrow> bool" where
  "pty_is_file f s = (pty_handle_of f s \<noteq> None)"

definition pty_is_master :: "addr \<Rightarrow> pty_state \<Rightarrow> bool" where
  "pty_is_master f s = (case pty_handle_of f s of None \<Rightarrow> False | Some h \<Rightarrow> is_master h)"

definition hpty :: "pty_handle \<Rightarrow> pty_state \<Rightarrow> pty_pair" where \<comment> \<open>\<open>*h->pair\<close>\<close>
  "hpty h s = g_ptys s (hpair h)"

definition pty_get_index :: "addr \<Rightarrow> pty_state \<Rightarrow> int" where
  "pty_get_index f s = (case pty_handle_of f s of None \<Rightarrow> - 1 | Some h \<Rightarrow> pindex (hpty h s))"

definition set_pty :: "nat \<Rightarrow> (pty_pair \<Rightarrow> pty_pair) \<Rightarrow> pty_state \<Rightarrow> pty_state" where
  "set_pty i u s = s\<lparr>g_ptys := (g_ptys s)(i := u (g_ptys s i))\<rparr>"

text \<open>\<open>af\<close>, \<open>ah\<close> and \<open>ap\<close> are what \<open>kmalloc\<close> returned for the file, the handle and the path.\<close>

definition pty_alloc_file ::
    "string \<Rightarrow> nat \<Rightarrow> bool \<Rightarrow> addr \<times> addr \<times> addr \<Rightarrow> pty_state \<Rightarrow> pty_state \<times> addr" where
  "pty_alloc_file path pair master al s =
     (let (af, ah, ap) = al
      in if af = 0 \<or> ah = 0 then (s, 0)
         else if ap = 0 then (s, 0)
         else (s\<lparr>phandles := (phandles s)(ah \<mapsto> \<lparr>is_master = master, hpair = pair\<rparr>),
                 pfiles := (pfiles s)(af \<mapsto> \<lparr>pf_path = path, pf_type = FS_TYPE_REG,
                    pf_size = 0, pf_pos = 0, pf_refcount = 1, pf_flags = 0,
                    driver_private = ah\<rparr>)\<rparr>, af))"

definition pty_fresh :: "nat \<Rightarrow> pty_pair" where \<comment> \<open>the pair as \<open>pty_open_ptmx\<close> fills it\<close>
  "pty_fresh i = (pty_init_termios
     \<lparr>pindex = int i, in_use = True, locked = 0, master_opens = 0, slave_opens = 0,
      fg_pgrp = - 1, controlling_sid = - 1, term_iflag = 0, term_oflag = 0, term_cflag = 0,
      term_lflag = 0, term_cc = replicate PTY_NCCS 0, ws_row = 24, ws_col = 80,
      m2s = pty_ring_init, s2m = pty_ring_init\<rparr>)\<lparr>master_opens := 1\<rparr>"

fun first_unused :: "nat \<Rightarrow> nat \<Rightarrow> (nat \<Rightarrow> pty_pair) \<Rightarrow> nat option" where
  "first_unused 0 i ps = None"
| "first_unused (Suc k) i ps = (if \<not> in_use (ps i) then Some i else first_unused k (i + 1) ps)"

definition pty_open_ptmx :: "addr \<times> addr \<times> addr \<Rightarrow> pty_state \<Rightarrow> pty_state \<times> addr option" where
  "pty_open_ptmx al s =
     (case first_unused PTY_MAX 0 (g_ptys s) of
        None \<Rightarrow> (s, None)
      | Some i \<Rightarrow>
          (let s = set_pty i (\<lambda>_. pty_fresh i) s;
               (s, f) = pty_alloc_file ''/dev/ptmx'' i True al s
           in if f = 0 then (set_pty i (\<lambda>p. p\<lparr>in_use := False\<rparr>) s, None) else (s, Some f)))"

definition pts_path :: "nat \<Rightarrow> string" where \<comment> \<open>\<open>snprintf "/dev/pts/%d"\<close>, two digits at most\<close>
  "pts_path i = ''/dev/pts/'' @
     (if i < 10 then [char_of (48 + i)] else [char_of (48 + i div 10), char_of (48 + i mod 10)])"

text \<open>The two critical sections of \<open>pty_open_slave\<close>: taking the reference, and the rest.\<close>

definition open_slave_ref :: "int \<Rightarrow> pty_state \<Rightarrow> pty_state option" where
  "open_slave_ref index s =
     (if index < 0 \<or> index \<ge> int PTY_MAX then None
      else if \<not> in_use (g_ptys s (nat index)) then None
      else Some (set_pty (nat index) (\<lambda>p. p\<lparr>slave_opens := slave_opens p + 1\<rparr>) s))"

definition open_slave_file :: "int \<Rightarrow> addr \<times> addr \<times> addr \<Rightarrow> pty_state \<Rightarrow> pty_state \<times> addr option" where
  "open_slave_file index al s =
     (let (s, f) = pty_alloc_file (pts_path (nat index)) (nat index) False al s
      in if f = 0
         then (set_pty (nat index)
                 (\<lambda>p. if slave_opens p > 0 then p\<lparr>slave_opens := slave_opens p - 1\<rparr> else p) s, None)
         else (s, Some f))"

definition pty_open_slave ::
    "int \<Rightarrow> addr \<times> addr \<times> addr \<Rightarrow> pty_state \<Rightarrow> pty_state \<times> addr option" where
  "pty_open_slave index al s =
     (case open_slave_ref index s of
        None \<Rightarrow> (s, None)
      | Some s \<Rightarrow> open_slave_file index al s)"

subsection \<open>Reading and writing\<close>

definition in_ring :: "pty_handle \<Rightarrow> pty_state \<Rightarrow> pty_ring" where \<comment> \<open>\<open>pty_in_ring\<close>\<close>
  "in_ring h s = (if is_master h then s2m (hpty h s) else m2s (hpty h s))"

definition set_in_ring :: "pty_handle \<Rightarrow> pty_ring \<Rightarrow> pty_state \<Rightarrow> pty_state" where
  "set_in_ring h r s =
     set_pty (hpair h) (\<lambda>p. if is_master h then p\<lparr>s2m := r\<rparr> else p\<lparr>m2s := r\<rparr>) s"

datatype read_result =
    Returned int "byte list" \<comment> \<open>the value and the bytes stored in the buffer\<close>
  | StillBlocked

text \<open>Registering the reader before it blocks.\<close>

definition ring_enlist :: "int \<Rightarrow> pty_ring \<Rightarrow> pty_ring" where
  "ring_enlist tid r =
     (if length (waiters r) < PTY_WAITERS then r\<lparr>waiters := waiters r @ [tid]\<rparr> else r)"

type_synonym wakeup = "(pty_state \<Rightarrow> pty_state) \<times> bool"

fun pty_ring_read ::
    "pty_handle \<Rightarrow> nat \<Rightarrow> int option \<Rightarrow> wakeup list \<Rightarrow> pty_state \<Rightarrow> pty_state \<times> read_result" where
  "pty_ring_read h n cur env s =
     (let (r, bs) = ring_get_loop n (in_ring h s)
      in if bs \<noteq> [] then (set_in_ring h r s, Returned (int (length bs)) bs)
         else case cur of
           None \<Rightarrow> (s, Returned 0 [])
         | Some tid \<Rightarrow>
             (let s = set_in_ring h (ring_enlist tid (in_ring h s)) s
              in case env of
                   [] \<Rightarrow> (s, StillBlocked)
                 | (e, sig) # env \<Rightarrow>
                     if sig then (e s, Returned (- 4) [])
                     else pty_ring_read h n cur env (e s)))"

definition file_flags :: "addr \<Rightarrow> pty_state \<Rightarrow> u32" where \<comment> \<open>\<open>f->flags\<close>\<close>
  "file_flags f s = (case pfiles s f of Some ff \<Rightarrow> pf_flags ff | None \<Rightarrow> 0)"

fun pty_read_loop ::
    "addr \<Rightarrow> pty_handle \<Rightarrow> nat \<Rightarrow> int option \<Rightarrow> wakeup list \<Rightarrow> pty_state \<Rightarrow> pty_state \<times> read_result" where
  "pty_read_loop f h n cur env s =
     (if pty_ring_avail (in_ring h s) > 0 then pty_ring_read h n cur env s
      else if is_master h \<and> slave_opens (hpty h s) = 0 then (s, Returned 0 [])
      else if \<not> is_master h \<and> master_opens (hpty h s) = 0 then (s, Returned 0 [])
      else if flag (file_flags f s) 0x800 then (s, Returned (- 11) [])
      else case cur of
        None \<Rightarrow> (s, Returned 0 [])
      | Some tid \<Rightarrow>
          (let s = set_in_ring h (ring_enlist tid (in_ring h s)) s
           in case env of
                [] \<Rightarrow> (s, StillBlocked)
              | (e, sig) # env \<Rightarrow>
                  if sig then (e s, Returned (- 4) [])
                  else pty_read_loop f h n cur env (e s)))"

declare pty_ring_read.simps [simp del] pty_read_loop.simps [simp del]

definition pty_read ::
    "addr \<Rightarrow> nat \<Rightarrow> int option \<Rightarrow> wakeup list \<Rightarrow> pty_state \<Rightarrow> pty_state \<times> read_result" where
  "pty_read f n cur env s =
     (case pty_handle_of f s of
        None \<Rightarrow> (s, Returned (- 1) [])
      | Some h \<Rightarrow>
          if n = 0 then (s, Returned (- 1) [])
          else pty_read_loop f h n cur env s)"

definition pty_push :: "pty_handle \<Rightarrow> byte list \<Rightarrow> pty_state \<Rightarrow> pty_state \<times> nat" where
  "pty_push h src s =
     (let ((p, w), k) = (if is_master h then pty_input_from_master src (hpty h s, unblocked s)
                         else pty_output_from_slave src (hpty h s, unblocked s))
      in (s\<lparr>g_ptys := (g_ptys s)(hpair h := p), unblocked := w\<rparr>, k))"

text \<open>The loop of \<open>pty_write\<close>. \<open>yld k\<close> is what other threads do in the \<open>thread_yield\<close> of the
  iteration that made no progress after \<open>k\<close> bytes.\<close>

function pty_write_loop ::
    "(nat \<Rightarrow> pty_state \<Rightarrow> pty_state) \<Rightarrow> pty_handle \<Rightarrow> byte list \<Rightarrow> nat \<Rightarrow> pty_state \<Rightarrow> pty_state \<times> nat" where
  "pty_write_loop yld h src k s =
     (if k < length src then
        (let (s1, w) = pty_push h (drop k src) s
         in if w = 0 then
              (let (s2, w) = pty_push h (drop k src) (yld k s1)
               in if w = 0 then (s2, k) else pty_write_loop yld h src (k + w) s2)
            else pty_write_loop yld h src (k + w) s1)
      else (s, k))"
  by pat_completeness auto
termination
  by (relation "measure (\<lambda>(y, h, src, k, s). length src - k)") auto

declare pty_write_loop.simps [simp del]

definition pty_write ::
    "(nat \<Rightarrow> pty_state \<Rightarrow> pty_state) \<Rightarrow> addr \<Rightarrow> byte list \<Rightarrow> pty_state \<Rightarrow> pty_state \<times> int" where
  "pty_write yld f src s =
     (case pty_handle_of f s of
        None \<Rightarrow> (s, - 1)
      | Some h \<Rightarrow>
          if src = [] then (s, 0)
          else (let (s, k) = pty_write_loop yld h src 0 s
                in (s, if k \<noteq> 0 then int k else - 1)))"

subsection \<open>Closing\<close>

definition wake_both :: "pty_pair \<Rightarrow> pty_pair \<times> int list" where
  "wake_both p =
     (let (a, u) = pty_ring_wake (m2s p); (b, v) = pty_ring_wake (s2m p)
      in (p\<lparr>m2s := a, s2m := b\<rparr>, u @ v))"

text \<open>The critical section of \<open>pty_release_handle\<close>; \<open>m\<close> is \<open>h->is_master\<close>.\<close>

definition release_ref :: "bool \<Rightarrow> pty_pair \<Rightarrow> pty_pair \<times> int list" where
  "release_ref m p =
     (let p = (if m
               then (if master_opens p > 0 then p\<lparr>master_opens := master_opens p - 1\<rparr> else p)
               else (if slave_opens p > 0 then p\<lparr>slave_opens := slave_opens p - 1\<rparr> else p));
          (p, w) = wake_both p
      in (if master_opens p = 0 \<and> slave_opens p = 0 then p\<lparr>in_use := False\<rparr> else p, w))"

definition pty_release_handle :: "addr \<Rightarrow> pty_state \<Rightarrow> pty_state" where
  "pty_release_handle f s =
     (case pty_handle_of f s of
        None \<Rightarrow> s
      | Some h \<Rightarrow>
          (let (p, w) = release_ref (is_master h) (hpty h s);
               ff = the (pfiles s f)
           in s\<lparr>g_ptys := (g_ptys s)(hpair h := p), unblocked := unblocked s @ w,
                phandles := (phandles s)(driver_private ff := None),
                pfiles := (pfiles s)(f \<mapsto> ff\<lparr>driver_private := 0\<rparr>)\<rparr>))"

subsection \<open>Polling and settings\<close>

definition pty_available :: "addr \<Rightarrow> pty_state \<Rightarrow> nat" where
  "pty_available f s =
     (case pty_handle_of f s of None \<Rightarrow> 0 | Some h \<Rightarrow> pty_ring_avail (in_ring h s))"

definition pty_peer_hungup :: "addr \<Rightarrow> pty_state \<Rightarrow> bool" where
  "pty_peer_hungup f s =
     (case pty_handle_of f s of None \<Rightarrow> False
      | Some h \<Rightarrow> if is_master h then slave_opens (hpty h s) = 0 else master_opens (hpty h s) = 0)"

definition pty_add_waiter :: "addr \<Rightarrow> int \<Rightarrow> pty_state \<Rightarrow> pty_state \<times> int" where
  "pty_add_waiter f tid s =
     (case pty_handle_of f s of
        None \<Rightarrow> (s, - 1)
      | Some h \<Rightarrow>
          if tid < 0 then (s, - 1)
          else if tid \<in> set (waiters (in_ring h s)) then (s, 0)
          else if length (waiters (in_ring h s)) \<ge> PTY_WAITERS then (s, - 1)
          else (set_in_ring h ((in_ring h s)\<lparr>waiters := waiters (in_ring h s) @ [tid]\<rparr>) s, 0))"

text \<open>Removing the first entry equal to \<open>tid\<close> moves the last entry into its place.\<close>

fun remove_waiter :: "int \<Rightarrow> int list \<Rightarrow> int list" where
  "remove_waiter tid [] = []"
| "remove_waiter tid (t # ts) =
     (if t = tid then (if ts = [] then [] else last ts # butlast ts)
      else t # remove_waiter tid ts)"

definition pty_remove_waiter :: "addr \<Rightarrow> int \<Rightarrow> pty_state \<Rightarrow> pty_state" where
  "pty_remove_waiter f tid s =
     (case pty_handle_of f s of
        None \<Rightarrow> s
      | Some h \<Rightarrow>
          if tid < 0 then s
          else set_in_ring h
            ((in_ring h s)\<lparr>waiters := remove_waiter tid (waiters (in_ring h s))\<rparr>) s)"

definition pty_set_locked :: "addr \<Rightarrow> int \<Rightarrow> pty_state \<Rightarrow> pty_state \<times> int" where
  "pty_set_locked f l s =
     (case pty_handle_of f s of
        None \<Rightarrow> (s, - 1)
      | Some h \<Rightarrow> if \<not> is_master h then (s, - 1)
                  else (set_pty (hpair h) (\<lambda>p. p\<lparr>locked := if l \<noteq> 0 then 1 else 0\<rparr>) s, 0))"

definition pty_get_locked :: "addr \<Rightarrow> pty_state \<Rightarrow> int" where
  "pty_get_locked f s = (case pty_handle_of f s of None \<Rightarrow> 1 | Some h \<Rightarrow> locked (hpty h s))"

definition pty_get_lflag :: "addr \<Rightarrow> pty_state \<Rightarrow> u32" where
  "pty_get_lflag f s = (case pty_handle_of f s of None \<Rightarrow> 0 | Some h \<Rightarrow> term_lflag (hpty h s))"

text \<open>The settings \<open>pty_get_termios\<close> stores through its pointers; \<open>ncc\<close> is the length of the
  caller's \<open>cc\<close> array (0 for a NULL pointer).\<close>

definition pty_get_termios :: "addr \<Rightarrow> nat \<Rightarrow> pty_state \<Rightarrow> (u32 \<times> u32 \<times> u32 \<times> u32 \<times> byte list) option" where
  "pty_get_termios f ncc s =
     (case pty_handle_of f s of
        None \<Rightarrow> None
      | Some h \<Rightarrow> (let p = hpty h s in
          Some (term_iflag p, term_oflag p, term_cflag p, term_lflag p,
                take (if ncc < PTY_NCCS then ncc else PTY_NCCS) (term_cc p))))"

definition pty_set_termios ::
    "addr \<Rightarrow> u32 \<Rightarrow> u32 \<Rightarrow> u32 \<Rightarrow> u32 \<Rightarrow> byte list \<Rightarrow> pty_state \<Rightarrow> pty_state" where
  "pty_set_termios f ifl ofl cfl lfl cc s =
     (case pty_handle_of f s of
        None \<Rightarrow> s
      | Some h \<Rightarrow>
          (let n = (if length cc < PTY_NCCS then length cc else PTY_NCCS)
           in set_pty (hpair h) (\<lambda>p. p\<lparr>term_iflag := ifl, term_oflag := ofl, term_cflag := cfl,
                term_lflag := lfl, term_cc := take n cc @ drop n (term_cc p)\<rparr>) s))"

definition pty_get_winsize :: "addr \<Rightarrow> pty_state \<Rightarrow> (16 word \<times> 16 word) option" where
  "pty_get_winsize f s =
     (case pty_handle_of f s of None \<Rightarrow> None | Some h \<Rightarrow> Some (ws_row (hpty h s), ws_col (hpty h s)))"

definition pty_set_winsize :: "addr \<Rightarrow> 16 word \<Rightarrow> 16 word \<Rightarrow> pty_state \<Rightarrow> pty_state" where
  "pty_set_winsize f row col s =
     (case pty_handle_of f s of
        None \<Rightarrow> s
      | Some h \<Rightarrow> set_pty (hpair h) (\<lambda>p. p\<lparr>ws_row := if row \<noteq> 0 then row else ws_row p,
                                          ws_col := if col \<noteq> 0 then col else ws_col p\<rparr>) s)"

definition pty_get_fg_pgrp :: "addr \<Rightarrow> pty_state \<Rightarrow> int" where
  "pty_get_fg_pgrp f s = (case pty_handle_of f s of None \<Rightarrow> - 1 | Some h \<Rightarrow> fg_pgrp (hpty h s))"

definition pty_set_fg_pgrp :: "addr \<Rightarrow> int \<Rightarrow> pty_state \<Rightarrow> pty_state \<times> int" where
  "pty_set_fg_pgrp f pgid s =
     (case pty_handle_of f s of
        None \<Rightarrow> (s, - 1)
      | Some h \<Rightarrow> if pgid \<le> 0 then (s, - 1)
                  else (set_pty (hpair h) (\<lambda>p. p\<lparr>fg_pgrp := pgid\<rparr>) s, 0))"

definition pty_get_controlling_sid :: "addr \<Rightarrow> pty_state \<Rightarrow> int" where
  "pty_get_controlling_sid f s =
     (case pty_handle_of f s of None \<Rightarrow> - 1 | Some h \<Rightarrow> controlling_sid (hpty h s))"

definition pty_set_controlling_sid :: "addr \<Rightarrow> int \<Rightarrow> pty_state \<Rightarrow> pty_state" where
  "pty_set_controlling_sid f sid s =
     (case pty_handle_of f s of
        None \<Rightarrow> s
      | Some h \<Rightarrow> set_pty (hpair h) (\<lambda>p. p\<lparr>controlling_sid := sid\<rparr>) s)"

end
