(* ===== verification/Pty_Thms.thy ===== *)
theory Pty_Thms
  imports Pty "HOL-Library.Sublist"
begin

text \<open>
  Correctness of the pseudo terminals. The ring buffer implements a bounded queue of bytes
  (locale \<open>byte_queue\<close>); the line discipline is described over the queues' contents; the table's
  reference counts are exact in every reachable state; a blocked reader is woken.
\<close>

section \<open>Byte queues\<close>

text \<open>A client's sequence of operations, and its run: what was accepted and what was delivered.\<close>

datatype queue_op = Push "byte list" | Pull nat

fun qrun :: "(byte list \<Rightarrow> 'q \<Rightarrow> 'q \<times> nat) \<Rightarrow> (nat \<Rightarrow> 'q \<Rightarrow> 'q \<times> byte list) \<Rightarrow>
    queue_op list \<Rightarrow> 'q \<Rightarrow> 'q \<times> byte list \<times> byte list" where
  "qrun push pull [] q = (q, [], [])"
| "qrun push pull (Push bs # ops) q =
     (let (q1, k) = push bs q; (q2, acc, del) = qrun push pull ops q1
      in (q2, take k bs @ acc, del))"
| "qrun push pull (Pull n # ops) q =
     (let (q1, ds) = pull n q; (q2, acc, del) = qrun push pull ops q1
      in (q2, acc, ds @ del))"

locale byte_queue =
  fixes ok :: "'q \<Rightarrow> bool"
    and items :: "'q \<Rightarrow> byte list"
    and push :: "byte list \<Rightarrow> 'q \<Rightarrow> 'q \<times> nat"
    and pull :: "nat \<Rightarrow> 'q \<Rightarrow> 'q \<times> byte list"
    and capacity :: nat
  assumes bound: "ok q \<Longrightarrow> length (items q) \<le> capacity"
    and push_law: "ok q \<Longrightarrow> push bs q = (q', k) \<Longrightarrow>
          ok q' \<and> k = min (length bs) (capacity - length (items q)) \<and> items q' = items q @ take k bs"
    and pull_law: "ok q \<Longrightarrow> pull n q = (q', ds) \<Longrightarrow>
          ok q' \<and> ds = take n (items q) \<and> items q' = drop n (items q)"
begin

text \<open>First in, first out, over any sequence of operations: nothing is lost, duplicated or
  reordered.\<close>

lemma run_fifo:
  "ok q \<Longrightarrow> qrun push pull ops q = (q', acc, del) \<Longrightarrow> ok q' \<and> items q @ acc = del @ items q'"
proof (induction ops arbitrary: q acc del)
  case (Cons op ops)
  show ?case
  proof (cases op)
    case (Push bs)
    obtain q1 k where p: "push bs q = (q1, k)" by fastforce
    obtain q2 acc2 del2 where r: "qrun push pull ops q1 = (q2, acc2, del2)"
      by (metis prod_cases3)
    have "ok q1" "items q1 = items q @ take k bs" using push_law [OF Cons.prems(1) p] by auto
    with Cons.IH [OF _ r [THEN trans]] r Cons.prems(2) p Push show ?thesis
      using Cons.IH [of q1 acc2 del2] by auto
  next
    case (Pull n)
    obtain q1 ds where p: "pull n q = (q1, ds)" by fastforce
    obtain q2 acc2 del2 where r: "qrun push pull ops q1 = (q2, acc2, del2)"
      by (metis prod_cases3)
    have "ok q1" "items q = ds @ items q1" using pull_law [OF Cons.prems(1) p] by auto
    with r Cons.prems(2) p Pull show ?thesis
      using Cons.IH [of q1 acc2 del2] by auto
  qed
qed simp

end

section \<open>The ring implements a queue\<close>

definition ring_ok :: "pty_ring \<Rightarrow> bool" where
  "ring_ok r \<longleftrightarrow> rhead r < PTY_BUF_CAP \<and> rcount r < PTY_BUF_CAP \<and>
     rtail r = (rhead r + rcount r) mod PTY_BUF_CAP \<and> length (waiters r) \<le> PTY_WAITERS"

definition ring_list :: "pty_ring \<Rightarrow> byte list" where
  "ring_list r = map (\<lambda>i. buf r ((rhead r + i) mod PTY_BUF_CAP)) [0..<rcount r]"

lemma length_ring_list [simp]: "length (ring_list r) = rcount r"
  by (simp add: ring_list_def)

lemma ring_init_ok [simp]: "ring_ok pty_ring_init" "ring_list pty_ring_init = []"
  by (simp_all add: ring_ok_def pty_ring_init_def ring_list_def PTY_BUF_CAP_def)

lemma ring_waiters [simp]:
  "ring_list (r\<lparr>waiters := ws\<rparr>) = ring_list r"
  "ring_ok r \<Longrightarrow> length ws \<le> PTY_WAITERS \<Longrightarrow> ring_ok (r\<lparr>waiters := ws\<rparr>)"
  by (simp_all add: ring_list_def ring_ok_def)

lemma mod_shift_neq: "i < j \<Longrightarrow> j < i + n \<Longrightarrow> (h + i) mod n \<noteq> (h + j) mod (n :: nat)"
proof
  assume "i < j" "j < i + n" "(h + i) mod n = (h + j) mod n"
  then have "n dvd (h + j) - (h + i)" by (metis add_le_cancel_left less_imp_le mod_eq_dvd_iff_nat)
  with \<open>i < j\<close> \<open>j < i + n\<close> show False by (auto dest: dvd_imp_le)
qed

lemma ring_put_one:
  fixes c :: byte
  assumes "ring_ok r" and "rcount r < PTY_BUF_CAP - 1"
  defines "r' \<equiv> r\<lparr>buf := (buf r)(rtail r := c), rtail := (rtail r + 1) mod PTY_BUF_CAP,
                   rcount := rcount r + 1\<rparr>"
  shows "ring_ok r' \<and> ring_list r' = ring_list r @ [c]"
proof
  show "ring_ok r'" using assms by (auto simp: ring_ok_def mod_Suc_eq)
  have "(rhead r + i) mod PTY_BUF_CAP \<noteq> rtail r" if "i < rcount r" for i
    using assms that mod_shift_neq [of i "rcount r" PTY_BUF_CAP "rhead r"] by (auto simp: ring_ok_def)
  then show "ring_list r' = ring_list r @ [c]"
    using assms(1) by (auto simp: r'_def ring_list_def ring_ok_def)
qed

lemma ring_put_loop_list:
  "ring_ok r \<Longrightarrow> ring_put_loop src r k = (r', k') \<Longrightarrow>
   ring_ok r' \<and> k' = k + min (length src) (PTY_BUF_CAP - 1 - rcount r) \<and>
   ring_list r' = ring_list r @ take (k' - k) src \<and> waiters r' = waiters r"
proof (induction src r k rule: ring_put_loop.induct)
  case (2 c src r k)
  show ?case
  proof (cases "rcount r < PTY_BUF_CAP - 1")
    case True
    note one = ring_put_one [OF 2(2) True, of c]
    from 2(1) [OF True] one 2(3) True show ?thesis
      by (auto simp: min_def Suc_diff_le split: if_splits)
  next
    case False
    with 2 show ?thesis by (auto simp: min_def)
  qed
qed simp

lemma ring_get_loop_list:
  "ring_ok r \<Longrightarrow> ring_get_loop n r = (r', bs) \<Longrightarrow>
   ring_ok r' \<and> bs = take n (ring_list r) \<and> ring_list r' = drop n (ring_list r) \<and>
   waiters r' = waiters r"
proof (induction n r arbitrary: bs rule: ring_get_loop.induct)
  case (2 n r)
  show ?case
  proof (cases "rcount r > 0")
    case True
    define r1 where "r1 = r\<lparr>rhead := (rhead r + 1) mod PTY_BUF_CAP, rcount := rcount r - 1\<rparr>"
    obtain r2 cs where g: "ring_get_loop n r1 = (r2, cs)" by fastforce
    have "ring_ok r1" using 2(2) True
      by (cases "rcount r") (auto simp: r1_def ring_ok_def mod_simps)
    moreover have "[0..<rcount r] = 0 # map Suc [0..<rcount r - 1]"
      using True by (cases "rcount r") (simp_all add: upt_conv_Cons map_Suc_upt del: upt_Suc)
    then have "ring_list r = buf r (rhead r) # ring_list r1"
      using 2(2) by (simp add: ring_list_def r1_def ring_ok_def mod_simps o_def)
    moreover have "ring_get_loop (Suc n) r = (r2, buf r (rhead r) # cs)"
      using True g by (simp add: r1_def)
    ultimately show ?thesis
      using 2(1) [OF True, folded r1_def, of cs] g 2(3) by (auto simp: r1_def)
  next
    case False
    with 2 show ?thesis by (auto simp: ring_list_def)
  qed
qed simp

definition ring_put :: "byte list \<Rightarrow> pty_ring \<Rightarrow> pty_ring \<times> nat" where
  "ring_put src r = (let (r, k, w) = pty_ring_write src r in (r, k))"

definition ring_get :: "nat \<Rightarrow> pty_ring \<Rightarrow> pty_ring \<times> byte list" where
  "ring_get n r = ring_get_loop n r"

lemma pty_ring_write_list:
  assumes "ring_ok r" and "pty_ring_write src r = (r', k, w)"
  shows "ring_ok r' \<and> k = min (length src) (PTY_BUF_CAP - 1 - rcount r) \<and>
    ring_list r' = ring_list r @ take k src \<and>
    (if k = 0 then r' = r \<and> w = [] else waiters r' = [] \<and> w = filter (\<lambda>t. t \<ge> 0) (waiters r))"
proof -
  obtain r1 k1 where p: "ring_put_loop src r 0 = (r1, k1)" by fastforce
  define M where "M = min (length src) (PTY_BUF_CAP - 1 - rcount r)"
  have L: "ring_ok r1" "k1 = M" "ring_list r1 = ring_list r @ take M src" "waiters r1 = waiters r"
    using ring_put_loop_list [OF assms(1) p] by (simp_all add: M_def)
  have "(r', k, w) = (if M > 0
      then (r1\<lparr>waiters := []\<rparr>, M, filter (\<lambda>t. t \<ge> 0) (waiters r1)) else (r1, M, []))"
    using assms(2) p L(2) by (cases "M > 0") (simp_all add: pty_ring_write_def pty_ring_wake_def)
  moreover have "r1 = r" if "M = 0"
    using p that by (cases src) (auto split: if_splits simp: M_def)
  ultimately show ?thesis
    unfolding M_def [symmetric] using L assms(1) by (cases "M = 0") auto
qed

interpretation pty_queue: byte_queue ring_ok ring_list ring_put ring_get "PTY_BUF_CAP - 1"
proof
  show "length (ring_list q) \<le> PTY_BUF_CAP - 1" if "ring_ok q" for q
    using that by (auto simp: ring_ok_def)
  show "ring_ok q' \<and> k = min (length bs) (PTY_BUF_CAP - 1 - length (ring_list q)) \<and>
      ring_list q' = ring_list q @ take k bs" if "ring_ok q" "ring_put bs q = (q', k)" for q bs q' k
    using that pty_ring_write_list [OF that(1), of bs] by (auto simp: ring_put_def split: prod.splits)
  show "ring_ok q' \<and> ds = take n (ring_list q) \<and> ring_list q' = drop n (ring_list q)"
    if "ring_ok q" "ring_get n q = (q', ds)" for q n q' ds
    using that ring_get_loop_list [OF that(1), of n] by (auto simp: ring_get_def)
qed

text \<open>C19. The ring is a first-in-first-out queue: over any sequence of writes and reads, of any
  sizes and through any number of wrap-arounds of the buffer, the bytes read followed by the
  bytes still queued are the bytes queued at the start followed by the bytes the writes
  accepted.\<close>

theorem pty_ring_fifo:
  "ring_ok r \<Longrightarrow> qrun ring_put ring_get ops r = (r', acc, del) \<Longrightarrow>
   ring_ok r' \<and> ring_list r @ acc = del @ ring_list r'"
  by (rule pty_queue.run_fifo)

theorem pty_ring_fifo_witness:
  "\<exists>r' acc del. qrun ring_put ring_get [Push [1, 2, 3], Pull 2, Push [4]] pty_ring_init = (r', acc, del) \<and>
    acc = del @ ring_list r'"
  using pty_ring_fifo [OF ring_init_ok(1), of "[Push [1, 2, 3], Pull 2, Push [4]]"]
  by (cases "qrun ring_put ring_get [Push [1, 2, 3], Pull 2, Push [4]] pty_ring_init") auto

lemma pty_ring_free_list: "ring_ok r \<Longrightarrow> pty_ring_free r = PTY_BUF_CAP - 1 - length (ring_list r)"
  by (auto simp: pty_ring_free_def pty_ring_avail_def Let_def)

text \<open>Rubbing out the last character of the line being typed.\<close>

definition rub :: "byte list \<Rightarrow> byte list" where
  "rub xs = (if xs = [] \<or> last xs = 10 then xs else butlast xs)"

lemma pty_ring_erase_last_list:
  assumes "ring_ok r" and "pty_ring_erase_last r = (r', e)"
  shows "ring_ok r' \<and> ring_list r' = rub (ring_list r) \<and> waiters r' = waiters r \<and>
    (e \<longleftrightarrow> rub (ring_list r) \<noteq> ring_list r)"
proof (cases "rcount r")
  case 0
  with assms show ?thesis by (auto simp: pty_ring_erase_last_def rub_def ring_list_def)
next
  case (Suc n)
  let ?lst = "(rtail r + PTY_BUF_CAP - 1) mod PTY_BUF_CAP"
  have "((h + Suc n) mod 4096 + 4096 - 1) mod 4096 = (h + n) mod (4096 :: nat)" for h
  proof -
    have "((h + Suc n) mod 4096 + 4096 - 1) mod 4096 = (h + Suc n + 4095) mod (4096 :: nat)"
      using mod_add_left_eq [of "h + Suc n" 4096 4095] by (simp add: add.commute [of 4095])
    also have "h + Suc n + 4095 = h + n + 4096" by simp
    finally show ?thesis by (simp only: mod_add_self2)
  qed
  then have lst: "?lst = (rhead r + n) mod PTY_BUF_CAP"
    using assms(1) Suc by (simp add: ring_ok_def PTY_BUF_CAP_def)
  have l: "ring_list r = ring_list (r\<lparr>rtail := ?lst, rcount := n\<rparr>) @ [buf r ?lst]"
    using Suc unfolding lst by (simp add: ring_list_def)
  have ok: "ring_ok (r\<lparr>rtail := ?lst, rcount := n\<rparr>)"
    using assms(1) Suc unfolding lst by (simp add: ring_ok_def)
  show ?thesis
  proof (cases "buf r ?lst = 10")
    case True
    with assms Suc l show ?thesis by (auto simp: pty_ring_erase_last_def rub_def Let_def)
  next
    case False
    with assms Suc have "r' = r\<lparr>rtail := ?lst, rcount := n\<rparr>" "e"
      by (auto simp: pty_ring_erase_last_def Let_def)
    with False l ok show ?thesis by (simp add: rub_def)
  qed
qed

section \<open>The line discipline\<close>

definition pair_ok :: "pty_pair \<Rightarrow> bool" where
  "pair_ok p \<longleftrightarrow> ring_ok (m2s p) \<and> ring_ok (s2m p) \<and> length (term_cc p) = PTY_NCCS"

text \<open>How a pair may change while input or output passes: the rings only, what the master will
  read grows, and threads are only added to the log of unblocked ones.\<close>

definition evolves :: "pw \<Rightarrow> pw \<Rightarrow> bool" where
  "evolves pw pw' \<longleftrightarrow> (pair_ok (fst pw) \<longrightarrow> pair_ok (fst pw') \<and>
     fst pw' = (fst pw)\<lparr>m2s := m2s (fst pw'), s2m := s2m (fst pw')\<rparr> \<and>
     prefix (ring_list (s2m (fst pw))) (ring_list (s2m (fst pw'))) \<and> prefix (snd pw) (snd pw'))"

lemma evolves_refl [simp]: "evolves pw pw"
  by (simp add: evolves_def)

lemma evolves_trans [trans]: "evolves a b \<Longrightarrow> evolves b c \<Longrightarrow> evolves a c"
proof -
  assume ab: "evolves a b" and bc: "evolves b c"
  show ?thesis
    unfolding evolves_def
  proof (intro impI conjI)
    assume a: "pair_ok (fst a)"
    with ab have b: "pair_ok (fst b)" by (simp add: evolves_def)
    have "fst c = (fst b)\<lparr>m2s := m2s (fst c), s2m := s2m (fst c)\<rparr>"
      using b bc by (simp add: evolves_def)
    also have "fst b = (fst a)\<lparr>m2s := m2s (fst b), s2m := s2m (fst b)\<rparr>"
      using a ab by (simp add: evolves_def)
    finally show "fst c = (fst a)\<lparr>m2s := m2s (fst c), s2m := s2m (fst c)\<rparr>" by simp
  qed (use ab bc in \<open>auto simp: evolves_def intro: prefix_order.trans\<close>)
qed

lemma evolves_terms:
  assumes "evolves pw pw'" and "pair_ok (fst pw)"
  shows "term_oflag (fst pw') = term_oflag (fst pw)" "term_lflag (fst pw') = term_lflag (fst pw)"
    "in_use (fst pw') = in_use (fst pw)" "pindex (fst pw') = pindex (fst pw)"
    "master_opens (fst pw') = master_opens (fst pw)" "slave_opens (fst pw') = slave_opens (fst pw)"
proof -
  have e: "fst pw' = (fst pw)\<lparr>m2s := m2s (fst pw'), s2m := s2m (fst pw')\<rparr>"
    using assms by (simp add: evolves_def)
  show "term_oflag (fst pw') = term_oflag (fst pw)" "term_lflag (fst pw') = term_lflag (fst pw)"
    "in_use (fst pw') = in_use (fst pw)" "pindex (fst pw') = pindex (fst pw)"
    "master_opens (fst pw') = master_opens (fst pw)" "slave_opens (fst pw') = slave_opens (fst pw)"
    by (subst e, simp)+
qed

lemma write_s2m_spec:
  assumes "pair_ok (fst pw)" and "write_s2m src pw = (pw', k)"
  shows "evolves pw pw' \<and> m2s (fst pw') = m2s (fst pw) \<and>
    k = min (length src) (PTY_BUF_CAP - 1 - rcount (s2m (fst pw))) \<and>
    ring_list (s2m (fst pw')) = ring_list (s2m (fst pw)) @ take k src \<and>
    (k > 0 \<longrightarrow> snd pw' = snd pw @ filter (\<lambda>t. t \<ge> 0) (waiters (s2m (fst pw))))"
proof -
  obtain r j ts where w: "pty_ring_write src (s2m (fst pw)) = (r, j, ts)" by (metis prod_cases3)
  note L = pty_ring_write_list [OF _ w]
  have "pw' = ((fst pw)\<lparr>s2m := r\<rparr>, snd pw @ ts)" "k = j"
    using assms(2) w by (auto simp: write_s2m_def split: prod.splits)
  with L assms(1) show ?thesis by (auto simp: evolves_def pair_ok_def)
qed

lemma write_m2s_spec:
  assumes "pair_ok (fst pw)" and "write_m2s src pw = (pw', k)"
  shows "evolves pw pw' \<and> s2m (fst pw') = s2m (fst pw) \<and>
    k = min (length src) (PTY_BUF_CAP - 1 - rcount (m2s (fst pw))) \<and>
    ring_list (m2s (fst pw')) = ring_list (m2s (fst pw)) @ take k src \<and>
    (k > 0 \<longrightarrow> snd pw' = snd pw @ filter (\<lambda>t. t \<ge> 0) (waiters (m2s (fst pw))))"
proof -
  obtain r j ts where w: "pty_ring_write src (m2s (fst pw)) = (r, j, ts)" by (metis prod_cases3)
  note L = pty_ring_write_list [OF _ w]
  have "pw' = ((fst pw)\<lparr>m2s := r\<rparr>, snd pw @ ts)" "k = j"
    using assms(2) w by (auto simp: write_m2s_def split: prod.splits)
  with L assms(1) show ?thesis by (auto simp: evolves_def pair_ok_def)
qed

lemma opost_bytes_nonempty [simp]: "opost_bytes f c \<noteq> []"
  by (simp add: opost_bytes_def)

lemma pty_opost_one_spec:
  assumes "pair_ok (fst pw)" and "pty_opost_one c pw = (pw', e)"
  defines "bs \<equiv> opost_bytes (term_oflag (fst pw)) c"
  shows "evolves pw pw' \<and> m2s (fst pw') = m2s (fst pw) \<and>
    (if e then ring_list (s2m (fst pw')) = ring_list (s2m (fst pw)) @ bs \<and>
        snd pw' = snd pw @ filter (\<lambda>t. t \<ge> 0) (waiters (s2m (fst pw)))
     else pw' = pw \<and> pty_ring_free (s2m (fst pw)) < length bs)"
proof (cases "pty_ring_free (s2m (fst pw)) < length bs")
  case True
  with assms show ?thesis by (auto simp: pty_opost_one_def)
next
  case False
  obtain pw1 k where w: "write_s2m bs pw = (pw1, k)" by fastforce
  have "pw' = pw1" "e = (k = length bs)"
    using False w assms(2) by (auto simp: pty_opost_one_def bs_def)
  moreover have "k = length bs"
    using write_s2m_spec [OF assms(1) w] False assms(1)
    by (simp add: pty_ring_free_list pair_ok_def)
  ultimately show ?thesis using write_s2m_spec [OF assms(1) w] by (simp add: bs_def)
qed

lemma pty_echo_char_spec:
  assumes "pair_ok (fst pw)"
  shows "evolves pw (pty_echo_char c pw) \<and> m2s (fst (pty_echo_char c pw)) = m2s (fst pw)"
proof -
  have "evolves pw (fst (write_s2m bs pw)) \<and> m2s (fst (fst (write_s2m bs pw))) = m2s (fst pw)" for bs
    using write_s2m_spec [OF assms, of bs] by (cases "write_s2m bs pw") simp
  moreover have "evolves pw (fst (pty_opost_one c pw)) \<and> m2s (fst (fst (pty_opost_one c pw))) = m2s (fst pw)"
    using pty_opost_one_spec [OF assms, of c] by (cases "pty_opost_one c pw") simp
  ultimately show ?thesis unfolding pty_echo_char_def Let_def by (auto split: if_split)
qed

lemma echo_rubout_spec: "pair_ok (fst pw) \<Longrightarrow> evolves pw (echo_rubout f pw)"
  using write_s2m_spec [of pw "[8, 32, 8]"]
  by (cases "write_s2m [8, 32, 8] pw") (simp add: echo_rubout_def)

lemma erase_m2s_spec:
  assumes "pair_ok (fst pw)" and "erase_m2s pw = (pw', e)"
  shows "evolves pw pw' \<and> ring_list (m2s (fst pw')) = rub (ring_list (m2s (fst pw))) \<and>
    (e \<longleftrightarrow> rub (ring_list (m2s (fst pw))) \<noteq> ring_list (m2s (fst pw)))"
proof -
  obtain r d where x: "pty_ring_erase_last (m2s (fst pw)) = (r, d)" by fastforce
  have "pw' = ((fst pw)\<lparr>m2s := r\<rparr>, snd pw)" "e = d"
    using assms(2) x by (auto simp: erase_m2s_def split: prod.splits)
  with pty_ring_erase_last_list [OF _ x] assms(1) show ?thesis
    by (auto simp: evolves_def pair_ok_def)
qed

text \<open>The complete lines of a queue: everything up to the last newline.\<close>

definition committed :: "byte list \<Rightarrow> byte list" where
  "committed xs = rev (dropWhile (\<lambda>c. c \<noteq> 10) (rev xs))"

lemma committed_snoc: "committed (xs @ [c]) = (if c = 10 then xs @ [c] else committed xs)"
  by (simp add: committed_def)

lemma committed_prefix: "prefix (committed xs) xs"
  by (induction xs rule: rev_induct) (auto simp: committed_snoc committed_def)

lemma rub_cases:
  "rub xs = xs \<and> committed xs = xs \<or>
   (\<exists>c. xs = rub xs @ [c] \<and> c \<noteq> 10 \<and> committed (rub xs) = committed xs)"
  by (cases xs rule: rev_cases) (auto simp: rub_def committed_snoc, simp add: committed_def)

lemma kill_line_spec:
  "pair_ok (fst pw) \<Longrightarrow> evolves pw (kill_line f pw) \<and>
   ring_list (m2s (fst (kill_line f pw))) = committed (ring_list (m2s (fst pw)))"
proof (induction f pw rule: kill_line.induct)
  case (1 f pw)
  obtain pw1 e where x: "erase_m2s pw = (pw1, e)" by fastforce
  note E = erase_m2s_spec [OF 1(2) x]
  have ok1: "pair_ok (fst pw1)" using E 1(2) by (simp add: evolves_def)
  show ?case
  proof (cases e)
    case True
    have R: "evolves pw1 (echo_rubout f pw1)" by (rule echo_rubout_spec [OF ok1])
    have "pair_ok (fst (echo_rubout f pw1))" using R ok1 by (simp add: evolves_def)
    note IH = 1(1) [OF x [symmetric] refl True this]
    moreover have "kill_line f pw = kill_line f (echo_rubout f pw1)"
      using x True by (subst kill_line.simps) simp
    ultimately show ?thesis
      using E R True rub_cases [of "ring_list (m2s (fst pw))"]
      by (auto intro: evolves_trans)
  next
    case False
    then have "kill_line f pw = pw1" using x by (subst kill_line.simps) simp
    then show ?thesis using E False rub_cases [of "ring_list (m2s (fst pw))"] by auto
  qed
qed

lemma output_from_slave_spec:
  "pair_ok (fst pw) \<Longrightarrow> pty_output_from_slave src pw = (pw', k) \<Longrightarrow>
   evolves pw pw' \<and> m2s (fst pw') = m2s (fst pw) \<and> k \<le> length src \<and>
   ring_list (s2m (fst pw')) =
     ring_list (s2m (fst pw)) @ concat (map (opost_bytes (term_oflag (fst pw))) (take k src)) \<and>
   (k < length src \<longrightarrow>
      pty_ring_free (s2m (fst pw')) < length (opost_bytes (term_oflag (fst pw)) (src ! k))) \<and>
   (k > 0 \<longrightarrow> set (filter (\<lambda>t. t \<ge> 0) (waiters (s2m (fst pw)))) \<subseteq> set (snd pw'))"
proof (induction src arbitrary: pw pw' k)
  case (Cons c src)
  obtain pw1 e where o1: "pty_opost_one c pw = (pw1, e)" by fastforce
  note O = pty_opost_one_spec [OF Cons.prems(1) o1]
  have ok1: "pair_ok (fst pw1)" using O Cons.prems(1) by (simp add: evolves_def)
  show ?case
  proof (cases e)
    case True
    obtain pw2 j where r: "pty_output_from_slave src pw1 = (pw2, j)" by fastforce
    note IH = Cons.IH [OF ok1 r]
    have "pw' = pw2" "k = Suc j" using Cons.prems(2) o1 r True by auto
    moreover have "prefix (snd pw1) (snd pw2)" using IH ok1 by (simp add: evolves_def)
    then have "set (snd pw1) \<subseteq> set (snd pw2)" by (rule set_mono_prefix)
    ultimately show ?thesis
      using IH O True evolves_terms(1) [of pw pw1] Cons.prems(1) evolves_trans [of pw pw1 pw2]
      by auto
  next
    case False
    then show ?thesis using O Cons.prems o1 by auto
  qed
qed simp

text \<open>The editor of the input line, over the contents of the queue.\<close>

definition edit_char :: "u32 \<Rightarrow> u32 \<Rightarrow> byte \<Rightarrow> byte \<Rightarrow> byte \<Rightarrow> byte list \<Rightarrow> byte list option" where
  "edit_char iflag lflag verase vkill c xs =
     (if flag iflag TCS_IGNCR \<and> c = 13 then Some xs
      else let c = input_map iflag c in
        if flag lflag TCS_ICANON \<and> verase \<noteq> 0 \<and> c = verase then Some (rub xs)
        else if flag lflag TCS_ICANON \<and> vkill \<noteq> 0 \<and> c = vkill then Some (committed xs)
        else if length xs = PTY_BUF_CAP - 1 then None
        else Some (xs @ [c]))"

fun edit_line :: "u32 \<Rightarrow> u32 \<Rightarrow> byte \<Rightarrow> byte \<Rightarrow> byte list \<Rightarrow> byte list \<Rightarrow> byte list \<times> nat" where
  "edit_line iflag lflag verase vkill [] xs = (xs, 0)"
| "edit_line iflag lflag verase vkill (c # src) xs =
     (case edit_char iflag lflag verase vkill c xs of
        None \<Rightarrow> (xs, 0)
      | Some ys \<Rightarrow> (let (zs, k) = edit_line iflag lflag verase vkill src ys in (zs, Suc k)))"

lemma input_char_spec:
  assumes "pair_ok (fst pw)" and "input_char iflag lflag ve vk c pw = (pw', go)"
  shows "evolves pw pw' \<and>
    (case edit_char iflag lflag ve vk c (ring_list (m2s (fst pw))) of
       None \<Rightarrow> \<not> go \<and> ring_list (m2s (fst pw')) = ring_list (m2s (fst pw))
     | Some ys \<Rightarrow> go \<and> ring_list (m2s (fst pw')) = ys)"
proof -
  let ?c = "input_map iflag c" and ?xs = "ring_list (m2s (fst pw))"
  consider "flag iflag TCS_IGNCR \<and> c = 13"
    | "\<not> (flag iflag TCS_IGNCR \<and> c = 13)" "flag lflag TCS_ICANON \<and> ve \<noteq> 0 \<and> ?c = ve"
    | "\<not> (flag iflag TCS_IGNCR \<and> c = 13)" "\<not> (flag lflag TCS_ICANON \<and> ve \<noteq> 0 \<and> ?c = ve)"
      "flag lflag TCS_ICANON \<and> vk \<noteq> 0 \<and> ?c = vk"
    | "\<not> (flag iflag TCS_IGNCR \<and> c = 13)" "\<not> (flag lflag TCS_ICANON \<and> ve \<noteq> 0 \<and> ?c = ve)"
      "\<not> (flag lflag TCS_ICANON \<and> vk \<noteq> 0 \<and> ?c = vk)"
    by blast
  then show ?thesis
  proof cases
    case 1
    then show ?thesis using assms by (simp add: input_char_def edit_char_def)
  next
    case 2
    obtain pw1 e where x: "erase_m2s pw = (pw1, e)" by fastforce
    note E = erase_m2s_spec [OF assms(1) x]
    have ok1: "pair_ok (fst pw1)" using E assms(1) by (simp add: evolves_def)
    have "pw' = (if e then echo_rubout lflag pw1 else pw1)" "go"
      using assms(2) 2 x by (auto simp: input_char_def Let_def)
    then show ?thesis
      using E echo_rubout_spec [OF ok1, of lflag] 2
      by (auto simp: edit_char_def Let_def intro: evolves_trans)
  next
    case 3
    then have "pw' = kill_line lflag pw" "go" using assms(2) by (auto simp: input_char_def Let_def)
    then show ?thesis using kill_line_spec [OF assms(1), of lflag] 3
      by (auto simp: edit_char_def Let_def)
  next
    case 4
    obtain pw1 k where w: "write_m2s [?c] pw = (pw1, k)" by fastforce
    note W = write_m2s_spec [OF assms(1) w]
    have ok1: "pair_ok (fst pw1)" using W assms(1) by (simp add: evolves_def)
    have free: "pty_ring_free (m2s (fst pw)) = PTY_BUF_CAP - 1 - length ?xs"
      "length ?xs \<le> PTY_BUF_CAP - 1"
      using assms(1) pty_queue.bound by (simp_all add: pair_ok_def pty_ring_free_list)
    show ?thesis
    proof (cases "length ?xs = PTY_BUF_CAP - 1")
      case True
      then have "pw' = pw" "\<not> go" using 4 assms(2) free by (auto simp: input_char_def Let_def)
      then show ?thesis using 4 True by (auto simp: edit_char_def Let_def)
    next
      case False
      then have "k = 1" using W free(2) by (simp add: min_def)
      moreover have "\<not> pty_ring_free (m2s (fst pw)) < 1" using free False by auto
      ultimately have "pw' = pty_echo_char ?c pw1" "go"
        using 4 assms(2) w by (auto simp: input_char_def Let_def)
      then show ?thesis
        using W \<open>k = 1\<close> pty_echo_char_spec [OF ok1, of ?c] 4 False
        by (auto simp: edit_char_def Let_def intro: evolves_trans)
    qed
  qed
qed

lemma input_loop_spec:
  "pair_ok (fst pw) \<Longrightarrow> input_loop iflag lflag ve vk src pw = (pw', k) \<Longrightarrow>
   evolves pw pw' \<and>
   (ring_list (m2s (fst pw')), k) = edit_line iflag lflag ve vk src (ring_list (m2s (fst pw)))"
proof (induction src arbitrary: pw pw' k)
  case (Cons c src)
  obtain pw1 go where i: "input_char iflag lflag ve vk c pw = (pw1, go)" by fastforce
  note I = input_char_spec [OF Cons.prems(1) i]
  have ok1: "pair_ok (fst pw1)" using I Cons.prems(1) by (simp add: evolves_def)
  obtain pw2 j where r: "input_loop iflag lflag ve vk src pw1 = (pw2, j)" by fastforce
  note IH = Cons.IH [OF ok1 r]
  show ?case
    using Cons.prems(2) i r I IH
    by (cases go) (auto split: option.splits prod.splits intro: evolves_trans)
qed simp

lemma edit_line_committed:
  "edit_line iflag lflag ve vk src xs = (ys, k) \<Longrightarrow> prefix (committed xs) ys"
proof (induction src arbitrary: xs k)
  case (Cons c src)
  show ?case
  proof (cases "edit_char iflag lflag ve vk c xs")
    case None
    then show ?thesis using Cons.prems committed_prefix by auto
  next
    case (Some zs)
    then have "prefix (committed zs) ys"
      using Cons.prems Cons.IH [of zs] by (auto split: prod.splits)
    moreover have "prefix (committed xs) (committed zs)"
      using Some rub_cases [of xs] committed_prefix [of xs]
      by (auto simp: edit_char_def Let_def committed_snoc split: if_splits)
        (simp_all add: committed_def)
    ultimately show ?thesis by (metis prefix_order.trans)
  qed
qed (use committed_prefix in auto)

text \<open>C20. Master input is a line editor: \<open>pty_input_from_master\<close> consumes exactly the characters,
  and leaves exactly the queue contents, of the reference editor over lists. Erase and kill
  never touch a completed line, the settings do not change, and echo only appends to what the
  master will read.\<close>

theorem pty_input_edits:
  assumes "pair_ok p" and "pty_input_from_master src (p, w) = ((p', w'), k)"
  shows "(ring_list (m2s p'), k) =
      edit_line (term_iflag p) (term_lflag p) (term_cc p ! TCS_VERASE) (term_cc p ! TCS_VKILL)
        src (ring_list (m2s p)) \<and>
    prefix (committed (ring_list (m2s p))) (ring_list (m2s p')) \<and>
    prefix (ring_list (s2m p)) (ring_list (s2m p')) \<and>
    p' = p\<lparr>m2s := m2s p', s2m := s2m p'\<rparr> \<and> pair_ok p'"
proof -
  note L = input_loop_spec [of "(p, w)", OF _ assms(2) [unfolded pty_input_from_master_def]]
  then have e: "(ring_list (m2s p'), k) =
      edit_line (term_iflag p) (term_lflag p) (term_cc p ! TCS_VERASE) (term_cc p ! TCS_VKILL)
        src (ring_list (m2s p))" and v: "evolves (p, w) (p', w')"
    using assms(1) by simp_all
  from v assms(1) e [symmetric] show ?thesis
    using edit_line_committed [OF e [symmetric]] by (simp add: evolves_def)
qed

lemma pty_fresh_ok [simp]: "pair_ok (pty_fresh i)"
  by (simp add: pty_fresh_def pair_ok_def pty_init_termios_def PTY_NCCS_def)

theorem pty_input_edits_witness:
  "pair_ok (pty_fresh 0) \<and>
   (\<exists>p' w' k. pty_input_from_master [97, 98, 127, 99, 13] (pty_fresh 0, []) = ((p', w'), k) \<and>
     (ring_list (m2s p'), k) = ([97, 99, 10], 5) \<and>
     prefix (ring_list (s2m (pty_fresh 0))) (ring_list (s2m p')))"
proof -
  obtain p' w' k where r:
    "pty_input_from_master [97, 98, 127, 99, 13] (pty_fresh 0, []) = ((p', w'), k)"
    by (metis prod_cases3 prod.collapse)
  note P = pty_input_edits [OF pty_fresh_ok r]
  have "edit_line (term_iflag (pty_fresh 0)) (term_lflag (pty_fresh 0))
      (term_cc (pty_fresh 0) ! TCS_VERASE) (term_cc (pty_fresh 0) ! TCS_VKILL)
      [97, 98, 127, 99, 13] (ring_list (m2s (pty_fresh 0))) = ([97, 99, 10], 5)"
    by (simp add: pty_fresh_def pty_init_termios_def edit_char_def input_map_def flag_def
        TCS_IGNCR_def TCS_ICRNL_def TCS_IXON_def TCS_INLCR_def TCS_ICANON_def TCS_ISIG_def
        TCS_ECHO_def TCS_ECHOE_def TCS_ECHOK_def TCS_IEXTEN_def TCS_VERASE_def TCS_VKILL_def
        PTY_BUF_CAP_def rub_def)
  with P r show ?thesis by auto
qed

section \<open>The table\<close>

definition live :: "(addr \<Rightarrow> pty_handle option) \<Rightarrow> nat \<Rightarrow> bool \<Rightarrow> addr set" where
  "live hs i m = {a. \<exists>h. hs a = Some h \<and> hpair h = i \<and> is_master h = m}"

definition pty_inv :: "pty_state \<Rightarrow> bool" where
  "pty_inv s \<longleftrightarrow> finite (dom (phandles s)) \<and>
     (\<forall>a h. phandles s a = Some h \<longrightarrow> hpair h < PTY_MAX \<and> in_use (g_ptys s (hpair h))) \<and>
     (\<forall>i < PTY_MAX. in_use (g_ptys s i) \<longrightarrow> pindex (g_ptys s i) = int i \<and> pair_ok (g_ptys s i) \<and>
        master_opens (g_ptys s i) = int (card (live (phandles s) i True)) \<and>
        slave_opens (g_ptys s i) = int (card (live (phandles s) i False)) \<and>
        0 < master_opens (g_ptys s i) + slave_opens (g_ptys s i))"

lemma live_add:
  "hs a = None \<Longrightarrow> live (hs(a \<mapsto> h)) i m =
     (if hpair h = i \<and> is_master h = m then insert a (live hs i m) else live hs i m)"
  by (auto simp: live_def split: if_splits)

lemma live_del:
  "live (hs(a := None)) i m = live hs i m - {a}"
  by (auto simp: live_def split: if_splits)

lemma finite_live: "finite (dom hs) \<Longrightarrow> finite (live hs i m)"
  by (rule finite_subset [of _ "dom hs"]) (auto simp: live_def)

lemma live_None: "hs a = None \<Longrightarrow> a \<notin> live hs i m"
  by (simp add: live_def)

lemma pty_inv_live:
  "pty_inv s \<Longrightarrow> phandles s a = Some h \<Longrightarrow> hpair h < PTY_MAX \<and> in_use (g_ptys s (hpair h))"
  by (simp add: pty_inv_def)

text \<open>What the invariant says of a pair in use, given the handles.\<close>

definition pair_counted :: "(addr \<Rightarrow> pty_handle option) \<Rightarrow> nat \<Rightarrow> pty_pair \<Rightarrow> bool" where
  "pair_counted hs i p \<longleftrightarrow> pindex p = int i \<and> pair_ok p \<and>
     master_opens p = int (card (live hs i True)) \<and> slave_opens p = int (card (live hs i False)) \<and>
     0 < master_opens p + slave_opens p"

lemma pty_inv_counted:
  "pty_inv s \<longleftrightarrow> finite (dom (phandles s)) \<and>
     (\<forall>a h. phandles s a = Some h \<longrightarrow> hpair h < PTY_MAX \<and> in_use (g_ptys s (hpair h))) \<and>
     (\<forall>i < PTY_MAX. in_use (g_ptys s i) \<longrightarrow> pair_counted (phandles s) i (g_ptys s i))"
  unfolding pty_inv_def pair_counted_def by blast

lemma pty_inv_pairI:
  assumes "pty_inv s" and "finite (dom hs)" and "phandles s' = hs"
    and "g_ptys s' = (g_ptys s)(i := p)"
    and "\<And>a h. hs a = Some h \<Longrightarrow> hpair h < PTY_MAX \<and> (if hpair h = i then in_use p else in_use (g_ptys s (hpair h)))"
    and "in_use p \<Longrightarrow> pair_counted hs i p"
    and "\<And>j m. j \<noteq> i \<Longrightarrow> live hs j m = live (phandles s) j m"
  shows "pty_inv s'"
  unfolding pty_inv_counted
proof (intro conjI allI impI)
  show "finite (dom (phandles s'))" using assms by simp
next
  fix a h assume "phandles s' a = Some h"
  then show "hpair h < PTY_MAX" "in_use (g_ptys s' (hpair h))"
    using assms(3,4) assms(5) [of a h] by (auto split: if_splits)
next
  fix j assume "j < PTY_MAX" "in_use (g_ptys s' j)"
  then show "pair_counted (phandles s') j (g_ptys s' j)"
    using assms by (cases "j = i") (auto simp: pty_inv_counted pair_counted_def)
qed

lemma pty_inv_handle:
  assumes "pty_inv s" and "pty_handle_of f s = Some h"
  shows "hpair h < PTY_MAX" "in_use (hpty h s)" "pair_ok (hpty h s)"
    "\<exists>ff. pfiles s f = Some ff \<and> phandles s (driver_private ff) = Some h"
  using assms by (auto simp: pty_inv_def pty_handle_of_def hpty_def split: if_splits option.splits)

text \<open>Changing the rings or settings of one pair keeps the invariant.\<close>

lemma pty_inv_pair:
  assumes "pty_inv s" and "phandles s' = phandles s" and "g_ptys s' = (g_ptys s)(i := p)"
    and "in_use p = in_use (g_ptys s i)" "pindex p = pindex (g_ptys s i)"
      "master_opens p = master_opens (g_ptys s i)" "slave_opens p = slave_opens (g_ptys s i)"
      "pair_ok (g_ptys s i) \<Longrightarrow> pair_ok p"
  shows "pty_inv s'"
  using assms by (auto simp: pty_inv_def)

lemma pty_push_inv:
  assumes "pty_inv s" and "pty_handle_of f s = Some h"
  shows "pty_inv (fst (pty_push h src s))"
proof -
  obtain p w k where r: "(if is_master h then pty_input_from_master src (hpty h s, unblocked s)
      else pty_output_from_slave src (hpty h s, unblocked s)) = ((p, w), k)"
    by (metis prod.collapse)
  have ok: "pair_ok (hpty h s)" by (rule pty_inv_handle [OF assms])
  have ev: "evolves (hpty h s, unblocked s) (p, w)"
  proof (cases "is_master h")
    case True
    then show ?thesis
      using r ok input_loop_spec [of "(hpty h s, unblocked s)"] by (simp add: pty_input_from_master_def)
  next
    case False
    then show ?thesis
      using r ok output_from_slave_spec [of "(hpty h s, unblocked s)" src "(p, w)" k] by simp
  qed
  have "fst (pty_push h src s) = s\<lparr>g_ptys := (g_ptys s)(hpair h := p), unblocked := w\<rparr>"
    using r by (simp add: pty_push_def)
  moreover have "pair_ok p" using ev ok by (simp add: evolves_def)
  ultimately show ?thesis
    using evolves_terms [OF ev] ok
    by (intro pty_inv_pair [OF assms(1), of _ "hpair h" p]) (simp_all add: hpty_def)
qed

lemma pty_handle_of_cong:
  "pfiles s' = pfiles s \<Longrightarrow> phandles s' = phandles s \<Longrightarrow> pty_handle_of f s' = pty_handle_of f s"
  by (simp add: pty_handle_of_def split: option.split)

lemma pty_push_handle [simp]: "pty_handle_of f (fst (pty_push h src s)) = pty_handle_of f s"
proof -
  obtain p w k where "(if is_master h then pty_input_from_master src (hpty h s, unblocked s)
      else pty_output_from_slave src (hpty h s, unblocked s)) = ((p, w), k)"
    by (metis prod.collapse)
  then show ?thesis by (intro pty_handle_of_cong) (simp_all add: pty_push_def)
qed

lemma pty_write_loop_inv:
  assumes "pty_handle_of f s = Some h" and "pty_inv s"
  shows "pty_inv (fst (pty_write_loop (\<lambda>_ s. s) h src k s))"
proof -
  have "pty_handle_of f s = Some h \<Longrightarrow> pty_inv s \<Longrightarrow> yld = (\<lambda>_ s. s) \<Longrightarrow>
      pty_inv (fst (pty_write_loop yld h src k s))" for yld
  proof (induction yld h src k s rule: pty_write_loop.induct)
    case (1 yld h src k s)
    obtain s1 w where p1: "pty_push h (drop k src) s = (s1, w)" by fastforce
    obtain s2 v where p2: "pty_push h (drop k src) s1 = (s2, v)" by fastforce
    have i1: "pty_inv s1" "pty_handle_of f s1 = Some h"
      using pty_push_inv [OF 1(4,3), of "drop k src"] pty_push_handle [of f h "drop k src" s] p1 1(3) by auto
    have i2: "pty_inv s2" "pty_handle_of f s2 = Some h"
      using pty_push_inv [OF i1, of "drop k src"] pty_push_handle [of f h "drop k src" s1] p2 i1 by auto
    show ?case
      using 1(1) [OF _ p1 [symmetric] refl _ _ refl _ i2(2,1)] 1(2) [OF _ p1 [symmetric] refl _ i1(2,1)]
        p1 p2 i1 i2 1(4,5)
      by (subst pty_write_loop.simps) (auto simp: Let_def)
  qed
  then show ?thesis using assms by blast
qed

lemma ring_enlist_ok: "ring_ok r \<Longrightarrow> ring_ok (ring_enlist t r)"
  by (simp add: ring_enlist_def)

lemma set_in_ring_inv:
  assumes "pty_inv s" and "pty_handle_of f s = Some h" and "ring_ok r"
  shows "pty_inv (set_in_ring h r s)"
  using pty_inv_handle(3) [OF assms(1,2)] assms(3)
  by (intro pty_inv_pair [OF assms(1), of _ "hpair h"
        "(if is_master h then (hpty h s)\<lparr>s2m := r\<rparr> else (hpty h s)\<lparr>m2s := r\<rparr>)"])
    (simp_all add: set_in_ring_def set_pty_def hpty_def pair_ok_def)

lemma in_ring_ok: "pty_inv s \<Longrightarrow> pty_handle_of f s = Some h \<Longrightarrow> ring_ok (in_ring h s)"
  using pty_inv_handle(3) [of s f h] by (simp add: in_ring_def pair_ok_def)

lemma pty_read_inv:
  assumes "pty_inv s"
  shows "pty_inv (fst (pty_read f n cur [] s))"
proof (cases "pty_handle_of f s")
  case None
  then show ?thesis using assms by (simp add: pty_read_def)
next
  case (Some h)
  note ok = in_ring_ok [OF assms Some]
  obtain r bs where g: "ring_get_loop n (in_ring h s) = (r, bs)" by fastforce
  have "ring_ok r" using ring_get_loop_list [OF ok g] by simp
  then have 1: "pty_inv (set_in_ring h r s)" by (rule set_in_ring_inv [OF assms Some])
  have 2: "pty_inv (set_in_ring h (ring_enlist t (in_ring h s)) s)" for t
    by (rule set_in_ring_inv [OF assms Some ring_enlist_ok [OF ok]])
  show ?thesis
    using 1 2 assms g
    by (simp add: pty_read_def Some pty_read_loop.simps [of f h n cur "[]" s]
        pty_ring_read.simps [of h n cur "[]" s] split: option.split)
qed

lemma first_unused_spec:
  "first_unused k i ps = r \<Longrightarrow>
   (case r of None \<Rightarrow> \<forall>j. i \<le> j \<and> j < i + k \<longrightarrow> in_use (ps j)
    | Some j \<Rightarrow> i \<le> j \<and> j < i + k \<and> \<not> in_use (ps j))"
proof (induction k i ps rule: first_unused.induct)
  case (2 k i ps)
  show ?case
  proof (cases "in_use (ps i)")
    case True
    then have "first_unused k (i + 1) ps = r" using 2(2) by simp
    from 2(1) [OF _ this] True show ?thesis
      by (auto split: option.splits) (metis Suc_leI le_neq_implies_less)
  next
    case False
    then show ?thesis using 2(2) by auto
  qed
qed (auto split: option.splits)

lemma pty_alloc_file_eq:
  "pty_alloc_file path i m al s =
     (if fst al = 0 \<or> fst (snd al) = 0 \<or> snd (snd al) = 0 then (s, 0)
      else (s\<lparr>phandles := (phandles s)(fst (snd al) \<mapsto> \<lparr>is_master = m, hpair = i\<rparr>),
              pfiles := (pfiles s)(fst al \<mapsto> \<lparr>pf_path = path, pf_type = FS_TYPE_REG, pf_size = 0,
                pf_pos = 0, pf_refcount = 1, pf_flags = 0, driver_private = fst (snd al)\<rparr>)\<rparr>, fst al))"
  by (auto simp: pty_alloc_file_def split: prod.splits)

lemma no_live: "pty_inv s \<Longrightarrow> \<not> in_use (g_ptys s i) \<Longrightarrow> live (phandles s) i m = {}"
  by (auto simp: pty_inv_def live_def)

lemma pty_fresh_fields [simp]:
  "in_use (pty_fresh i)" "pindex (pty_fresh i) = int i" "master_opens (pty_fresh i) = 1"
  "slave_opens (pty_fresh i) = 0" "m2s (pty_fresh i) = pty_ring_init" "s2m (pty_fresh i) = pty_ring_init"
  by (simp_all add: pty_fresh_def pty_init_termios_def)

text \<open>A slot that is marked unused and has no handle may hold anything.\<close>

lemma pty_inv_clear:
  assumes "pty_inv s" and "phandles s' = phandles s" and "g_ptys s' = (g_ptys s)(i := p)"
    and "\<not> in_use p" and "\<not> in_use (g_ptys s i)"
  shows "pty_inv s'"
  using assms by (auto simp: pty_inv_def)

text \<open>A new handle \<open>a\<close> for pair \<open>i\<close>, whose record accounts for it.\<close>

lemma pty_inv_add:
  assumes inv: "pty_inv s" and a: "phandles s a = None" and i: "i < PTY_MAX"
    and hs: "phandles s' = (phandles s)(a \<mapsto> \<lparr>is_master = m, hpair = i\<rparr>)"
    and ps: "g_ptys s' = (g_ptys s)(i := p)"
    and p: "in_use p" "pindex p = int i" "pair_ok p"
      "master_opens p = int (card (live (phandles s) i True)) + (if m then 1 else 0)"
      "slave_opens p = int (card (live (phandles s) i False)) + (if m then 0 else 1)"
  shows "pty_inv s'"
proof -
  have fin: "finite (live (phandles s) j b)" for j b
    using inv by (intro finite_live) (simp add: pty_inv_def)
  have "card (live (phandles s') j b) = card (live (phandles s) j b) + (if j = i \<and> b = m then 1 else 0)" for j b
    using fin live_None [of "phandles s", OF a]
    unfolding hs live_add [of "phandles s", OF a] by (cases "j = i"; cases b; cases m) simp_all
  then have cnt: "pair_counted (phandles s') i p"
    using p by (cases m) (simp_all add: pair_counted_def)
  have dom: "finite (dom (phandles s'))" using inv by (simp add: hs pty_inv_def)
  have use: "hpair h < PTY_MAX \<and> (if hpair h = i then in_use p else in_use (g_ptys s (hpair h)))"
    if "phandles s' b = Some h" for b h
    using that pty_inv_live [OF inv, of b h] i p(1) by (auto simp: hs split: if_splits)
  have oth: "live (phandles s') j b = live (phandles s) j b" if "j \<noteq> i" for j b
    using that by (simp add: hs live_add [of "phandles s", OF a])
  show ?thesis by (rule pty_inv_pairI [OF inv dom refl ps use cnt oth])
qed

lemma pty_open_ptmx_inv:
  assumes inv: "pty_inv s" and fresh: "phandles s (fst (snd al)) = None"
  shows "pty_inv (fst (pty_open_ptmx al s))"
proof (cases "first_unused PTY_MAX 0 (g_ptys s)")
  case None
  then show ?thesis using inv by (simp add: pty_open_ptmx_def)
next
  case (Some i)
  then have i: "i < PTY_MAX" "\<not> in_use (g_ptys s i)" using first_unused_spec [OF Some] by auto
  show ?thesis
  proof (cases "fst al = 0 \<or> fst (snd al) = 0 \<or> snd (snd al) = 0")
    case True
    then show ?thesis
      by (intro pty_inv_clear [OF inv, of _ i "(pty_fresh i)\<lparr>in_use := False\<rparr>"])
        (auto simp: pty_open_ptmx_def Some pty_alloc_file_eq set_pty_def i)
  next
    case False
    then show ?thesis using i no_live [OF inv i(2)]
      by (intro pty_inv_add [OF inv fresh i(1), of _ True "pty_fresh i"])
        (simp_all add: pty_open_ptmx_def Some pty_alloc_file_eq set_pty_def)
  qed
qed

lemma pty_open_slave_inv:
  assumes inv: "pty_inv s" and fresh: "phandles s (fst (snd al)) = None"
  shows "pty_inv (fst (pty_open_slave index al s))"
proof (cases "open_slave_ref index s")
  case None
  then show ?thesis using inv by (simp add: pty_open_slave_def)
next
  case (Some s1)
  define i where "i = nat index"
  have i: "i < PTY_MAX" "in_use (g_ptys s i)"
    "s1 = set_pty i (\<lambda>p. p\<lparr>slave_opens := slave_opens p + 1\<rparr>) s"
    using Some by (auto simp: open_slave_ref_def i_def split: if_splits)
  have I: "pindex (g_ptys s i) = int i" "pair_ok (g_ptys s i)"
    "master_opens (g_ptys s i) = int (card (live (phandles s) i True))"
    "slave_opens (g_ptys s i) = int (card (live (phandles s) i False))"
    using inv i by (auto simp: pty_inv_def)
  have ok: "pair_ok ((g_ptys s i)\<lparr>slave_opens := x\<rparr>)" for x using I(2) by (simp add: pair_ok_def)
  show ?thesis
  proof (cases "fst al = 0 \<or> fst (snd al) = 0 \<or> snd (snd al) = 0")
    case True
    then show ?thesis using I
      by (intro pty_inv_pair [OF inv, of _ i "g_ptys s i"])
        (auto simp: pty_open_slave_def Some open_slave_file_def pty_alloc_file_eq set_pty_def i(3)
          i_def [symmetric])
  next
    case False
    then show ?thesis using i I ok
      by (intro pty_inv_add [OF inv fresh i(1), of _ False
            "(g_ptys s i)\<lparr>slave_opens := slave_opens (g_ptys s i) + 1\<rparr>"])
        (simp_all add: pty_open_slave_def Some open_slave_file_def pty_alloc_file_eq set_pty_def i(3)
          i_def [symmetric])
  qed
qed

lemma wake_both_spec:
  assumes "wake_both p = (p', w)"
  shows "p' = p\<lparr>m2s := (m2s p)\<lparr>waiters := []\<rparr>, s2m := (s2m p)\<lparr>waiters := []\<rparr>\<rparr>"
    "w = filter (\<lambda>t. t \<ge> 0) (waiters (m2s p)) @ filter (\<lambda>t. t \<ge> 0) (waiters (s2m p))"
  using assms by (auto simp: wake_both_def pty_ring_wake_def)

text \<open>The pair after a release: one reference less, every waiter woken, free when it was the last.\<close>

definition pair_released :: "bool \<Rightarrow> pty_pair \<Rightarrow> pty_pair" where
  "pair_released m p =
     p\<lparr>master_opens := master_opens p - (if m then 1 else 0),
       slave_opens := slave_opens p - (if m then 0 else 1),
       in_use := (in_use p \<and> 0 < master_opens p + slave_opens p - 1),
       m2s := (m2s p)\<lparr>waiters := []\<rparr>, s2m := (s2m p)\<lparr>waiters := []\<rparr>\<rparr>"

lemma card_live_pos:
  assumes "pty_inv s" and "phandles s a = Some h"
  shows "0 < card (live (phandles s) (hpair h) (is_master h))"
  using assms finite_live [of "phandles s" "hpair h" "is_master h"]
  by (auto simp: pty_inv_def card_gt_0_iff live_def)

lemma release_pair:
  assumes "0 \<le> master_opens p" "0 \<le> slave_opens p" "0 < (if m then master_opens p else slave_opens p)"
  shows "release_ref m p = (pair_released m p,
     filter (\<lambda>t. t \<ge> 0) (waiters (m2s p)) @ filter (\<lambda>t. t \<ge> 0) (waiters (s2m p)))"
proof (cases m)
  case True
  with assms show ?thesis
    by (cases p) (auto simp: release_ref_def Let_def pair_released_def wake_both_def pty_ring_wake_def)
next
  case False
  with assms show ?thesis
    by (cases p) (auto simp: release_ref_def Let_def pair_released_def wake_both_def pty_ring_wake_def)
qed

lemma pty_release_fields:
  assumes inv: "pty_inv s" and h: "pty_handle_of f s = Some h"
  shows "\<exists>d. phandles s d = Some h \<and>
    phandles (pty_release_handle f s) = (phandles s)(d := None) \<and>
    g_ptys (pty_release_handle f s) = (g_ptys s)(hpair h := pair_released (is_master h) (hpty h s)) \<and>
    unblocked (pty_release_handle f s) = unblocked s @ filter (\<lambda>t. t \<ge> 0) (waiters (m2s (hpty h s))) @
         filter (\<lambda>t. t \<ge> 0) (waiters (s2m (hpty h s)))"
proof -
  obtain ff where ff: "pfiles s f = Some ff" "phandles s (driver_private ff) = Some h"
    using pty_inv_handle(4) [OF inv h] by blast
  have "0 < card (live (phandles s) (hpair h) (is_master h))" by (rule card_live_pos [OF inv ff(2)])
  moreover have "pair_counted (phandles s) (hpair h) (hpty h s)"
    using inv pty_inv_handle(1,2) [OF inv h] unfolding pty_inv_counted hpty_def by blast
  ultimately have "0 \<le> master_opens (hpty h s)" "0 \<le> slave_opens (hpty h s)"
    "0 < (if is_master h then master_opens (hpty h s) else slave_opens (hpty h s))"
    by (cases "is_master h"; simp add: pair_counted_def)+
  note R = release_pair [OF this]
  show ?thesis
    by (rule exI [of _ "driver_private ff"]) (simp add: pty_release_handle_def h R ff)
qed

lemma pty_release_inv:
  assumes inv: "pty_inv s"
  shows "pty_inv (pty_release_handle f s)"
proof (cases "pty_handle_of f s")
  case None
  then show ?thesis using inv by (simp add: pty_release_handle_def)
next
  case (Some h)
  obtain d where ff: "phandles s (d) = Some h" and
    hs: "phandles (pty_release_handle f s) = (phandles s)(d := None)" and
    ps: "g_ptys (pty_release_handle f s) = (g_ptys s)(hpair h := pair_released (is_master h) (hpty h s))"
    using pty_release_fields [OF inv Some] by blast
  have fin: "finite (live (phandles s) j b)" for j b
    using inv by (intro finite_live) (simp add: pty_inv_def)
  have mem: "d \<in> live (phandles s) j b \<longleftrightarrow> j = hpair h \<and> b = is_master h" for j b
    using ff by (auto simp: live_def)
  have card: "card (live ((phandles s)(d := None)) j b) =
      card (live (phandles s) j b) - (if j = hpair h \<and> b = is_master h then 1 else 0)" for j b
    using fin mem by (simp add: live_del card_Diff_singleton_if)
  note pos = card_live_pos [OF inv ff]
  have I: "pindex (hpty h s) = int (hpair h)" "pair_ok (hpty h s)" "in_use (hpty h s)"
    "master_opens (hpty h s) = int (card (live (phandles s) (hpair h) True))"
    "slave_opens (hpty h s) = int (card (live (phandles s) (hpair h) False))"
    using inv pty_inv_handle(1,2) [OF inv Some] by (auto simp: pty_inv_def hpty_def)
  have used: "in_use (pair_released (is_master h) (hpty h s))"
    if "phandles s a = Some h'" "hpair h' = hpair h" "a \<noteq> d" for a h'
  proof -
    have "a \<in> live ((phandles s)(d := None)) (hpair h) (is_master h')"
      using that by (auto simp: live_def)
    then have "0 < card (live ((phandles s)(d := None)) (hpair h) (is_master h'))"
      using fin by (auto simp: card_gt_0_iff live_del)
    then show ?thesis
      using I pos by (cases "is_master h"; cases "is_master h'") (auto simp: pair_released_def card)
  qed
  define P where "P = pair_released (is_master h) (hpty h s)"
  have P: "pair_counted ((phandles s)(d := None)) (hpair h) P" if "in_use P"
    using I pos that by (cases "is_master h") (simp_all add: P_def pair_counted_def pair_ok_def pair_released_def card)
  have A: "hpair h' < PTY_MAX \<and> (if hpair h' = hpair h then in_use P else in_use (g_ptys s (hpair h')))"
    if "((phandles s)(d := None)) a = Some h'" for a h'
    using that pty_inv_live [OF inv, of a h'] used [of a h'] by (simp add: P_def split: if_splits)
  have dom: "finite (dom ((phandles s)(d := None)))" using inv by (simp add: pty_inv_def)
  have oth: "live ((phandles s)(d := None)) j b = live (phandles s) j b"
    if "j \<noteq> hpair h" for j b
    using mem that by (auto simp: live_del)
  show ?thesis by (rule pty_inv_pairI [OF inv dom hs ps [folded P_def] A P oth])
qed

section \<open>Reachable tables\<close>

text \<open>The table in zero-initialised memory, with no file open.\<close>

definition pty_zero :: pty_pair where
  "pty_zero = \<lparr>pindex = 0, in_use = False, locked = 0, master_opens = 0, slave_opens = 0, fg_pgrp = 0,
     controlling_sid = 0, term_iflag = 0, term_oflag = 0, term_cflag = 0, term_lflag = 0,
     term_cc = replicate PTY_NCCS 0, ws_row = 0, ws_col = 0, m2s = pty_ring_init, s2m = pty_ring_init\<rparr>"

definition pty_boot :: pty_state where
  "pty_boot = \<lparr>g_ptys = (\<lambda>_. pty_zero), pfiles = Map.empty, phandles = Map.empty, unblocked = []\<rparr>"

text \<open>Every operation that changes the state. An address that \<open>kmalloc\<close> returns for a handle is
  not a live handle. \<open>push\<close> is one round of the loop of \<open>pty_write\<close>, so that writes interleave
  with everything else; \<open>read\<close> is one round of the loop of \<open>pty_read\<close>, up to the point where it
  returns or blocks.\<close>

inductive pty_step :: "pty_state \<Rightarrow> pty_state \<Rightarrow> bool" where
  open_ptmx: "phandles s (fst (snd al)) = None \<Longrightarrow> pty_step s (fst (pty_open_ptmx al s))"
| open_slave: "phandles s (fst (snd al)) = None \<Longrightarrow> pty_step s (fst (pty_open_slave i al s))"
| release: "pty_step s (pty_release_handle f s)"
| read: "pty_step s (fst (pty_read f n cur [] s))"
| push: "pty_handle_of f s = Some h \<Longrightarrow> pty_step s (fst (pty_push h src s))"
| add_waiter: "pty_step s (fst (pty_add_waiter f tid s))"
| remove_waiter: "pty_step s (pty_remove_waiter f tid s)"
| set_locked: "pty_step s (fst (pty_set_locked f l s))"
| set_termios: "pty_step s (pty_set_termios f ifl ofl cfl lfl cc s)"
| set_winsize: "pty_step s (pty_set_winsize f row col s)"
| set_fg_pgrp: "pty_step s (fst (pty_set_fg_pgrp f pgid s))"
| set_sid: "pty_step s (pty_set_controlling_sid f sid s)"

inductive pty_reachable :: "pty_state \<Rightarrow> bool" where
  boot: "pty_reachable pty_boot"
| step: "pty_reachable s \<Longrightarrow> pty_step s s' \<Longrightarrow> pty_reachable s'"

lemma set_pty_inv:
  assumes "pty_inv s" and "in_use (u p) = in_use p" "pindex (u p) = pindex p"
      "master_opens (u p) = master_opens p" "slave_opens (u p) = slave_opens p"
      "pair_ok p \<Longrightarrow> pair_ok (u p)" and "p = g_ptys s i"
  shows "pty_inv (set_pty i u s)"
  using assms by (intro pty_inv_pair [OF assms(1), of _ i "u p"]) (simp_all add: set_pty_def)

lemma length_remove_waiter: "length (remove_waiter t ts) \<le> length ts"
  by (induction t ts rule: remove_waiter.induct) auto

lemma pty_step_inv: "pty_step s s' \<Longrightarrow> pty_inv s \<Longrightarrow> pty_inv s'"
proof (induction rule: pty_step.induct)
  case (add_waiter s f tid)
  then show ?case
    using in_ring_ok [of s f]
    by (auto simp: pty_add_waiter_def split: option.split intro!: set_in_ring_inv ring_waiters)
next
  case (remove_waiter s f tid)
  have "ring_ok ((in_ring h s)\<lparr>waiters := remove_waiter tid (waiters (in_ring h s))\<rparr>)"
    if "pty_handle_of f s = Some h" for h
    using in_ring_ok [OF remove_waiter that] length_remove_waiter [of tid "waiters (in_ring h s)"]
    by (simp add: ring_ok_def)
  with remove_waiter show ?case
    by (auto simp: pty_remove_waiter_def split: option.split intro!: set_in_ring_inv)
next
  case (set_locked s f l)
  then show ?case
    by (auto simp: pty_set_locked_def pair_ok_def split: option.split intro!: set_pty_inv)
next
  case (set_termios s f ifl ofl cfl lfl cc)
  then show ?case
    by (auto simp: pty_set_termios_def pair_ok_def Let_def split: option.split intro!: set_pty_inv)
next
  case (set_winsize s f row col)
  then show ?case
    by (auto simp: pty_set_winsize_def pair_ok_def split: option.split intro!: set_pty_inv)
next
  case (set_fg_pgrp s f pgid)
  then show ?case
    by (auto simp: pty_set_fg_pgrp_def pair_ok_def split: option.split intro!: set_pty_inv)
next
  case (set_sid s f sid)
  then show ?case
    by (auto simp: pty_set_controlling_sid_def pair_ok_def split: option.split intro!: set_pty_inv)
qed (simp_all add: pty_open_ptmx_inv pty_open_slave_inv pty_release_inv pty_read_inv pty_push_inv)

lemma pty_reachable_inv: "pty_reachable s \<Longrightarrow> pty_inv s"
proof (induction rule: pty_reachable.induct)
  case boot
  show ?case by (simp add: pty_inv_def pty_boot_def pty_zero_def)
qed (rule pty_step_inv)


text \<open>C22. Opening the master side fails only when all \<open>PTY_MAX\<close> slots are in use or an allocation
  fails; when it succeeds, the new file is the only one that refers to its slot, both its queues
  are empty, and no other slot changes.\<close>

theorem pty_open_ptmx_exclusive:
  assumes "pty_reachable s" and "phandles s ah = None" and "pty_open_ptmx (af, ah, ap) s = (s', r)"
  shows "case r of
      None \<Rightarrow> (\<forall>i < PTY_MAX. in_use (g_ptys s i)) \<or> af = 0 \<or> ah = 0 \<or> ap = 0
    | Some f \<Rightarrow> \<exists>i < PTY_MAX. pty_handle_of f s' = Some \<lparr>is_master = True, hpair = i\<rparr> \<and>
        (\<forall>a h. phandles s a = Some h \<longrightarrow> hpair h \<noteq> i) \<and>
        ring_list (m2s (g_ptys s' i)) = [] \<and> ring_list (s2m (g_ptys s' i)) = [] \<and>
        (\<forall>j. j \<noteq> i \<longrightarrow> g_ptys s' j = g_ptys s j)"
proof (cases "first_unused PTY_MAX 0 (g_ptys s)")
  case None
  then have "\<forall>i < PTY_MAX. in_use (g_ptys s i)" using first_unused_spec [OF None] by auto
  then show ?thesis using assms(3) None by (auto simp: pty_open_ptmx_def)
next
  case (Some i)
  then have i: "i < PTY_MAX" "\<not> in_use (g_ptys s i)" using first_unused_spec [OF Some] by auto
  then have "\<forall>a h. phandles s a = Some h \<longrightarrow> hpair h \<noteq> i"
    using pty_inv_live [OF pty_reachable_inv [OF assms(1)]] by metis
  with i assms(3) Some show ?thesis
    by (cases "af = 0 \<or> ah = 0 \<or> ap = 0")
      (auto simp: pty_open_ptmx_def pty_alloc_file_eq set_pty_def pty_handle_of_def Let_def)
qed

definition demo_pty :: pty_state where \<comment> \<open>one pair, master file 8, slave file 24\<close>
  "demo_pty = fst (pty_open_slave 0 (24, 32, 40) (fst (pty_open_ptmx (8, 16, 48) pty_boot)))"

lemmas pty_eval = demo_pty_def pty_boot_def pty_zero_def pty_open_ptmx_def pty_open_slave_def
  open_slave_ref_def open_slave_file_def pty_alloc_file_def set_pty_def PTY_MAX_def
  numeral_eq_Suc Let_def

lemma demo_pty_reachable: "pty_reachable (fst (pty_open_ptmx (8, 16, 48) pty_boot))" "pty_reachable demo_pty"
proof -
  show 1: "pty_reachable (fst (pty_open_ptmx (8, 16, 48) pty_boot))"
    by (rule pty_reachable.step [OF pty_reachable.boot pty_step.open_ptmx]) (simp add: pty_boot_def)
  show "pty_reachable demo_pty"
    unfolding demo_pty_def
    by (rule pty_reachable.step [OF 1 pty_step.open_slave]) (simp add: pty_eval)
qed


theorem pty_open_ptmx_exclusive_witness:
  "\<exists>s' f. pty_open_ptmx (56, 64, 72) demo_pty = (s', Some f) \<and>
    (\<exists>i < PTY_MAX. pty_handle_of f s' = Some \<lparr>is_master = True, hpair = i\<rparr> \<and>
        (\<forall>a h. phandles demo_pty a = Some h \<longrightarrow> hpair h \<noteq> i))"
proof -
  obtain s' r where o: "pty_open_ptmx (56, 64, 72) demo_pty = (s', r)" by fastforce
  have "phandles demo_pty 64 = None" by (simp add: pty_eval)
  note P = pty_open_ptmx_exclusive [OF demo_pty_reachable(2) this o]
  have "\<not> in_use (g_ptys demo_pty 1)" by (simp add: pty_eval)
  then have "r \<noteq> None" using P by (cases r) (auto simp: PTY_MAX_def dest: spec [of _ 1])
  with P o show ?thesis by auto
qed

section \<open>Blocking and waking\<close>

lemma pty_read_blocked:
  assumes "pty_handle_of f s = Some h" and "pty_read f n (Some tid) [] s = (s', StillBlocked)"
  shows "s' = set_in_ring h (ring_enlist tid (in_ring h s)) s" "rcount (in_ring h s) = 0"
proof -
  obtain r bs where g: "ring_get_loop n (in_ring h s) = (r, bs)" by fastforce
  have "n \<noteq> 0" using assms by (cases "n = 0") (auto simp: pty_read_def)
  then have "bs \<noteq> []" if "rcount (in_ring h s) > 0"
    using g that by (cases n) (auto split: prod.splits)
  then show "s' = set_in_ring h (ring_enlist tid (in_ring h s)) s" "rcount (in_ring h s) = 0"
    using assms(2) g
    by (auto simp: pty_read_def assms(1) pty_read_loop.simps [of f h n _ "[]" s] pty_ring_avail_def
        pty_ring_read.simps [of h n _ "[]" s] Let_def split: if_splits)
qed

lemma set_in_ring_views [simp]:
  "phandles (set_in_ring h r s) = phandles s" "pfiles (set_in_ring h r s) = pfiles s"
  "in_ring h (set_in_ring h r s) = r" "unblocked (set_in_ring h r s) = unblocked s"
  by (simp_all add: set_in_ring_def set_pty_def in_ring_def hpty_def)

lemma pty_handle_of_set_in_ring [simp]: "pty_handle_of f (set_in_ring h r s) = pty_handle_of f s"
  by (rule pty_handle_of_cong) simp_all



text \<open>C24. The ninth reader is lost: with \<open>waiters\<close> full, \<open>pty_read\<close> blocks the thread without
  registering it, and no write to the ring unblocks it.\<close>

theorem pty_ninth_reader_lost:
  assumes "pty_handle_of f s = Some h" and "pty_read f n (Some tid) [] s = (s', StillBlocked)"
    and "length (waiters (in_ring h s)) = PTY_WAITERS" and "tid \<notin> set (waiters (in_ring h s))"
  shows "in_ring h s' = in_ring h s \<and>
    (\<forall>src r k ts. pty_ring_write src (in_ring h s') = (r, k, ts) \<longrightarrow> tid \<notin> set ts)"
proof -
  have r: "in_ring h s' = in_ring h s"
    using pty_read_blocked(1) [OF assms(1,2)] assms(3) by (simp add: ring_enlist_def)
  have "waiters (fst (ring_put_loop src q k)) = waiters q" for src q k
    by (induction src q k rule: ring_put_loop.induct) auto
  then have "tid \<notin> set ts" if "pty_ring_write src (in_ring h s) = (q, k, ts)" for src q k ts
    using that assms(4) by (auto simp: pty_ring_write_def pty_ring_wake_def Let_def
        split: prod.splits if_splits) (metis fst_conv)
  with r show ?thesis by auto
qed

theorem pty_ninth_reader_lost_witness:
  "\<exists>s s'. length (waiters (in_ring \<lparr>is_master = True, hpair = 0\<rparr> s)) = PTY_WAITERS \<and>
    pty_read 8 1 (Some 9) [] s = (s', StillBlocked) \<and>
    (\<forall>src r k ts. pty_ring_write src (in_ring \<lparr>is_master = True, hpair = 0\<rparr> s') = (r, k, ts) \<longrightarrow> 9 \<notin> set ts)"
proof -
  let ?h = "\<lparr>is_master = True, hpair = 0\<rparr>"
  define q where "q = pty_ring_init\<lparr>waiters := [1, 2, 3, 4, 5, 6, 7, 8]\<rparr>"
  define s where "s = set_in_ring ?h q demo_pty"
  have h: "pty_handle_of 8 s = Some ?h"
    by (simp add: s_def) (simp add: pty_eval pty_handle_of_def)
  have i: "in_ring ?h s = q" by (simp add: s_def)
  have w: "length (waiters q) = PTY_WAITERS" "9 \<notin> set (waiters q)" "rcount q = 0"
    by (simp_all add: q_def PTY_WAITERS_def pty_ring_init_def)
  have "pty_read 8 1 (Some 9) [] s = (set_in_ring ?h (ring_enlist 9 q) s, StillBlocked)"
    using h i w(3) by (simp add: pty_read_def pty_read_loop.simps pty_ring_avail_def)
      (simp add: s_def set_in_ring_def pty_eval hpty_def file_flags_def flag_def)
  with pty_ninth_reader_lost [OF h this] w i show ?thesis by auto
qed

section \<open>A race between opening the slave and closing the master\<close>

text \<open>C25. The two critical sections of \<open>pty_open_slave\<close> leave a window. When the master closes
  after the slave's reference is taken and the allocation of the slave's file then fails, the
  error path drops the reference but does not free the slot: the slot stays in use with no
  handle referring to it, so it is never handed out again.\<close>

theorem pty_slave_open_race:
  assumes "pty_reachable s" and f: "pty_handle_of f s = Some h" "is_master h"
    and one: "master_opens (hpty h s) = 1" "slave_opens (hpty h s) = 0"
    and s1: "open_slave_ref (int (hpair h)) s = Some s1"
    and s3: "open_slave_file (int (hpair h)) (0, 0, 0) (pty_release_handle f s1) = (s3, r)"
  shows "r = None \<and> in_use (g_ptys s3 (hpair h)) \<and>
    (\<forall>a h'. phandles s3 a = Some h' \<longrightarrow> hpair h' \<noteq> hpair h)"
proof -
  note inv = pty_reachable_inv [OF assms(1)]
  obtain ff where ff: "pfiles s f = Some ff" "phandles s (driver_private ff) = Some h"
    using pty_inv_handle(4) [OF inv f(1)] by blast
  have cnt: "pair_counted (phandles s) (hpair h) (hpty h s)"
    using inv pty_inv_handle(1,2) [OF inv f(1)] unfolding pty_inv_counted hpty_def by blast
  have fin: "finite (live (phandles s) (hpair h) m)" for m
    using inv by (intro finite_live) (simp add: pty_inv_def)
  have "card (live (phandles s) (hpair h) True) = 1" "live (phandles s) (hpair h) False = {}"
    using cnt one fin by (auto simp: pair_counted_def)
  then obtain d where d: "live (phandles s) (hpair h) True = {d}" "live (phandles s) (hpair h) False = {}"
    by (metis card_1_singletonE)
  have "driver_private ff \<in> live (phandles s) (hpair h) True"
    using ff f(2) by (auto simp: live_def)
  then have "driver_private ff = d" using d by simp
  moreover have "a \<in> live (phandles s) (hpair h) (is_master h')"
    if "phandles s a = Some h'" "hpair h' = hpair h" for a h'
    using that by (simp add: live_def)
  ultimately have only: "a = driver_private ff" if "phandles s a = Some h'" "hpair h' = hpair h" for a h'
    using that d by (metis empty_iff singletonD)
  have e1: "s1 = set_pty (hpair h) (\<lambda>p. p\<lparr>slave_opens := 1\<rparr>) s"
    using s1 one by (auto simp: open_slave_ref_def set_pty_def hpty_def split: if_splits)
  then have v1: "hpty h s1 = (hpty h s)\<lparr>slave_opens := 1\<rparr>" "phandles s1 = phandles s" "pfiles s1 = pfiles s"
    by (simp_all add: set_pty_def hpty_def)
  have "pty_handle_of f s1 = pty_handle_of f s" by (rule pty_handle_of_cong) (simp_all add: v1)
  then have h1: "pty_handle_of f s1 = Some h" using f(1) by simp
  have "phandles s3 = (phandles s)(driver_private ff := None) \<and> in_use (g_ptys s3 (hpair h))"
    using s3 pty_inv_handle(2) [OF inv f(1)] one f(2) ff(1)
    by (auto simp: open_slave_file_def pty_alloc_file_def pty_release_handle_def h1 v1 release_ref_def
        wake_both_def pty_ring_wake_def set_pty_def)
  moreover have "r = None" using s3 by (auto simp: open_slave_file_def pty_alloc_file_def)
  ultimately show ?thesis using only by (auto split: if_splits)
qed

theorem pty_slave_open_race_witness:
  "\<exists>s s1 s3. pty_reachable s \<and> open_slave_ref 0 s = Some s1 \<and>
    open_slave_file 0 (0, 0, 0) (pty_release_handle 8 s1) = (s3, None) \<and>
    in_use (g_ptys s3 0) \<and> (\<forall>a h'. phandles s3 a = Some h' \<longrightarrow> hpair h' \<noteq> 0)"
proof -
  define s where "s = fst (pty_open_ptmx (8, 16, 48) pty_boot)"
  let ?h = "\<lparr>is_master = True, hpair = 0\<rparr>"
  have r: "pty_reachable s" unfolding s_def by (rule demo_pty_reachable(1))
  have h: "pty_handle_of 8 s = Some ?h" and p: "hpty ?h s = pty_fresh 0"
    by (simp_all add: s_def pty_eval pty_handle_of_def hpty_def)
  define s1 where "s1 = set_pty 0 (\<lambda>p. p\<lparr>slave_opens := slave_opens p + 1\<rparr>) s"
  have s1: "open_slave_ref (int (hpair ?h)) s = Some s1"
    using p by (simp add: open_slave_ref_def s1_def hpty_def PTY_MAX_def)
  obtain s3 q where s3: "open_slave_file (int (hpair ?h)) (0, 0, 0) (pty_release_handle 8 s1) = (s3, q)"
    by fastforce
  from pty_slave_open_race [OF r h _ _ _ s1 s3] p r s1 s3 show ?thesis by auto
qed

end
