(* ===== verification/Keyring.thy ===== *)
theory Keyring
  imports LibcString
begin

text \<open>
  The kernel key store, \<open>core/keyring.c\<close>: a global table of \<open>KEYRING_MAX\<close> keys, each a keyring (a
  list of the serials linked into it), an asymmetric key (a certificate made on first read) or a
  user key (opaque bytes).

  A payload or certificate is a block that \<open>kmalloc\<close> returned: its address is in the slot and its
  bytes in \<open>kblk\<close>, which has exactly the blocks not yet freed, so that a stale pointer shows. The
  results of an operation's \<open>kmalloc\<close> calls are arguments (0 is NULL). A description is the C
  string in its array. \<open>make_selfsigned\<close> (random numbers, the clock and the code of \<open>crypto/\<close>) is
  an argument: what it makes of a subject, \<open>None\<close> for a failure. Where an operation releases the
  lock and takes it again, what happened meanwhile is the argument \<open>env\<close>.
\<close>

section \<open>State\<close>

definition KEYRING_MAX :: nat where "KEYRING_MAX = 64"
definition KEY_DESC_MAX :: nat where "KEY_DESC_MAX = 64"
definition KEY_SUBJ_MAX :: nat where "KEY_SUBJ_MAX = 65"
definition KEY_TYPE_KEYRING :: int where "KEY_TYPE_KEYRING = 1"
definition KEY_TYPE_ASYMMETRIC :: int where "KEY_TYPE_ASYMMETRIC = 2"
definition KEY_TYPE_USER :: int where "KEY_TYPE_USER = 3"

record kr_slot =
  used :: bool
  serial :: u32
  ktype :: int
  kuid :: u32
  kgid :: u32
  perms :: u32
  description :: "byte list"
  subject :: "byte list"
  payload :: addr
  payload_len :: nat
  cert :: addr
  cert_len :: nat
  generated :: bool

record kr_state =
  g_keys :: "kr_slot list"
  g_next_serial :: u32
  g_session_serial :: u32
  g_builtin_serial :: u32
  g_secondary_serial :: u32
  g_system_der :: addr
  g_system_der_len :: nat
  g_system_certs_loaded :: bool
  g_kr_inited :: bool
  kblk :: "addr \<Rightarrow> byte list option"

definition kr_zero :: kr_slot where
  "kr_zero = \<lparr>used = False, serial = 0, ktype = 0, kuid = 0, kgid = 0, perms = 0, description = [],
     subject = [], payload = 0, payload_len = 0, cert = 0, cert_len = 0, generated = False\<rparr>"

definition kr_boot :: kr_state where \<comment> \<open>the static initialisers\<close>
  "kr_boot = \<lparr>g_keys = replicate KEYRING_MAX kr_zero, g_next_serial = 1, g_session_serial = 0,
     g_builtin_serial = 0, g_secondary_serial = 0, g_system_der = 0, g_system_der_len = 0,
     g_system_certs_loaded = False, g_kr_inited = False, kblk = Map.empty\<rparr>"

definition kr_put :: "addr \<Rightarrow> byte list \<Rightarrow> kr_state \<Rightarrow> kr_state" where
  "kr_put p bs st = st\<lparr>kblk := (kblk st)(p \<mapsto> bs)\<rparr>"

definition kr_free :: "addr \<Rightarrow> kr_state \<Rightarrow> kr_state" where \<comment> \<open>\<open>kfree\<close>; NULL is allowed\<close>
  "kr_free p st = (if p = 0 then st else st\<lparr>kblk := (kblk st)(p := None)\<rparr>)"

definition set_slot :: "nat \<Rightarrow> (kr_slot \<Rightarrow> kr_slot) \<Rightarrow> kr_state \<Rightarrow> kr_state" where
  "set_slot i u st = st\<lparr>g_keys := (g_keys st)[i := u (g_keys st ! i)]\<rparr>"

definition slot_by_serial :: "u32 \<Rightarrow> kr_state \<Rightarrow> nat option" where
  "slot_by_serial n st = findi (\<lambda>s. used s \<and> serial s = n) (g_keys st)"

definition slot_alloc :: "kr_state \<Rightarrow> kr_state \<times> nat option" where
  "slot_alloc st =
     (case findi (\<lambda>s. \<not> used s) (g_keys st) of
        None \<Rightarrow> (st, None)
      | Some i \<Rightarrow>
          (set_slot i (\<lambda>_. kr_zero\<lparr>used := True, serial := g_next_serial st\<rparr>) st
             \<lparr>g_next_serial := g_next_serial st + 1\<rparr>, Some i))"

definition ring_resolve :: "int \<Rightarrow> kr_state \<Rightarrow> int" where
  "ring_resolve ring_id st =
     (if ring_id \<ge> 0 then
        (if slot_by_serial (word_of_int ring_id) st \<noteq> None then ring_id else - 1)
      else sint (g_session_serial st))"

text \<open>The bytes of a slot's payload, and the serials they encode in a keyring.\<close>

definition slot_bytes :: "kr_slot \<Rightarrow> kr_state \<Rightarrow> byte list" where
  "slot_bytes s st =
     (case kblk st (payload s) of None \<Rightarrow> [] | Some bs \<Rightarrow> take (payload_len s) bs)"

definition ring_serials :: "kr_slot \<Rightarrow> kr_state \<Rightarrow> u32 list" where
  "ring_serials s st = dec32s (slot_bytes s st)"

definition ring_link_locked :: "nat \<Rightarrow> u32 \<Rightarrow> addr \<Rightarrow> kr_state \<Rightarrow> kr_state \<times> int" where
  "ring_link_locked i n np st =
     (let r = g_keys st ! i; cnt = payload_len r div 4
      in if ktype r \<noteq> KEY_TYPE_KEYRING then (st, - 1)
         else if n \<in> set (ring_serials r st) then (st, 0)
         else if cnt \<ge> 64 then (st, - 1)
         else if np = 0 then (st, - 1)
         else (set_slot i (\<lambda>s. s\<lparr>payload := np, payload_len := (cnt + 1) * 4\<rparr>)
                 (kr_free (payload r)
                   (kr_put np (take (cnt * 4) (slot_bytes r st) @ enc32 n) st)), 0))"

definition alloc_named_keyring :: "byte list \<Rightarrow> kr_state \<Rightarrow> kr_state \<times> nat option" where
  "alloc_named_keyring name st =
     (case slot_alloc st of
        (st, None) \<Rightarrow> (st, None)
      | (st, Some i) \<Rightarrow>
          (set_slot i (\<lambda>s. s\<lparr>ktype := KEY_TYPE_KEYRING,
             description := take (KEY_DESC_MAX - 1) name, subject := take (KEY_SUBJ_MAX - 1) name,
             kuid := 0, kgid := 0, perms := 0x3f3f0000\<rparr>) st, Some i))"

record rtc_datetime =
  dt_second :: nat
  dt_minute :: nat
  dt_hour :: nat
  dt_day :: nat
  dt_month :: nat
  dt_year :: nat

text \<open>\<open>YYMMDDHHMMSSZ\<close>; each pair of digits is computed as the source does, in a byte.\<close>

definition two_digits :: "nat \<Rightarrow> byte list" where
  "two_digits n = [of_nat (48 + n div 10), of_nat (48 + n mod 10)]"

definition fmt_utctime :: "rtc_datetime \<Rightarrow> byte list" where
  "fmt_utctime dt =
     (let year = dt_year dt;
          year = (if year < 1950 then 1950 else year);
          year = (if year > 2049 then 2049 else year)
      in two_digits (year mod 100) @ two_digits (dt_month dt) @ two_digits (dt_day dt) @
         two_digits (dt_hour dt) @ two_digits (dt_minute dt) @ two_digits (dt_second dt) @ [90])"

definition slot_attach_cert :: "nat \<Rightarrow> addr \<Rightarrow> nat \<Rightarrow> kr_state \<Rightarrow> kr_state" where
  "slot_attach_cert i der len st =
     set_slot i (\<lambda>s. s\<lparr>cert := der, cert_len := len, generated := True\<rparr>)
       (kr_free (cert (g_keys st ! i)) st)"

definition bytes_of_string :: "string \<Rightarrow> byte list" where
  "bytes_of_string s = map (\<lambda>c. of_nat (of_char c)) s"

definition serial_of :: "nat option \<Rightarrow> kr_state \<Rightarrow> u32 \<Rightarrow> u32" where \<comment> \<open>\<open>slot ? slot->serial : d\<close>\<close>
  "serial_of o' st d = (case o' of None \<Rightarrow> d | Some i \<Rightarrow> serial (g_keys st ! i))"

definition keyring_init :: "addr \<Rightarrow> kr_state \<Rightarrow> kr_state \<times> int" where
  "keyring_init np st =
     (if g_kr_inited st then (st, 0)
      else
        (let (st, session) = alloc_named_keyring (bytes_of_string ''session'') st;
             (st, builtin) = alloc_named_keyring (bytes_of_string ''.builtin_trusted_keys'') st;
             (st, secondary) = alloc_named_keyring (bytes_of_string ''.secondary_trusted_keys'') st;
             st = st\<lparr>g_session_serial := serial_of session st (g_session_serial st),
                     g_builtin_serial := serial_of builtin st (g_builtin_serial st),
                     g_secondary_serial := serial_of secondary st (g_secondary_serial st)\<rparr>;
             st = (case (builtin, secondary) of
                     (Some b, Some c) \<Rightarrow> fst (ring_link_locked c (serial (g_keys st ! b)) np st)
                   | _ \<Rightarrow> st);
             st = st\<lparr>g_kr_inited := True\<rparr>
         in (st, if g_session_serial st \<noteq> 0 then 0 else - 1)))"

definition keyring_load_system_certs :: "addr \<Rightarrow> kr_state \<Rightarrow> kr_state \<times> int" where
  "keyring_load_system_certs np st = keyring_init np st"

text \<open>\<open>pem\<close> is what the caller's pointer and length give, \<open>[]\<close> for NULL or 0. \<open>np0\<close> is for
  \<open>keyring_init\<close>, \<open>copy\<close> for the copy and \<open>np\<close> for the link.\<close>

definition keyring_install_system_ca ::
    "byte list \<Rightarrow> addr \<times> addr \<times> addr \<Rightarrow> kr_state \<Rightarrow> kr_state \<times> int" where
  "keyring_install_system_ca pem al st =
     (let (np0, copy, np) = al; (st, rc) = keyring_init np0 st
      in if rc \<noteq> 0 then (st, - 1)
         else if pem = [] then (st, 0)
         else if g_system_certs_loaded st \<and> g_system_der st \<noteq> 0 \<and> g_system_der_len st \<noteq> 0 then (st, 0)
         else if copy = 0 then (st, - 12)
         else
           (let st = kr_put copy pem st
            in if g_system_certs_loaded st then (kr_free copy st, 0)
               else case slot_alloc st of
                 (st, None) \<Rightarrow> (kr_free copy st, - 28)
               | (st, Some i) \<Rightarrow>
                   (let st = set_slot i (\<lambda>s. s\<lparr>ktype := KEY_TYPE_USER,
                          description := bytes_of_string ''AxonOS System CA'',
                          subject := bytes_of_string ''AxonOS System CA'',
                          kuid := 0, kgid := 0, perms := 0x3f3f0000,
                          payload := copy, payload_len := length pem\<rparr>) st;
                        st = (case slot_by_serial (g_builtin_serial st) st of
                                None \<Rightarrow> st
                              | Some b \<Rightarrow> fst (ring_link_locked b (serial (g_keys st ! i)) np st))
                    in (st\<lparr>g_system_der := copy, g_system_der_len := length pem,
                           g_system_certs_loaded := True\<rparr>, 0))))"

definition keyring_system_cert_der :: "kr_state \<Rightarrow> (addr \<times> nat) option" where
  "keyring_system_cert_der st =
     (if \<not> g_system_certs_loaded st \<or> g_system_der st = 0 \<or> g_system_der_len st = 0 then None
      else Some (g_system_der st, g_system_der_len st))"

section \<open>Adding and requesting\<close>

text \<open>The C string in the subject array after \<open>memcpy\<close> of at most \<open>KEY_SUBJ_MAX - 1\<close> bytes.\<close>

definition subject_of :: "byte list \<Rightarrow> byte list" where
  "subject_of bs = takeWhile (\<lambda>c. c \<noteq> 0) (take (KEY_SUBJ_MAX - 1) bs)"

text \<open>\<open>desc\<close> is \<open>None\<close> for NULL; \<open>data\<close> is \<open>[]\<close> for a NULL payload or length 0. \<open>p\<close> is for a
  user key's payload, \<open>np\<close> for the link.\<close>

definition add_key_fill :: "int \<Rightarrow> byte list \<Rightarrow> addr \<Rightarrow> nat \<Rightarrow> kr_state \<Rightarrow> kr_state" where
  "add_key_fill type data p i st =
     (if type = KEY_TYPE_ASYMMETRIC then
        set_slot i (\<lambda>s.
          let s = (if data \<noteq> [] then
                     (let s = s\<lparr>subject := subject_of data\<rparr>
                      in if description s = [] then s\<lparr>description := take (KEY_DESC_MAX - 1) (subject s)\<rparr>
                         else s)
                   else s)
          in s\<lparr>cert := 0, cert_len := 0, generated := False\<rparr>) st
      else if type = KEY_TYPE_USER then
        (if data \<noteq> [] \<and> p \<noteq> 0
         then set_slot i (\<lambda>s. s\<lparr>payload := p, payload_len := length data\<rparr>) (kr_put p data st)
         else st)
      else st)"

definition keyring_add_key ::
    "int \<Rightarrow> byte list option \<Rightarrow> byte list \<Rightarrow> int \<Rightarrow> addr \<times> addr \<Rightarrow> kr_state \<Rightarrow> kr_state \<times> int" where
  "keyring_add_key type desc data ring_id al st =
     (if type \<noteq> KEY_TYPE_KEYRING \<and> type \<noteq> KEY_TYPE_ASYMMETRIC \<and> type \<noteq> KEY_TYPE_USER then (st, - 5)
      else case desc of
        None \<Rightarrow> (st, - 5)
      | Some d \<Rightarrow>
          if d = [] then (st, - 5)
          else
            (let ring = ring_resolve ring_id st; (p, np) = al
             in if ring < 0 then (st, - 126)
                else case slot_alloc st of
                  (st, None) \<Rightarrow> (st, - 28)
                | (st, Some i) \<Rightarrow>
                    (let st = set_slot i (\<lambda>s. s\<lparr>ktype := type,
                           description := take (KEY_DESC_MAX - 1) d,
                           subject := take (KEY_SUBJ_MAX - 1) d,
                           kuid := 0, kgid := 0, perms := 0x3f3f0000\<rparr>) st;
                         st = add_key_fill type data p i st;
                         st = (case slot_by_serial (word_of_int ring) st of
                                 None \<Rightarrow> st
                               | Some r \<Rightarrow> fst (ring_link_locked r (serial (g_keys st ! i)) np st))
                     in (st, uint (serial (g_keys st ! i))))))"

definition request_match :: "int \<Rightarrow> byte list \<Rightarrow> nat option \<Rightarrow> kr_state \<Rightarrow> kr_slot \<Rightarrow> bool" where
  "request_match type desc ring_slot st s \<longleftrightarrow>
     used s \<and> ktype s = type \<and>
     (case ring_slot of
        None \<Rightarrow> True
      | Some r \<Rightarrow> ktype (g_keys st ! r) = KEY_TYPE_KEYRING \<longrightarrow>
          serial s \<in> set (ring_serials (g_keys st ! r) st)) \<and>
     take (KEY_DESC_MAX - 1) (description s) = take (KEY_DESC_MAX - 1) desc"

definition keyring_request_key ::
    "int \<Rightarrow> byte list \<Rightarrow> int \<Rightarrow> addr \<times> addr \<Rightarrow> kr_state \<Rightarrow> kr_state \<times> int" where
  "keyring_request_key type desc ring_id al st =
     (let ring = ring_resolve ring_id st;
          ring_slot = (if ring \<ge> 0 then slot_by_serial (word_of_int ring) st else None)
      in case findi (request_match type desc ring_slot st) (g_keys st) of
           Some i \<Rightarrow> (st, uint (serial (g_keys st ! i)))
         | None \<Rightarrow> keyring_add_key type (Some desc) [] ring_id al st)"

section \<open>The commands of keyctl\<close>

definition keyctl_get_keyring_id :: "int \<Rightarrow> int \<Rightarrow> addr \<times> addr \<Rightarrow> kr_state \<Rightarrow> kr_state \<times> int" where
  "keyctl_get_keyring_id ringid create al st =
     (let ring = ring_resolve ringid st
      in if ring < 0 \<and> create \<noteq> 0
         then keyring_add_key KEY_TYPE_KEYRING (Some (bytes_of_string ''keyring'')) [] 0 al st
         else (st, ring))"

definition clear_payload :: "nat \<Rightarrow> kr_state \<Rightarrow> kr_state" where
  "clear_payload i st =
     set_slot i (\<lambda>s. s\<lparr>payload := 0, payload_len := 0\<rparr>) (kr_free (payload (g_keys st ! i)) st)"

definition clear_cert :: "nat \<Rightarrow> kr_state \<Rightarrow> kr_state" where
  "clear_cert i st =
     set_slot i (\<lambda>s. s\<lparr>cert := 0, cert_len := 0, generated := False\<rparr>) (kr_free (cert (g_keys st ! i)) st)"

definition keyctl_join_session :: "kr_state \<Rightarrow> kr_state \<times> int" where
  "keyctl_join_session st =
     (let st = (case slot_by_serial (g_session_serial st) st of
                  None \<Rightarrow> st | Some i \<Rightarrow> clear_payload i st)
      in case slot_alloc st of
           (st, None) \<Rightarrow> (st, uint (g_session_serial st))
         | (st, Some i) \<Rightarrow>
             (let st = set_slot i (\<lambda>s. s\<lparr>ktype := KEY_TYPE_KEYRING,
                    description := bytes_of_string ''session'',
                    subject := bytes_of_string ''session''\<rparr>) st;
                  n = serial (g_keys st ! i)
              in (st\<lparr>g_session_serial := n\<rparr>, uint n)))"

text \<open>\<open>caller\<close> is the effective user id of the calling thread, \<open>None\<close> without one.\<close>

definition keyctl_setperm :: "u32 \<Rightarrow> u32 \<Rightarrow> u32 option \<Rightarrow> kr_state \<Rightarrow> kr_state \<times> int" where
  "keyctl_setperm n pm caller st =
     (case slot_by_serial n st of
        None \<Rightarrow> (st, - 126)
      | Some i \<Rightarrow>
          if (case caller of None \<Rightarrow> False | Some e \<Rightarrow> e \<noteq> 0 \<and> e \<noteq> kuid (g_keys st ! i))
          then (st, - 1)
          else (set_slot i (\<lambda>s. s\<lparr>perms := pm\<rparr>) st, 0))"

text \<open>Making and attaching a certificate, outside the lock and then inside it. \<open>keep\<close> is whether a
  certificate that appeared meanwhile stays.\<close>

type_synonym cert_maker = "byte list \<Rightarrow> byte list option"

definition make_and_attach ::
    "cert_maker \<Rightarrow> (kr_state \<Rightarrow> kr_state) \<Rightarrow> addr \<Rightarrow> bool \<Rightarrow> byte list \<Rightarrow> u32 \<Rightarrow> kr_state \<Rightarrow>
     kr_state \<times> (int + nat)" where
  "make_and_attach mk env der keep subj n st =
     (let st = env st
      in if der = 0 then (st, Inl (- 12))
         else case mk subj of
           None \<Rightarrow> (st, Inl (- 5))
         | Some c \<Rightarrow>
             (let st = kr_put der c st
              in case slot_by_serial n st of
                   None \<Rightarrow> (kr_free der st, Inl (- 126))
                 | Some i \<Rightarrow>
                     if keep \<and> generated (g_keys st ! i) then (kr_free der st, Inr i)
                     else (slot_attach_cert i der (length c) st, Inr i)))"

text \<open>What \<open>KEYCTL_UPDATE\<close> does to an asymmetric key before it lets the lock go.\<close>

definition forget_cert :: "nat \<Rightarrow> byte list \<Rightarrow> kr_state \<Rightarrow> kr_state" where
  "forget_cert i data st =
     clear_cert i (if data \<noteq> [] then set_slot i (\<lambda>s. s\<lparr>subject := subject_of data\<rparr>) st else st)"

definition keyctl_update ::
    "cert_maker \<Rightarrow> (kr_state \<Rightarrow> kr_state) \<Rightarrow> u32 \<Rightarrow> byte list \<Rightarrow> addr \<Rightarrow> kr_state \<Rightarrow> kr_state \<times> int" where
  "keyctl_update mk env n data a st =
     (case slot_by_serial n st of
        None \<Rightarrow> (st, - 126)
      | Some i \<Rightarrow>
          if ktype (g_keys st ! i) = KEY_TYPE_ASYMMETRIC then
            (let st = forget_cert i data st
             in case make_and_attach mk env a False (subject (g_keys st ! i)) n st of
                  (st, Inl e) \<Rightarrow> (st, e)
                | (st, Inr _) \<Rightarrow> (st, 0))
          else if ktype (g_keys st ! i) = KEY_TYPE_USER then
            (let st = clear_payload i st
             in if data \<noteq> [] \<and> a \<noteq> 0
                then (set_slot i (\<lambda>s. s\<lparr>payload := a, payload_len := length data\<rparr>) (kr_put a data st), 0)
                else (st, 0))
          else (st, 0))"

definition keyctl_revoke :: "u32 \<Rightarrow> kr_state \<Rightarrow> kr_state \<times> int" where
  "keyctl_revoke n st =
     (case slot_by_serial n st of
        None \<Rightarrow> (st, - 126)
      | Some i \<Rightarrow> (set_slot i (\<lambda>_. kr_zero) (clear_cert i (clear_payload i st)), 0))"

text \<open>\<open>"%s;%u;%u;%08x;%s"\<close>\<close>

definition dec_u32 :: "u32 \<Rightarrow> byte list" where
  "dec_u32 w = decimal (uint w)"

definition hex8 :: "u32 \<Rightarrow> byte list" where
  "hex8 w = map (\<lambda>k. digit_char (uint (drop_bit (4 * k) w AND 0xf))) [7, 6, 5, 4, 3, 2, 1, 0]"

definition describe_line :: "kr_slot \<Rightarrow> byte list" where
  "describe_line s =
     bytes_of_string (if ktype s = KEY_TYPE_KEYRING then ''keyring''
       else if ktype s = KEY_TYPE_ASYMMETRIC then ''asymmetric'' else ''user'') @ [59] @
     dec_u32 (kuid s) @ [59] @ dec_u32 (kgid s) @ [59] @ hex8 (perms s) @ [59] @ description s"

text \<open>The returned length, and the C string left in a buffer of \<open>buflen\<close> bytes: the casts to
  \<open>int\<close> and back to \<open>size_t\<close> are the source's.\<close>

definition keyctl_describe :: "u32 \<Rightarrow> nat \<Rightarrow> kr_state \<Rightarrow> int \<times> byte list" where
  "keyctl_describe n buflen st =
     (case slot_by_serial n st of
        None \<Rightarrow> (- 126, [])
      | Some i \<Rightarrow>
          (let line = describe_line (g_keys st ! i); need = int (length line);
               n = (if need < s32 (int buflen) then need else s32 (int buflen) - 1);
               cap = nat ((n + 1) mod 2 ^ 64)
           in (need, if buflen > 0 then take (cap - 1) line else [])))"

definition keyctl_clear :: "u32 \<Rightarrow> kr_state \<Rightarrow> kr_state \<times> int" where
  "keyctl_clear n st =
     (case slot_by_serial n st of None \<Rightarrow> (st, - 126) | Some i \<Rightarrow> (clear_payload i st, 0))"

definition keyctl_link :: "u32 \<Rightarrow> u32 \<Rightarrow> addr \<Rightarrow> kr_state \<Rightarrow> kr_state \<times> int" where
  "keyctl_link keyid ringid np st =
     (case (slot_by_serial keyid st, slot_by_serial ringid st) of
        (Some k, Some r) \<Rightarrow>
          if ktype (g_keys st ! r) \<noteq> KEY_TYPE_KEYRING then (st, - 22)
          else (fst (ring_link_locked r keyid np st), 0)
      | _ \<Rightarrow> (st, - 22))"

definition keyctl_unlink :: "u32 \<Rightarrow> u32 \<Rightarrow> kr_state \<Rightarrow> kr_state \<times> int" where
  "keyctl_unlink keyid ringid st =
     (case slot_by_serial ringid st of
        None \<Rightarrow> (st, - 22)
      | Some i \<Rightarrow>
          (let r = g_keys st ! i
           in if ktype r \<noteq> KEY_TYPE_KEYRING then (st, - 22)
              else
                (let ws = filter (\<lambda>w. w \<noteq> keyid) (ring_serials r st);
                     bs = (case kblk st (payload r) of None \<Rightarrow> [] | Some bs \<Rightarrow> bs);
                     st = (if payload_len r div 4 = 0 then st
                           else kr_put (payload r) (enc32s ws @ drop (4 * length ws) bs) st)
                 in (set_slot i (\<lambda>s. s\<lparr>payload_len := length ws * 4\<rparr>) st, 0))))"

definition search_type :: "byte list \<Rightarrow> int" where
  "search_type t =
     (if t = bytes_of_string ''keyring'' then KEY_TYPE_KEYRING
      else if t = bytes_of_string ''asymmetric'' then KEY_TYPE_ASYMMETRIC
      else if t = bytes_of_string ''user'' then KEY_TYPE_USER else 0)"

definition keyctl_search ::
    "u32 \<Rightarrow> byte list \<Rightarrow> byte list option \<Rightarrow> addr \<times> addr \<Rightarrow> kr_state \<Rightarrow> kr_state \<times> int" where
  "keyctl_search ringid t desc al st =
     (case desc of
        None \<Rightarrow> (st, - 22)
      | Some d \<Rightarrow>
          if search_type t = 0 then (st, - 22)
          else keyring_request_key (search_type t) d (sint ringid) al st)"

text \<open>The part of \<open>KEYCTL_READ\<close> after the certificate is there: the returned length and the bytes
  copied to a buffer of \<open>buflen\<close> bytes.\<close>

definition read_slot :: "nat \<Rightarrow> nat \<Rightarrow> kr_state \<Rightarrow> int \<times> byte list" where
  "read_slot i buflen st =
     (let s = g_keys st ! i
      in if ktype s = KEY_TYPE_ASYMMETRIC then
           (if \<not> generated s \<or> cert s = 0 then (- 5, [])
            else (int (cert_len s),
                  take buflen (case kblk st (cert s) of None \<Rightarrow> [] | Some bs \<Rightarrow> take (cert_len s) bs)))
         else (int (payload_len s), take buflen (slot_bytes s st)))"

definition keyctl_read ::
    "cert_maker \<Rightarrow> (kr_state \<Rightarrow> kr_state) \<Rightarrow> u32 \<Rightarrow> nat \<Rightarrow> addr \<Rightarrow> kr_state \<Rightarrow> kr_state \<times> int \<times> byte list" where
  "keyctl_read mk env n buflen a st =
     (case slot_by_serial n st of
        None \<Rightarrow> (st, - 126, [])
      | Some i \<Rightarrow>
          (let s = g_keys st ! i
           in if ktype s = KEY_TYPE_ASYMMETRIC \<and> \<not> generated s then
                (case make_and_attach mk env a True (subject s) n st of
                   (st, Inl e) \<Rightarrow> (st, e, [])
                 | (st, Inr j) \<Rightarrow> (st, read_slot j buflen st))
              else (st, read_slot i buflen st)))"

section \<open>The dispatcher\<close>

text \<open>\<open>keyctl_do\<close>: the arguments as numbers, with what the pointers among them point to. The
  result has the value returned and the bytes stored in the caller's buffer.\<close>

record keyctl_args =
  a2 :: int
  a3 :: int
  a3_bytes :: "byte list" \<comment> \<open>the C string or the \<open>a4\<close> bytes at \<open>a3\<close>, \<open>[]\<close> for NULL\<close>
  a4 :: nat
  a4_str :: "byte list option" \<comment> \<open>the C string at \<open>a4\<close>\<close>

record keyctl_world =
  w_mk :: cert_maker
  w_env :: "kr_state \<Rightarrow> kr_state"
  w_al :: "addr \<times> addr"
  w_euid :: "u32 option"

definition keyctl_do :: "int \<Rightarrow> keyctl_args \<Rightarrow> keyctl_world \<Rightarrow> kr_state \<Rightarrow> kr_state \<times> int \<times> byte list" where
  "keyctl_do cmd a w st =
     (let n = word_of_int (a2 a); no_out = (\<lambda>(st, r). (st, r, [] :: byte list))
      in if cmd = 0 then no_out (keyctl_get_keyring_id (s32 (a2 a)) (s32 (a3 a)) (w_al w) st)
         else if cmd = 1 then no_out (keyctl_join_session st)
         else if cmd = 5 then no_out (keyctl_setperm n (word_of_int (a3 a)) (w_euid w) st)
         else if cmd = 2 then no_out (keyctl_update (w_mk w) (w_env w) n (a3_bytes a) (fst (w_al w)) st)
         else if cmd = 3 then no_out (keyctl_revoke n st)
         else if cmd = 6 then (st, keyctl_describe n (if a3 a = 0 then 0 else a4 a) st)
         else if cmd = 7 then no_out (keyctl_clear n st)
         else if cmd = 8 then no_out (keyctl_link n (word_of_int (a3 a)) (fst (w_al w)) st)
         else if cmd = 9 then no_out (keyctl_unlink n (word_of_int (a3 a)) st)
         else if cmd = 10 then no_out (keyctl_search n (a3_bytes a) (a4_str a) (w_al w) st)
         else if cmd = 11 then
           keyctl_read (w_mk w) (w_env w) n (if a3 a = 0 then 0 else a4 a) (fst (w_al w)) st
         else (st, - 38, []))"

definition keyring_count :: "kr_state \<Rightarrow> nat" where
  "keyring_count st = length (filter used (g_keys st))"

text \<open>What \<open>keyring_walk\<close> passes to its callback, in order.\<close>

definition keyring_walk :: "kr_state \<Rightarrow> (u32 \<times> int \<times> u32 \<times> u32 \<times> u32 \<times> byte list \<times> nat) list" where
  "keyring_walk st =
     map (\<lambda>s. (serial s, ktype s, kuid s, kgid s, perms s, description s, length (description s)))
       (filter used (g_keys st))"

end
