(* ===== verification/Keyring_Thms.thy ===== *)
theory Keyring_Thms
  imports Keyring "HOL-Library.Multiset"
begin

text \<open>
  Correctness of the key store. The invariant ties the table to the heap blocks: every live block
  belongs to exactly one slot, so that no operation leaks, frees twice or reads a freed block
  through a slot. Serials identify slots, and a revoked serial never comes back.
\<close>

section \<open>Invariant\<close>

definition owned :: "kr_slot \<Rightarrow> addr list" where
  "owned s = filter (\<lambda>b. b \<noteq> 0) [payload s, cert s]"

definition blocks :: "kr_state \<Rightarrow> addr list" where
  "blocks st = concat (map owned (g_keys st))"

definition slot_ok :: "kr_state \<Rightarrow> kr_slot \<Rightarrow> bool" where
  "slot_ok st s \<longleftrightarrow>
     (payload s \<noteq> 0 \<longrightarrow> (\<exists>bs. kblk st (payload s) = Some bs \<and> payload_len s \<le> length bs)) \<and>
     (payload s = 0 \<longrightarrow> payload_len s = 0) \<and>
     (cert s \<noteq> 0 \<longrightarrow> (\<exists>bs. kblk st (cert s) = Some bs \<and> cert_len s \<le> length bs)) \<and>
     (\<not> used s \<longrightarrow> payload s = 0 \<and> cert s = 0) \<and>
     (used s \<longrightarrow> 0 < unat (serial s) \<and> unat (serial s) < unat (g_next_serial st)) \<and>
     (used s \<and> ktype s = KEY_TYPE_KEYRING \<longrightarrow>
        4 dvd payload_len s \<and> payload_len s \<le> 256 \<and> distinct (ring_serials s st))"

definition kr_inv :: "kr_state \<Rightarrow> bool" where
  "kr_inv st \<longleftrightarrow> length (g_keys st) = KEYRING_MAX \<and> (\<forall>s \<in> set (g_keys st). slot_ok st s) \<and>
     (\<forall>i < KEYRING_MAX. \<forall>j < KEYRING_MAX. used (g_keys st ! i) \<longrightarrow> used (g_keys st ! j) \<longrightarrow>
        serial (g_keys st ! i) = serial (g_keys st ! j) \<longrightarrow> i = j) \<and>
     finite (dom (kblk st)) \<and> kblk st 0 = None \<and> mset (blocks st) = mset_set (dom (kblk st))"

lemma set_owned: "b \<in> set (owned s) \<longleftrightarrow> b \<noteq> 0 \<and> (b = payload s \<or> b = cert s)"
  by (auto simp: owned_def)

lemma kr_inv_slot: "kr_inv st \<Longrightarrow> i < KEYRING_MAX \<Longrightarrow> slot_ok st (g_keys st ! i)"
  by (simp add: kr_inv_def)

lemma mset_blocks_update:
  "i < length ks \<Longrightarrow> mset (concat (map owned (ks[i := s]))) + mset (owned (ks ! i)) =
     mset (concat (map owned ks)) + mset (owned s)"
proof (induction ks arbitrary: i)
  case (Cons k ks)
  then show ?case by (cases i) (auto simp: ac_simps)
qed simp

lemma owned_blocks:
  assumes "i < length (g_keys st)"
  shows "mset (owned (g_keys st ! i)) \<subseteq># mset (blocks st)"
proof -
  have "mset (concat (map owned ((g_keys st)[i := kr_zero]))) + mset (owned (g_keys st ! i)) = mset (blocks st)"
    using mset_blocks_update [OF assms, of kr_zero] by (simp add: blocks_def owned_def kr_zero_def)
  then show ?thesis by (metis mset_subset_eq_add_right)
qed

text \<open>A slot's blocks belong to no other slot.\<close>

lemma owned_disjoint:
  assumes "kr_inv st" and "i < KEYRING_MAX" "j < KEYRING_MAX" "i \<noteq> j"
    and "b \<in> set (owned (g_keys st ! i))"
  shows "b \<notin> set (owned (g_keys st ! j))"
proof
  assume bj: "b \<in> set (owned (g_keys st ! j))"
  have len: "length (g_keys st) = KEYRING_MAX" using assms(1) by (simp add: kr_inv_def)
  let ?ks = "(g_keys st)[i := kr_zero]"
  have z: "owned kr_zero = []" by (simp add: owned_def kr_zero_def)
  have "mset (concat (map owned ?ks)) + mset (owned (g_keys st ! i)) = mset (blocks st)"
    using mset_blocks_update [of i "g_keys st" kr_zero] assms(2) len by (simp add: blocks_def z)
  moreover have "?ks ! j \<in> set ?ks" using assms(3) len by (intro nth_mem) simp
  then have "b \<in># mset (concat (map owned ?ks))" using bj assms(4) by auto
  moreover have "b \<in># mset (owned (g_keys st ! i))" using assms(5) by simp
  ultimately have "2 \<le> count (mset (blocks st)) b"
    by (metis add_mono_thms_linordered_semiring(1) count_greater_eq_one_iff count_union one_add_one)
  moreover have "count (mset_set (dom (kblk st))) b \<le> 1"
    by (cases "finite (dom (kblk st))") (auto simp: count_mset_set')
  ultimately show False using assms(1) by (simp add: kr_inv_def)
qed

lemma owned_live:
  assumes "kr_inv st" and "i < KEYRING_MAX" and "b \<in> set (owned (g_keys st ! i))"
  shows "b \<in> dom (kblk st)"
proof -
  show ?thesis using kr_inv_slot [OF assms(1,2)] assms(3) by (auto simp: slot_ok_def set_owned)
qed

lemma slot_ok_cong:
  assumes "\<And>b. b \<in> set (owned s) \<Longrightarrow> kblk st' b = kblk st b" and "kblk st' 0 = kblk st 0"
    and "unat (g_next_serial st) \<le> unat (g_next_serial st')" and "slot_ok st s"
  shows "slot_ok st' s"
proof -
  have "kblk st' (payload s) = kblk st (payload s)" "kblk st' (cert s) = kblk st (cert s)"
    using assms(1) [of "payload s"] assms(1) [of "cert s"] assms(2)
    by (auto simp: set_owned) (metis neq0_conv)+
  then show ?thesis using assms(3,4) by (auto simp: slot_ok_def ring_serials_def slot_bytes_def)
qed

text \<open>Replacing one slot: the blocks it gives up and takes over balance the change of the heap.\<close>

lemma kr_inv_update:
  assumes inv: "kr_inv st" and i: "i < KEYRING_MAX"
    and ks: "g_keys st' = (g_keys st)[i := s]"
    and nx: "unat (g_next_serial st) \<le> unat (g_next_serial st')"
    and fin: "finite (dom (kblk st'))" "kblk st' 0 = None"
    and bal: "mset (owned s) + mset_set (dom (kblk st)) =
      mset (owned (g_keys st ! i)) + mset_set (dom (kblk st'))"
    and frame: "\<And>b. b \<noteq> 0 \<Longrightarrow> b \<notin> set (owned (g_keys st ! i)) \<Longrightarrow> kblk st b \<noteq> None \<Longrightarrow> kblk st' b = kblk st b"
    and ok: "slot_ok st' s"
    and ser: "\<And>j. used s \<Longrightarrow> j < KEYRING_MAX \<Longrightarrow> j \<noteq> i \<Longrightarrow> used (g_keys st ! j) \<Longrightarrow> serial (g_keys st ! j) \<noteq> serial s"
  shows "kr_inv st'"
proof -
  have len: "length (g_keys st) = KEYRING_MAX" using inv by (simp add: kr_inv_def)
  have "mset (blocks st') + mset (owned (g_keys st ! i)) = mset (blocks st) + mset (owned s)"
    unfolding blocks_def ks using mset_blocks_update i len by simp
  then have "mset (blocks st') + mset (owned (g_keys st ! i)) =
      mset (owned (g_keys st ! i)) + mset_set (dom (kblk st'))"
    using inv bal by (simp add: kr_inv_def ac_simps)
  then have m: "mset (blocks st') = mset_set (dom (kblk st'))" by (simp add: ac_simps)
  have oth: "slot_ok st' (g_keys st ! j)" if "j < KEYRING_MAX" "j \<noteq> i" for j
  proof (rule slot_ok_cong [where st = st])
    show "slot_ok st (g_keys st ! j)" using inv that len by (simp add: kr_inv_def)
    show "kblk st' 0 = kblk st 0" using inv fin by (simp add: kr_inv_def)
    show "kblk st' b = kblk st b" if "b \<in> set (owned (g_keys st ! j))" for b
    proof (rule frame)
      show "b \<noteq> 0" using that by (simp add: set_owned)
      show "b \<notin> set (owned (g_keys st ! i))" using owned_disjoint [OF inv] that \<open>j < _\<close> \<open>j \<noteq> i\<close> i by blast
      show "kblk st b \<noteq> None" using owned_live [OF inv \<open>j < _\<close> that] by auto
    qed
  qed (use nx in simp)
  have slots: "slot_ok st' (g_keys st' ! j)" if "j < KEYRING_MAX" for j
    using oth ok that i len by (cases "j = i") (simp_all add: ks)
  have uniq: "j = k" if "j < KEYRING_MAX" "k < KEYRING_MAX" "used (g_keys st' ! j)" "used (g_keys st' ! k)"
    "serial (g_keys st' ! j) = serial (g_keys st' ! k)" for j k
    using that inv ser [of j] ser [of k] i len
    by (cases "j = i"; cases "k = i") (auto simp: ks kr_inv_def)
  have "\<forall>t \<in> set (g_keys st'). slot_ok st' t"
    using slots len by (auto simp: in_set_conv_nth ks)
  with m uniq fin len show ?thesis by (simp add: kr_inv_def ks)
qed

section \<open>The moves\<close>

lemma length_keys [simp]: "kr_inv st \<Longrightarrow> length (g_keys st) = KEYRING_MAX"
  by (simp add: kr_inv_def)

lemma set_slot_views [simp]:
  "kblk (set_slot i u st) = kblk st" "g_next_serial (set_slot i u st) = g_next_serial st"
  "g_keys (set_slot i u st) = (g_keys st)[i := u (g_keys st ! i)]"
  by (simp_all add: set_slot_def)

lemma kr_blk_views [simp]:
  "g_keys (kr_put p bs st) = g_keys st" "g_next_serial (kr_put p bs st) = g_next_serial st"
  "kblk (kr_put p bs st) = (kblk st)(p \<mapsto> bs)"
  "g_keys (kr_free p st) = g_keys st" "g_next_serial (kr_free p st) = g_next_serial st"
  "kblk (kr_free p st) = (if p = 0 then kblk st else (kblk st)(p := None))"
  by (simp_all add: kr_put_def kr_free_def)

text \<open>Changing neither the blocks nor the identity of a slot.\<close>

lemma kr_inv_cosmetic:
  assumes inv: "kr_inv st" and i: "i < KEYRING_MAX"
    and ks: "g_keys st' = (g_keys st)[i := s]" and b: "kblk st' = kblk st"
    and nx: "g_next_serial st' = g_next_serial st"
    and s: "used s = used (g_keys st ! i)" "serial s = serial (g_keys st ! i)"
      "payload s = payload (g_keys st ! i)" "payload_len s = payload_len (g_keys st ! i)"
      "cert s = cert (g_keys st ! i)" "cert_len s = cert_len (g_keys st ! i)"
      "ktype s = ktype (g_keys st ! i) \<or> payload_len s = 0"
  shows "kr_inv st'"
proof (rule kr_inv_update [OF inv i ks])
  have o: "owned s = owned (g_keys st ! i)" using s by (simp add: owned_def)
  show "mset (owned s) + mset_set (dom (kblk st)) = mset (owned (g_keys st ! i)) + mset_set (dom (kblk st'))"
    by (simp add: o b)
  have "ring_serials s st' = ring_serials (g_keys st ! i) st"
    using s b by (simp add: ring_serials_def slot_bytes_def split: option.split)
  moreover have "ring_serials s st' = []" if "payload_len s = 0"
    using that by (simp add: ring_serials_def slot_bytes_def split: option.split)
  ultimately show "slot_ok st' s"
    using kr_inv_slot [OF inv i] s b nx by (auto simp: slot_ok_def)
  show "serial (g_keys st ! j) \<noteq> serial s"
    if "used s" "j < KEYRING_MAX" "j \<noteq> i" "used (g_keys st ! j)" for j
    using that inv i s by (auto simp: kr_inv_def)
qed (use inv b nx in \<open>auto simp: kr_inv_def\<close>)

lemma kr_inv_same:
  assumes "kr_inv st" "g_keys st' = g_keys st" "kblk st' = kblk st" "g_next_serial st' = g_next_serial st"
  shows "kr_inv st'"
  using assms by (intro kr_inv_cosmetic [OF assms(1), of 0 st' "g_keys st ! 0"])
    (auto simp: KEYRING_MAX_def)

lemma ring_serials_cong:
  "payload s' = payload s \<Longrightarrow> payload_len s' = payload_len s \<Longrightarrow> kblk st' (payload s) = kblk st (payload s) \<Longrightarrow>
   ring_serials s' st' = ring_serials s st"
  by (simp add: ring_serials_def slot_bytes_def split: option.split)

lemma ring_serials_empty: "payload_len s = 0 \<Longrightarrow> ring_serials s st = []"
  by (simp add: ring_serials_def slot_bytes_def split: option.split)

lemma mset_set_remove: "finite A \<Longrightarrow> a \<in> A \<Longrightarrow> add_mset a (mset_set (A - {a})) = mset_set A"
  by (rule mset_set.remove [symmetric])

lemma kr_inv_ne:
  assumes inv: "kr_inv st" and i: "i < KEYRING_MAX" and p: "payload (g_keys st ! i) \<noteq> 0"
  shows "payload (g_keys st ! i) \<noteq> cert (g_keys st ! i)"
proof
  let ?s = "g_keys st ! i"
  assume "payload ?s = cert ?s"
  then have "count (mset (owned ?s)) (payload ?s) = 2" using p by (simp add: owned_def)
  moreover have "count (mset (owned ?s)) (payload ?s) \<le> count (mset (blocks st)) (payload ?s)"
    by (intro mset_subset_eq_count owned_blocks) (use i inv in simp)
  moreover have "count (mset (blocks st)) (payload ?s) \<le> 1"
    using inv by (simp add: kr_inv_def count_mset_set')
  ultimately show False by simp
qed

lemma clear_payload_inv:
  assumes inv: "kr_inv st" and i: "i < KEYRING_MAX"
  shows "kr_inv (clear_payload i st)"
proof -
  let ?s = "g_keys st ! i"
  note ok = kr_inv_slot [OF inv i]
  have fin: "finite (dom (kblk st))" "kblk st 0 = None" using inv by (simp_all add: kr_inv_def)
  have live: "payload ?s \<in> dom (kblk st)" if "payload ?s \<noteq> 0"
    using owned_live [OF inv i, of "payload ?s"] that by (simp add: set_owned)
  note ne = kr_inv_ne [OF inv i]
  show ?thesis
  proof (cases "payload ?s = 0")
    case True
    then have "kblk (clear_payload i st) = kblk st" by (simp add: clear_payload_def)
    then show ?thesis using ok True
      by (intro kr_inv_cosmetic [OF inv i, of _ "?s\<lparr>payload := 0, payload_len := 0\<rparr>"])
        (simp_all add: clear_payload_def slot_ok_def)
  next
    case False
    show ?thesis
    proof (rule kr_inv_update [OF inv i, of _ "?s\<lparr>payload := 0, payload_len := 0\<rparr>"])
      show "mset (owned (?s\<lparr>payload := 0, payload_len := 0\<rparr>)) + mset_set (dom (kblk st)) =
          mset (owned ?s) + mset_set (dom (kblk (clear_payload i st)))"
        using False fin live mset_set_remove [of "dom (kblk st)" "payload ?s"]
        by (auto simp: clear_payload_def owned_def)
      show "slot_ok (clear_payload i st) (?s\<lparr>payload := 0, payload_len := 0\<rparr>)"
        using ok False ne fin by (simp add: slot_ok_def ring_serials_empty) (simp add: clear_payload_def)
      show "serial (g_keys st ! j) \<noteq> serial (?s\<lparr>payload := 0, payload_len := 0\<rparr>)"
        if "used (?s\<lparr>payload := 0, payload_len := 0\<rparr>)" "j < KEYRING_MAX" "j \<noteq> i" "used (g_keys st ! j)" for j
        using that inv i by (auto simp: kr_inv_def)
    qed (use fin False in \<open>auto simp: clear_payload_def set_owned\<close>)
  qed
qed

lemma clear_cert_inv:
  assumes inv: "kr_inv st" and i: "i < KEYRING_MAX"
  shows "kr_inv (clear_cert i st)"
proof -
  let ?s = "g_keys st ! i" and ?t = "(g_keys st ! i)\<lparr>cert := 0, cert_len := 0, generated := False\<rparr>"
  note ok = kr_inv_slot [OF inv i] and ne = kr_inv_ne [OF inv i]
  have fin: "finite (dom (kblk st))" "kblk st 0 = None" using inv by (simp_all add: kr_inv_def)
  have live: "cert ?s \<in> dom (kblk st)" if "cert ?s \<noteq> 0"
    using owned_live [OF inv i, of "cert ?s"] that by (simp add: set_owned)
  show ?thesis
  proof (rule kr_inv_update [OF inv i, of _ ?t])
    show "mset (owned ?t) + mset_set (dom (kblk st)) = mset (owned ?s) + mset_set (dom (kblk (clear_cert i st)))"
      using fin live mset_set_remove [of "dom (kblk st)" "cert ?s"]
      by (auto simp: clear_cert_def owned_def)
    have k: "kblk (clear_cert i st) (payload ?s) = kblk st (payload ?s)"
      using ne fin by (auto simp: clear_cert_def)
    then have "ring_serials ?t (clear_cert i st) = ring_serials ?s st"
      by (intro ring_serials_cong) simp_all
    then show "slot_ok (clear_cert i st) ?t"
      using ok k by (simp add: slot_ok_def) (simp add: clear_cert_def)
    show "serial (g_keys st ! j) \<noteq> serial ?t"
      if "used ?t" "j < KEYRING_MAX" "j \<noteq> i" "used (g_keys st ! j)" for j
      using that inv i by (auto simp: kr_inv_def)
  qed (use fin in \<open>auto simp: clear_cert_def set_owned\<close>)
qed

lemma slot_attach_cert_inv:
  assumes inv: "kr_inv st" and i: "i < KEYRING_MAX" and u: "used (g_keys st ! i)"
    and der: "der \<noteq> 0" "kblk st der = None"
  shows "kr_inv (slot_attach_cert i der (length c) (kr_put der c st))"
proof -
  let ?s = "g_keys st ! i" and ?t = "(g_keys st ! i)\<lparr>cert := der, cert_len := length c, generated := True\<rparr>"
  let ?st = "slot_attach_cert i der (length c) (kr_put der c st)"
  note ok = kr_inv_slot [OF inv i] and ne = kr_inv_ne [OF inv i]
  have fin: "finite (dom (kblk st))" "kblk st 0 = None" using inv by (simp_all add: kr_inv_def)
  have live: "b \<in> dom (kblk st) \<and> b \<noteq> der" if "b \<in> set (owned ?s)" for b
    using owned_live [OF inv i that] der by auto
  have k: "kblk ?st = (if cert ?s = 0 then (kblk st)(der \<mapsto> c) else (kblk st)(der \<mapsto> c, cert ?s := None))"
    by (simp add: slot_attach_cert_def)
  have d: "mset_set (dom (kblk ?st)) + mset (if cert ?s = 0 then [] else [cert ?s]) =
      add_mset der (mset_set (dom (kblk st)))"
  proof (cases "cert ?s = 0")
    case True
    then show ?thesis using fin der by (simp add: k) (metis domIff mset_set.insert)
  next
    case False
    then have c: "cert ?s \<in> dom (kblk st)" "cert ?s \<noteq> der" using live [of "cert ?s"] by (auto simp: set_owned)
    then have "dom (kblk ?st) = insert der (dom (kblk st) - {cert ?s})" using False by (auto simp: k)
    moreover have "der \<notin> dom (kblk st) - {cert ?s}" using der by auto
    ultimately show ?thesis
      using False fin(1) mset_set_remove [OF fin(1) c(1), symmetric] by (simp add: add_mset_commute)
  qed
  show ?thesis
  proof (rule kr_inv_update [OF inv i, of _ ?t])
    show "mset (owned ?t) + mset_set (dom (kblk st)) = mset (owned ?s) + mset_set (dom (kblk ?st))"
      using d der by (auto simp: owned_def ac_simps split: if_splits)
    have v: "kblk ?st (payload ?s) = kblk st (payload ?s)" "kblk ?st der = Some c"
      using ne fin live [of "payload ?s"] live [of "cert ?s"] der by (auto simp: k set_owned)
    then have "ring_serials ?t ?st = ring_serials ?s st"
      by (intro ring_serials_cong) simp_all
    then show "slot_ok ?st ?t"
      using ok u v by (simp add: slot_ok_def) (simp add: slot_attach_cert_def)
    show "serial (g_keys st ! j) \<noteq> serial ?t"
      if "used ?t" "j < KEYRING_MAX" "j \<noteq> i" "used (g_keys st ! j)" for j
      using that inv i by (auto simp: kr_inv_def)
    show "finite (dom (kblk ?st))" "kblk ?st 0 = None" using fin der by (auto simp: k)
    show "kblk ?st b = kblk st b" if "b \<noteq> 0" "b \<notin> set (owned ?s)" "kblk st b \<noteq> None" for b
      using that der by (auto simp: k set_owned)
  qed (simp_all add: slot_attach_cert_def)
qed

text \<open>Giving a payload to a slot that has none.\<close>

lemma give_payload_inv:
  assumes inv: "kr_inv st" and i: "i < KEYRING_MAX" and u: "used (g_keys st ! i)"
    and p: "p \<noteq> 0" "kblk st p = None" and z: "payload (g_keys st ! i) = 0"
    and n: "n \<le> length bs"
    and kr: "ktype (g_keys st ! i) = KEY_TYPE_KEYRING \<Longrightarrow> 4 dvd n \<and> n \<le> 256 \<and> distinct (dec32s (take n bs))"
  shows "kr_inv (set_slot i (\<lambda>s. s\<lparr>payload := p, payload_len := n\<rparr>) (kr_put p bs st))"
proof -
  let ?s = "g_keys st ! i" and ?t = "(g_keys st ! i)\<lparr>payload := p, payload_len := n\<rparr>"
  let ?st = "set_slot i (\<lambda>s. s\<lparr>payload := p, payload_len := n\<rparr>) (kr_put p bs st)"
  note ok = kr_inv_slot [OF inv i]
  have fin: "finite (dom (kblk st))" "kblk st 0 = None" using inv by (simp_all add: kr_inv_def)
  have live: "cert ?s \<noteq> p" if "cert ?s \<noteq> 0"
    using owned_live [OF inv i, of "cert ?s"] that p by (auto simp: set_owned)
  show ?thesis
  proof (rule kr_inv_update [OF inv i, of _ ?t])
    show "mset (owned ?t) + mset_set (dom (kblk st)) = mset (owned ?s) + mset_set (dom (kblk ?st))"
      using z p fin by (simp add: owned_def domIff)
    show "slot_ok ?st ?t"
      using ok u p n live kr by (auto simp: slot_ok_def ring_serials_def slot_bytes_def)
    show "serial (g_keys st ! j) \<noteq> serial ?t"
      if "used ?t" "j < KEYRING_MAX" "j \<noteq> i" "used (g_keys st ! j)" for j
      using that inv i by (auto simp: kr_inv_def)
  qed (use fin p in auto)
qed

lemma slot_alloc_inv:
  assumes inv: "kr_inv st" and nx: "unat (g_next_serial st) + 1 < 2 ^ 32" "0 < unat (g_next_serial st)"
  shows "kr_inv (fst (slot_alloc st))"
proof (cases "findi (\<lambda>s. \<not> used s) (g_keys st)")
  case None
  then show ?thesis using inv by (simp add: slot_alloc_def)
next
  case (Some i)
  let ?t = "kr_zero\<lparr>used := True, serial := g_next_serial st\<rparr>"
  have i: "i < KEYRING_MAX" "\<not> used (g_keys st ! i)" using findi_SomeD [OF Some] inv by auto
  have nx': "unat (g_next_serial st + 1) = unat (g_next_serial st) + 1"
    using nx by (simp add: unat_word_ariths)
  have e: "fst (slot_alloc st) = set_slot i (\<lambda>_. ?t) st\<lparr>g_next_serial := g_next_serial st + 1\<rparr>"
    by (simp add: slot_alloc_def Some)
  have z: "owned ?t = []" "owned (g_keys st ! i) = []"
    using kr_inv_slot [OF inv i(1)] i(2) by (simp_all add: owned_def kr_zero_def slot_ok_def)
  show ?thesis
  proof (rule kr_inv_update [OF inv i(1), of _ ?t])
    show "slot_ok (fst (slot_alloc st)) ?t"
      using nx nx' by (simp add: e slot_ok_def kr_zero_def KEY_TYPE_KEYRING_def)
    show "serial (g_keys st ! j) \<noteq> serial ?t"
      if "used ?t" "j < KEYRING_MAX" "j \<noteq> i" "used (g_keys st ! j)" for j
      using kr_inv_slot [OF inv that(2)] that(4) by (auto simp: slot_ok_def)
  qed (use inv nx' z in \<open>auto simp: e kr_inv_def\<close>)
qed

text \<open>With room for \<open>k\<close> more serials.\<close>

definition kr_good :: "nat \<Rightarrow> kr_state \<Rightarrow> bool" where
  "kr_good k st \<longleftrightarrow> kr_inv st \<and> 0 < unat (g_next_serial st) \<and> unat (g_next_serial st) + k < 2 ^ 32"

lemma kr_good_inv [simp]: "kr_good k st \<Longrightarrow> kr_inv st"
  by (simp add: kr_good_def)

lemma kr_goodI: "kr_good k st \<Longrightarrow> kr_inv st' \<Longrightarrow> g_next_serial st' = g_next_serial st \<Longrightarrow> kr_good k st'"
  by (simp add: kr_good_def)

definition blank_slot :: "nat \<Rightarrow> kr_state \<Rightarrow> bool" where
  "blank_slot i st \<longleftrightarrow> i < KEYRING_MAX \<and> used (g_keys st ! i) \<and> payload (g_keys st ! i) = 0 \<and>
     payload_len (g_keys st ! i) = 0 \<and> cert (g_keys st ! i) = 0"

lemma slot_alloc_good:
  assumes "kr_good (Suc k) st" and "slot_alloc st = (st', r)"
  shows "kr_good k st' \<and> kblk st' = kblk st \<and> (\<forall>i. r = Some i \<longrightarrow> blank_slot i st')"
proof (cases "findi (\<lambda>s. \<not> used s) (g_keys st)")
  case None
  then show ?thesis using assms by (simp add: slot_alloc_def kr_good_def)
next
  case (Some i)
  have i: "i < KEYRING_MAX" using findi_SomeD [OF Some] assms by auto
  have e: "st' = set_slot i (\<lambda>_. kr_zero\<lparr>used := True, serial := g_next_serial st\<rparr>) st
      \<lparr>g_next_serial := g_next_serial st + 1\<rparr>" "r = Some i"
    using assms(2) by (auto simp: slot_alloc_def Some)
  have "kr_inv st'" using slot_alloc_inv [of st] assms by (simp add: kr_good_def)
  moreover have "unat (g_next_serial st + 1) = unat (g_next_serial st) + 1"
    using assms(1) by (simp add: kr_good_def unat_word_ariths)
  ultimately show ?thesis
    using assms(1) i by (simp add: e kr_good_def blank_slot_def kr_zero_def)
qed

text \<open>Filling in the descriptive fields of a new slot.\<close>

lemma fill_good:
  assumes "kr_good k st" and "blank_slot i st"
    and "g_keys st' = (g_keys st)[i := s]" "kblk st' = kblk st" "g_next_serial st' = g_next_serial st"
    and "used s" "serial s = serial (g_keys st ! i)" "payload s = 0" "payload_len s = 0" "cert s = 0"
      "cert_len s = cert_len (g_keys st ! i)"
  shows "kr_good k st' \<and> blank_slot i st'"
proof -
  have "kr_inv st'"
    using assms by (intro kr_inv_cosmetic [of st i st' s]) (simp_all add: blank_slot_def)
  then show ?thesis using assms kr_goodI [OF assms(1)] by (simp add: blank_slot_def)
qed

lemma fill_slot_good:
  assumes "kr_good k st" and "blank_slot i st"
    and "\<And>s. used (u s) = used s" "\<And>s. serial (u s) = serial s" "\<And>s. payload (u s) = payload s"
      "\<And>s. payload_len (u s) = payload_len s" "\<And>s. cert (u s) = cert s" "\<And>s. cert_len (u s) = cert_len s"
  shows "kr_good k (set_slot i u st) \<and> blank_slot i (set_slot i u st)"
  using assms by (intro fill_good [of k st i _ "u (g_keys st ! i)"]) (simp_all add: blank_slot_def)

lemma clear_payload_views [simp]:
  "g_next_serial (clear_payload i st) = g_next_serial st"
  "g_keys (clear_payload i st) = (g_keys st)[i := (g_keys st ! i)\<lparr>payload := 0, payload_len := 0\<rparr>]"
  "kblk (clear_payload i st) =
     (if payload (g_keys st ! i) = 0 then kblk st else (kblk st)(payload (g_keys st ! i) := None))"
  by (simp_all add: clear_payload_def)

lemma slot_bytes_length: "slot_ok st s \<Longrightarrow> length (slot_bytes s st) = payload_len s"
  by (auto simp: slot_ok_def slot_bytes_def split: option.split)

text \<open>The serials of a ring after a link.\<close>

lemma ring_link_good:
  assumes good: "kr_good k st" and i: "i < KEYRING_MAX" "used (g_keys st ! i)"
    and np: "np \<noteq> 0 \<Longrightarrow> kblk st np = None"
    and r: "ring_link_locked i n np st = (st', rc)"
  defines "L \<equiv> ring_serials (g_keys st ! i) st"
  shows "kr_good k st' \<and>
    (if ktype (g_keys st ! i) \<noteq> KEY_TYPE_KEYRING \<or> n \<in> set L \<or> 64 \<le> length L \<or> np = 0
     then st' = st
     else ring_serials (g_keys st' ! i) st' = L @ [n] \<and>
       g_keys st' = (g_keys st)[i := (g_keys st ! i)\<lparr>payload := np, payload_len := 4 * length L + 4\<rparr>])"
proof -
  let ?s = "g_keys st ! i"
  note inv = kr_good_inv [OF good]
  note ok = kr_inv_slot [OF inv i(1)]
  have len: "length L = payload_len ?s div 4"
    by (simp add: L_def ring_serials_def length_dec32s slot_bytes_length [OF ok])
  show ?thesis
  proof (cases "ktype ?s \<noteq> KEY_TYPE_KEYRING \<or> n \<in> set L \<or> 64 \<le> length L \<or> np = 0")
    case True
    then have "st' = st" using r len by (auto simp: ring_link_locked_def L_def Let_def split: if_splits)
    with True good show ?thesis by simp
  next
    case False
    define bs where "bs = slot_bytes ?s st @ enc32 n"
    have pl: "payload_len ?s = 4 * length L" using ok i(2) False len by (auto simp: slot_ok_def)
    have sb: "length (slot_bytes ?s st) = 4 * length L" using slot_bytes_length [OF ok] pl by simp
    have ne: "payload ?s \<noteq> np" using np False owned_live [OF inv i(1), of np] by (auto simp: set_owned)
    have "4 dvd length (slot_bytes ?s st)" unfolding sb by simp
    from dec32s_append [OF this] have dec: "dec32s bs = L @ [n]"
      unfolding bs_def L_def ring_serials_def by simp
    let ?u = "\<lambda>s. s\<lparr>payload := np, payload_len := 4 * length L + 4\<rparr>"
    have "take (payload_len ?s div 4 * 4) (slot_bytes ?s st) = slot_bytes ?s st"
      "(payload_len ?s div 4 + 1) * 4 = 4 * length L + 4"
      using sb pl by simp_all
    then have "st' = set_slot i ?u (kr_free (payload ?s) (kr_put np bs st))"
      using r False len unfolding ring_link_locked_def Let_def L_def [symmetric] bs_def
      by (auto simp: mult.commute add.commute)
    also have "\<dots> = set_slot i ?u (kr_put np bs (clear_payload i st))"
      using ne i(1) inv
      by (simp add: set_slot_def kr_put_def kr_free_def clear_payload_def fun_upd_twist)
    finally have e: "st' = set_slot i ?u (kr_put np bs (clear_payload i st))" .
    have "kr_inv st'" unfolding e
    proof (rule give_payload_inv [OF clear_payload_inv [OF inv i(1)] i(1)])
      show "4 dvd 4 * length L + 4 \<and> 4 * length L + 4 \<le> 256 \<and> distinct (dec32s (take (4 * length L + 4) bs))"
        using False sb dec ok i(2) by (auto simp: bs_def slot_ok_def L_def)
    qed (use False i inv np sb in \<open>auto simp: bs_def\<close>)
    moreover have "ring_serials (g_keys st' ! i) st' = L @ [n]"
      using i(1) inv sb dec by (simp add: e ring_serials_def slot_bytes_def bs_def)
    moreover have "g_keys st' = (g_keys st)[i := ?u ?s]" using i(1) inv by (simp add: e)
    moreover have "g_next_serial st' = g_next_serial st" by (simp add: e)
    ultimately show ?thesis using False kr_goodI [OF good, of st'] by simp
  qed
qed

lemma keyctl_unlink_good:
  assumes good: "kr_good k st" and j: "slot_by_serial r st = Some i" "ktype (g_keys st ! i) = KEY_TYPE_KEYRING"
    and u: "keyctl_unlink n r st = (st', rc)"
  defines "L \<equiv> ring_serials (g_keys st ! i) st"
  shows "kr_good k st' \<and> rc = 0 \<and> ring_serials (g_keys st' ! i) st' = filter (\<lambda>w. w \<noteq> n) L \<and>
    (\<exists>m. g_keys st' = (g_keys st)[i := (g_keys st ! i)\<lparr>payload_len := m\<rparr>])"
proof -
  let ?s = "g_keys st ! i" and ?ws = "filter (\<lambda>w. w \<noteq> n) L"
  let ?t = "?s\<lparr>payload_len := length ?ws * 4\<rparr>"
  note inv = kr_good_inv [OF good]
  have i: "i < KEYRING_MAX" "used ?s" using findi_SomeD [OF j(1) [unfolded slot_by_serial_def]] inv by auto
  note ok = kr_inv_slot [OF inv i(1)]
  have len: "payload_len ?s = 4 * length L" using ok i(2) j(2)
    by (auto simp: slot_ok_def L_def ring_serials_def length_dec32s slot_bytes_length [OF ok])
  have wl: "length ?ws \<le> length L" by (rule length_filter_le)
  show ?thesis
  proof (cases "L = []")
    case True
    then have e: "st' = set_slot i (\<lambda>s. s\<lparr>payload_len := 0\<rparr>) st" "rc = 0"
      using u j len by (auto simp: keyctl_unlink_def L_def [symmetric] Let_def)
    then have "kr_inv st'" using True len
      by (intro kr_inv_cosmetic [OF inv i(1), of _ "?s\<lparr>payload_len := 0\<rparr>"]) simp_all
    then have "kr_good k st'" using kr_goodI [OF good] e by simp
    then show ?thesis using e i(1) inv True by (auto simp: ring_serials_empty)
  next
    case False
    then obtain bs where bs: "kblk st (payload ?s) = Some bs" "payload_len ?s \<le> length bs" "payload ?s \<noteq> 0"
      using ok len by (cases "payload ?s = 0") (auto simp: slot_ok_def)
    define nb where "nb = enc32s ?ws @ drop (4 * length ?ws) bs"
    have e: "st' = set_slot i (\<lambda>s. s\<lparr>payload_len := length ?ws * 4\<rparr>) (kr_put (payload ?s) nb st)" "rc = 0"
      using u j len False bs by (auto simp: keyctl_unlink_def L_def [symmetric] Let_def nb_def)
    have rs: "ring_serials ?t st' = ?ws" using bs by (simp add: e ring_serials_def slot_bytes_def nb_def mult.commute)
    have ne: "payload ?s \<noteq> cert ?s" using kr_inv_ne [OF inv i(1)] bs by simp
    have "kr_inv st'"
    proof (rule kr_inv_update [OF inv i(1), of _ ?t])
      show "g_keys st' = (g_keys st)[i := ?t]" by (simp add: e)
      show "mset (owned ?t) + mset_set (dom (kblk st)) = mset (owned ?s) + mset_set (dom (kblk st'))"
        using bs by (simp add: e owned_def insert_absorb domIff)
      have "distinct L" using ok i(2) j(2) by (simp add: slot_ok_def L_def)
      moreover have "payload_len ?s \<le> 256" using ok i(2) j(2) by (simp add: slot_ok_def)
      then have w4: "4 * length ?ws \<le> length bs" "4 * length ?ws \<le> 256"
        using wl len bs(2) by linarith+
      moreover have "length nb = length bs" using w4 by (simp add: nb_def)
      moreover have "kblk st' (payload ?s) = Some nb" "kblk st' (cert ?s) = kblk st (cert ?s)"
        "g_next_serial st' = g_next_serial st"
        using ne by (simp_all add: e)
      ultimately show "slot_ok st' ?t"
        using ok bs(3) rs w4 by (simp add: slot_ok_def mult.commute)
      show "serial (g_keys st ! m) \<noteq> serial ?t"
        if "used ?t" "m < KEYRING_MAX" "m \<noteq> i" "used (g_keys st ! m)" for m
        using that inv i by (auto simp: kr_inv_def)
    qed (use inv bs in \<open>auto simp: e kr_inv_def set_owned\<close>)
    then have "kr_good k st'" using kr_goodI [OF good] e by simp
    then show ?thesis using e i(1) inv rs by auto
  qed
qed

section \<open>The operations keep the invariant\<close>

definition fresh_blk :: "addr \<Rightarrow> kr_state \<Rightarrow> bool" where \<comment> \<open>what \<open>kmalloc\<close> may return\<close>
  "fresh_blk p st \<longleftrightarrow> p = 0 \<or> kblk st p = None"

lemma fresh_blkD: "fresh_blk p st \<Longrightarrow> p \<noteq> 0 \<Longrightarrow> kblk st p = None"
  by (simp add: fresh_blk_def)

lemma slot_by_serial_Some:
  assumes "kr_inv st" and "slot_by_serial n st = Some i"
  shows "i < KEYRING_MAX" "used (g_keys st ! i)" "serial (g_keys st ! i) = n"
  using findi_SomeD [OF assms(2) [unfolded slot_by_serial_def]] assms(1) by auto

lemma slot_by_serial_eq:
  assumes "kr_inv st"
  shows "slot_by_serial n st = Some i \<longleftrightarrow> i < KEYRING_MAX \<and> used (g_keys st ! i) \<and> serial (g_keys st ! i) = n"
proof
  assume "slot_by_serial n st = Some i"
  then show "i < KEYRING_MAX \<and> used (g_keys st ! i) \<and> serial (g_keys st ! i) = n"
    using slot_by_serial_Some [OF assms] by blast
next
  assume i: "i < KEYRING_MAX \<and> used (g_keys st ! i) \<and> serial (g_keys st ! i) = n"
  moreover from this have "g_keys st ! i \<in> set (g_keys st)" using assms by simp
  ultimately have "slot_by_serial n st \<noteq> None"
    unfolding slot_by_serial_def findi_None by blast
  then obtain j where j: "slot_by_serial n st = Some j" by blast
  then have "j = i" using slot_by_serial_Some [OF assms j] i assms by (auto simp: kr_inv_def)
  with j show "slot_by_serial n st = Some i" by simp
qed

lemma link_opt_good:
  assumes "kr_good k st" and "slot_by_serial r st = Some i" and "fresh_blk np st"
  shows "kr_good k (fst (ring_link_locked i n np st))"
proof -
  obtain st' rc where r: "ring_link_locked i n np st = (st', rc)" by fastforce
  note i = slot_by_serial_Some [OF kr_good_inv [OF assms(1)] assms(2)]
  show ?thesis
    using ring_link_good [OF assms(1) i(1,2) fresh_blkD [OF assms(3)] r] r by simp
qed

lemma alloc_named_good:
  assumes "kr_good (Suc k) st" and "alloc_named_keyring name st = (st', r)"
  shows "kr_good k st' \<and> kblk st' = kblk st \<and> (\<forall>i. r = Some i \<longrightarrow> blank_slot i st')"
proof -
  obtain st1 r1 where a: "slot_alloc st = (st1, r1)" by fastforce
  note A = slot_alloc_good [OF assms(1) a]
  show ?thesis
  proof (cases r1)
    case None
    then show ?thesis using assms(2) a A by (simp add: alloc_named_keyring_def)
  next
    case (Some i)
    let ?u = "\<lambda>s. s\<lparr>ktype := KEY_TYPE_KEYRING, description := take (KEY_DESC_MAX - 1) name,
      subject := take (KEY_SUBJ_MAX - 1) name, kuid := 0, kgid := 0, perms := 0x3f3f0000\<rparr>"
    have e: "st' = set_slot i ?u st1" "r = Some i"
      using assms(2) a Some by (simp_all add: alloc_named_keyring_def)
    have b: "blank_slot i st1" using A Some by simp
    have "kr_good k st' \<and> blank_slot i st'"
      unfolding e using A b by (intro fill_slot_good) simp_all
    then show ?thesis using A e by simp
  qed
qed

lemma kr_good_sub: "kr_good (k + j) st \<Longrightarrow> kr_good k st"
  by (simp add: kr_good_def)

lemma kr_good_same:
  assumes "kr_good k st" "g_keys st' = g_keys st" "kblk st' = kblk st" "g_next_serial st' = g_next_serial st"
  shows "kr_good k st'"
  using kr_goodI [OF assms(1) kr_inv_same [OF kr_good_inv [OF assms(1)] assms(2-4)] assms(4)] .

lemma kr_scalars [simp]:
  "g_keys (st\<lparr>g_session_serial := a\<rparr>) = g_keys st" "kblk (st\<lparr>g_session_serial := a\<rparr>) = kblk st"
  by simp_all

lemma keyring_init_good:
  assumes "kr_good (k + 3) st" and "fresh_blk np st"
  shows "kr_good k (fst (keyring_init np st)) \<and>
    (\<forall>b. b \<noteq> 0 \<longrightarrow> b \<noteq> np \<longrightarrow> kblk st b = None \<longrightarrow> kblk (fst (keyring_init np st)) b = None)"
proof (cases "g_kr_inited st")
  case True
  then show ?thesis using kr_good_sub [OF assms(1)] by (simp add: keyring_init_def)
next
  case False
  obtain st1 o1 where a1: "alloc_named_keyring (bytes_of_string ''session'') st = (st1, o1)" by fastforce
  obtain st2 o2 where a2: "alloc_named_keyring (bytes_of_string ''.builtin_trusted_keys'') st1 = (st2, o2)" by fastforce
  obtain st3 o3 where a3: "alloc_named_keyring (bytes_of_string ''.secondary_trusted_keys'') st2 = (st3, o3)" by fastforce
  have g1: "kr_good (Suc (Suc k)) st1" "kblk st1 = kblk st"
    using alloc_named_good [OF _ a1, of "Suc (Suc k)"] assms(1) by (simp_all add: numeral_eq_Suc)
  have g2: "kr_good (Suc k) st2" "kblk st2 = kblk st" using alloc_named_good [OF g1(1) a2] g1(2) by simp_all
  have g3: "kr_good k st3" "kblk st3 = kblk st" "\<And>i. o3 = Some i \<Longrightarrow> blank_slot i st3"
    using alloc_named_good [OF g2(1) a3] g2(2) by simp_all
  define st4 where "st4 = st3\<lparr>g_session_serial := serial_of o1 st3 (g_session_serial st3),
    g_builtin_serial := serial_of o2 st3 (g_builtin_serial st3),
    g_secondary_serial := serial_of o3 st3 (g_secondary_serial st3)\<rparr>"
  have g4: "kr_good k st4" "kblk st4 = kblk st" "g_keys st4 = g_keys st3"
    using g3 by (auto simp: st4_def intro: kr_good_same [OF g3(1)])
  define st5 where "st5 = (case (o2, o3) of
      (Some b, Some c) \<Rightarrow> fst (ring_link_locked c (serial (g_keys st4 ! b)) np st4) | _ \<Rightarrow> st4)"
  have link: "kr_good k (fst (ring_link_locked c n np st4)) \<and>
      (\<forall>b. b \<noteq> 0 \<longrightarrow> b \<noteq> np \<longrightarrow> kblk st4 b = None \<longrightarrow> kblk (fst (ring_link_locked c n np st4)) b = None)"
    if "o3 = Some c" for c n
  proof -
    obtain s' rc where r: "ring_link_locked c n np st4 = (s', rc)" by fastforce
    have c: "c < KEYRING_MAX" "used (g_keys st4 ! c)" using g3(3) [OF that] g4(3) by (simp_all add: blank_slot_def)
    have "kblk s' b = None" if "b \<noteq> np" "kblk st4 b = None" for b
      using r that by (auto simp: ring_link_locked_def Let_def split: if_splits)
    moreover have "kblk st4 np = None" if "np \<noteq> 0" using assms(2) g4(2) that by (simp add: fresh_blk_def)
    ultimately show ?thesis
      using ring_link_good [OF g4(1) c _ r] r by simp
  qed
  have g5: "kr_good k st5 \<and> (\<forall>b. b \<noteq> 0 \<longrightarrow> b \<noteq> np \<longrightarrow> kblk st b = None \<longrightarrow> kblk st5 b = None)"
    using g4 link by (auto simp: st5_def split: option.splits)
  have "fst (keyring_init np st) = st5\<lparr>g_kr_inited := True\<rparr>"
    using False a1 a2 a3 unfolding st5_def st4_def keyring_init_def Let_def
    by (simp split: option.split)
  then show ?thesis using g5 by (auto intro: kr_good_same [of k st5])
qed

lemma clear_cert_views [simp]:
  "g_next_serial (clear_cert i st) = g_next_serial st"
  "g_keys (clear_cert i st) = (g_keys st)[i := (g_keys st ! i)\<lparr>cert := 0, cert_len := 0, generated := False\<rparr>]"
  "kblk (clear_cert i st) =
     (if cert (g_keys st ! i) = 0 then kblk st else (kblk st)(cert (g_keys st ! i) := None))"
  by (simp_all add: clear_cert_def)

lemma clear_good:
  assumes "kr_good k st" "i < KEYRING_MAX"
  shows "kr_good k (clear_payload i st)" "kr_good k (clear_cert i st)"
  using kr_goodI [OF assms(1)] clear_payload_inv [OF kr_good_inv [OF assms(1)] assms(2)]
    clear_cert_inv [OF kr_good_inv [OF assms(1)] assms(2)] by simp_all

text \<open>A slot without blocks may be wiped.\<close>

lemma wipe_good:
  assumes good: "kr_good k st" and i: "i < KEYRING_MAX"
    and z: "payload (g_keys st ! i) = 0" "cert (g_keys st ! i) = 0"
  shows "kr_good k (set_slot i (\<lambda>_. kr_zero) st)"
proof -
  have "kr_inv (set_slot i (\<lambda>_. kr_zero) st)"
  proof (rule kr_inv_update [OF kr_good_inv [OF good] i, of _ kr_zero])
    show "slot_ok (set_slot i (\<lambda>_. kr_zero) st) kr_zero" by (simp add: slot_ok_def kr_zero_def)
    show "mset (owned kr_zero) + mset_set (dom (kblk st)) =
        mset (owned (g_keys st ! i)) + mset_set (dom (kblk (set_slot i (\<lambda>_. kr_zero) st)))"
      using z by (simp add: owned_def kr_zero_def)
  qed (use kr_good_inv [OF good] in \<open>auto simp: kr_inv_def kr_zero_def\<close>)
  then show ?thesis using kr_goodI [OF good] by simp
qed

lemma revoke_good: "kr_good k st \<Longrightarrow> kr_good k (fst (keyctl_revoke n st))"
proof (cases "slot_by_serial n st")
  case (Some i)
  assume good: "kr_good k st"
  have i: "i < KEYRING_MAX" by (rule slot_by_serial_Some [OF kr_good_inv [OF good] Some])
  note g = clear_good(2) [OF clear_good(1) [OF good i] i]
  show ?thesis
    using wipe_good [OF g i] i kr_good_inv [OF good] by (simp add: keyctl_revoke_def Some)
qed (simp add: keyctl_revoke_def)

lemma clear_cmd_good: "kr_good k st \<Longrightarrow> kr_good k (fst (keyctl_clear n st))"
  by (auto simp: keyctl_clear_def split: option.split
      intro!: clear_good(1) dest: slot_by_serial_Some(1) [OF kr_good_inv])

lemma setperm_good:
  assumes "kr_good k st"
  shows "kr_good k (fst (keyctl_setperm n pm c st))"
proof (cases "slot_by_serial n st")
  case (Some i)
  have i: "i < KEYRING_MAX" by (rule slot_by_serial_Some [OF kr_good_inv [OF assms] Some])
  have "kr_inv (set_slot i (\<lambda>s. s\<lparr>perms := pm\<rparr>) st)"
    by (rule kr_inv_cosmetic [OF kr_good_inv [OF assms] i, of _ "(g_keys st ! i)\<lparr>perms := pm\<rparr>"]) simp_all
  then show ?thesis
    using assms kr_goodI [OF assms, of "set_slot i (\<lambda>s. s\<lparr>perms := pm\<rparr>) st"]
    by (simp add: keyctl_setperm_def Some)
qed (use assms in \<open>simp add: keyctl_setperm_def\<close>)

lemma link_good:
  assumes "kr_good k st" "fresh_blk np st"
  shows "kr_good k (fst (keyctl_link n r np st))"
  using assms link_opt_good [OF assms(1) _ assms(2)]
  by (auto simp: keyctl_link_def split: option.split)

lemma unlink_good:
  assumes "kr_good k st"
  shows "kr_good k (fst (keyctl_unlink n r st))"
proof (cases "slot_by_serial r st")
  case (Some i)
  obtain st' rc where u: "keyctl_unlink n r st = (st', rc)" by fastforce
  show ?thesis
  proof (cases "ktype (g_keys st ! i) = KEY_TYPE_KEYRING")
    case True
    then show ?thesis using keyctl_unlink_good [OF assms Some True u] u by simp
  next
    case False
    then show ?thesis using assms Some by (simp add: keyctl_unlink_def)
  qed
qed (use assms in \<open>simp add: keyctl_unlink_def\<close>)

lemma attach_good:
  assumes "kr_good k st" "fresh_blk der st"
  shows "kr_good k (fst (make_and_attach mk (\<lambda>x. x) der keep subj n st))"
proof (cases "der = 0 \<or> mk subj = None")
  case True
  then show ?thesis using assms by (auto simp: make_and_attach_def split: option.split)
next
  case False
  then obtain c where c: "mk subj = Some c" "der \<noteq> 0" by auto
  note inv = kr_good_inv [OF assms(1)]
  have f: "kblk st der = None" using assms(2) c by (simp add: fresh_blk_def)
  have undone: "kr_good k (kr_free der (kr_put der c st))"
    by (rule kr_good_same [OF assms(1)]) (use c f in auto)
  have s: "slot_by_serial n (kr_put der c st) = slot_by_serial n st" by (simp add: slot_by_serial_def)
  have "kr_good k (slot_attach_cert i der (length c) (kr_put der c st))" if "slot_by_serial n st = Some i" for i
    using slot_attach_cert_inv [OF inv slot_by_serial_Some(1,2) [OF inv that] c(2) f]
    by (intro kr_goodI [OF assms(1)]) (simp_all add: slot_attach_cert_def)
  with undone s c show ?thesis
    by (auto simp: make_and_attach_def Let_def split: option.split)
qed

text \<open>A user key's new payload.\<close>

lemma give_good:
  assumes "kr_good k st" "i < KEYRING_MAX" "used (g_keys st ! i)" "payload (g_keys st ! i) = 0"
    "ktype (g_keys st ! i) \<noteq> KEY_TYPE_KEYRING" "p \<noteq> 0" "fresh_blk p st"
  shows "kr_good k (set_slot i (\<lambda>s. s\<lparr>payload := p, payload_len := length bs\<rparr>) (kr_put p bs st))"
  using assms give_payload_inv [OF kr_good_inv [OF assms(1)] assms(2,3,6) _ assms(4), of "length bs" bs]
  by (intro kr_goodI [OF assms(1)]) (simp_all add: fresh_blk_def)

lemma forget_good:
  assumes "kr_good k st" "i < KEYRING_MAX"
  shows "kr_good k (forget_cert i data st)"
proof -
  have "kr_inv (set_slot i (\<lambda>s. s\<lparr>subject := subject_of data\<rparr>) st)"
    by (rule kr_inv_cosmetic [OF kr_good_inv [OF assms(1)] assms(2), of _ "(g_keys st ! i)\<lparr>subject := subject_of data\<rparr>"])
      simp_all
  then have "kr_good k (set_slot i (\<lambda>s. s\<lparr>subject := subject_of data\<rparr>) st)" by (rule kr_goodI [OF assms(1)]) simp
  then show ?thesis using clear_good(2) assms by (simp add: forget_cert_def)
qed

lemma fresh_clear:
  "fresh_blk a st \<Longrightarrow> fresh_blk a (clear_payload i st)" "fresh_blk a st \<Longrightarrow> fresh_blk a (forget_cert i data st)"
  by (auto simp: fresh_blk_def forget_cert_def)

lemma update_good:
  assumes good: "kr_good k st" and a: "fresh_blk a st"
  shows "kr_good k (fst (keyctl_update mk (\<lambda>x. x) n data a st))"
proof (cases "slot_by_serial n st")
  case None
  then show ?thesis using good by (simp add: keyctl_update_def)
next
  case (Some i)
  note inv = kr_good_inv [OF good]
  have i: "i < KEYRING_MAX" "used (g_keys st ! i)" using slot_by_serial_Some [OF inv Some] by auto
  consider "ktype (g_keys st ! i) = KEY_TYPE_ASYMMETRIC"
    | "ktype (g_keys st ! i) = KEY_TYPE_USER" "ktype (g_keys st ! i) \<noteq> KEY_TYPE_ASYMMETRIC"
    | "ktype (g_keys st ! i) \<noteq> KEY_TYPE_ASYMMETRIC" "ktype (g_keys st ! i) \<noteq> KEY_TYPE_USER" by blast
  then show ?thesis
  proof cases
    case 1
    let ?st = "forget_cert i data st"
    have "kr_good k (fst (make_and_attach mk (\<lambda>x. x) a False (subject (g_keys ?st ! i)) n ?st))"
      by (rule attach_good [OF forget_good [OF good i(1)] fresh_clear(2) [OF a]])
    then show ?thesis using 1 Some
      by (auto simp: keyctl_update_def Let_def split: prod.splits sum.splits)
  next
    case 2
    have g: "kr_good k (clear_payload i st)" by (rule clear_good(1) [OF good i(1)])
    then show ?thesis
      using give_good [OF g i(1) _ _ _ _ fresh_clear(1) [OF a], of data] 2 Some i inv
      by (simp add: keyctl_update_def Let_def KEY_TYPE_USER_def KEY_TYPE_KEYRING_def)
  next
    case 3
    then show ?thesis using good Some by (simp add: keyctl_update_def)
  qed
qed

lemma read_good:
  assumes "kr_good k st" "fresh_blk a st"
  shows "kr_good k (fst (keyctl_read mk (\<lambda>x. x) n buflen a st))"
proof (cases "slot_by_serial n st")
  case (Some i)
  then show ?thesis
    using assms attach_good [OF assms, of mk True "subject (g_keys st ! i)" n]
    by (auto simp: keyctl_read_def Let_def split: prod.splits sum.splits)
qed (use assms in \<open>simp add: keyctl_read_def\<close>)

lemma join_good:
  assumes "kr_good (Suc k) st"
  shows "kr_good k (fst (keyctl_join_session st))"
proof -
  define st1 where "st1 = (case slot_by_serial (g_session_serial st) st of None \<Rightarrow> st | Some i \<Rightarrow> clear_payload i st)"
  have g1: "kr_good (Suc k) st1"
    using assms clear_good(1) slot_by_serial_Some(1) [OF kr_good_inv [OF assms]]
    by (auto simp: st1_def split: option.split)
  obtain st2 r where a: "slot_alloc st1 = (st2, r)" by fastforce
  note A = slot_alloc_good [OF g1 a]
  show ?thesis
  proof (cases r)
    case None
    then show ?thesis using A a by (simp add: keyctl_join_session_def st1_def [symmetric])
  next
    case (Some i)
    let ?s = "(g_keys st2 ! i)\<lparr>ktype := KEY_TYPE_KEYRING, description := bytes_of_string ''session'',
      subject := bytes_of_string ''session''\<rparr>"
    have b: "blank_slot i st2" using A Some by simp
    have "kr_good k (fst (keyctl_join_session st)) \<and> blank_slot i (fst (keyctl_join_session st))"
      using A b Some a
      by (intro fill_good [of k st2 i _ ?s])
        (simp_all add: keyctl_join_session_def st1_def [symmetric] Let_def blank_slot_def)
    then show ?thesis by simp
  qed
qed

definition fresh_pair :: "addr \<times> addr \<Rightarrow> kr_state \<Rightarrow> bool" where
  "fresh_pair al st \<longleftrightarrow> fresh_blk (fst al) st \<and> fresh_blk (snd al) st \<and> (fst al = snd al \<longrightarrow> fst al = 0)"

lemma add_key_fill_good:
  assumes good: "kr_good k st" and b: "blank_slot i st" and t: "ktype (g_keys st ! i) = type"
    and al: "fresh_pair (p, np) st"
  shows "kr_good k (add_key_fill type data p i st) \<and> fresh_blk np (add_key_fill type data p i st)"
proof -
  have i: "i < KEYRING_MAX" "used (g_keys st ! i)" using b by (simp_all add: blank_slot_def)
  consider "type = KEY_TYPE_ASYMMETRIC" | "type \<noteq> KEY_TYPE_ASYMMETRIC" "type = KEY_TYPE_USER" "data \<noteq> [] \<and> p \<noteq> 0"
    | "type \<noteq> KEY_TYPE_ASYMMETRIC" "\<not> (type = KEY_TYPE_USER \<and> data \<noteq> [] \<and> p \<noteq> 0)" by blast
  then show ?thesis
  proof cases
    case 1
    define s where "s = (let s = g_keys st ! i; s = (if data \<noteq> [] then
        (let s = s\<lparr>subject := subject_of data\<rparr>
         in if description s = [] then s\<lparr>description := take (KEY_DESC_MAX - 1) (subject s)\<rparr> else s)
        else s) in s\<lparr>cert := 0, cert_len := 0, generated := False\<rparr>)"
    have "g_keys (add_key_fill type data p i st) = (g_keys st)[i := s]"
      "kblk (add_key_fill type data p i st) = kblk st"
      "g_next_serial (add_key_fill type data p i st) = g_next_serial st"
      using 1 by (simp_all add: add_key_fill_def s_def Let_def)
    moreover have "mset (owned s) = mset (owned (g_keys st ! i))" "used s" "serial s = serial (g_keys st ! i)"
      "payload s = 0" "payload_len s = 0" "cert s = 0"
      using b by (simp_all add: s_def blank_slot_def owned_def Let_def)
    moreover from this have "slot_ok (add_key_fill type data p i st) s"
      using kr_inv_slot [OF kr_good_inv [OF good] i(1)] i(2) calculation
      by (simp add: slot_ok_def ring_serials_empty)
    ultimately have "kr_inv (add_key_fill type data p i st)"
      using kr_good_inv [OF good] i
      by (intro kr_inv_update [OF kr_good_inv [OF good] i(1), of _ s]) (auto simp: kr_inv_def)
    then show ?thesis
      using kr_goodI [OF good] al 1 by (simp add: add_key_fill_def fresh_pair_def fresh_blk_def)
  next
    case 2
    have "kr_good k (set_slot i (\<lambda>s. s\<lparr>payload := p, payload_len := length data\<rparr>) (kr_put p data st))"
      using b al t 2 by (intro give_good [OF good i])
        (auto simp: blank_slot_def fresh_pair_def KEY_TYPE_USER_def KEY_TYPE_KEYRING_def)
    moreover have "add_key_fill type data p i st =
        set_slot i (\<lambda>s. s\<lparr>payload := p, payload_len := length data\<rparr>) (kr_put p data st)"
      using 2 by (simp add: add_key_fill_def)
    ultimately show ?thesis using al by (auto simp: fresh_pair_def fresh_blk_def)
  next
    case 3
    then have "add_key_fill type data p i st = st" by (auto simp: add_key_fill_def)
    then show ?thesis using good al by (simp add: fresh_pair_def)
  qed
qed

lemma kr_good_Suc: "kr_good (Suc k) st \<Longrightarrow> kr_good k st"
  by (simp add: kr_good_def)

lemma add_key_good:
  assumes good: "kr_good (Suc k) st" and al: "fresh_pair al st"
  shows "kr_good k (fst (keyring_add_key type desc data ring_id al st))"
proof (cases "(type \<noteq> KEY_TYPE_KEYRING \<and> type \<noteq> KEY_TYPE_ASYMMETRIC \<and> type \<noteq> KEY_TYPE_USER) \<or>
    desc = None \<or> desc = Some [] \<or> ring_resolve ring_id st < 0")
  case True
  then show ?thesis
    using kr_good_Suc [OF good] by (auto simp: keyring_add_key_def Let_def split: option.split prod.splits)
next
  case False
  then obtain d where d: "desc = Some d" "d \<noteq> []" by auto
  obtain p np where pn: "al = (p, np)" by fastforce
  obtain st1 r where a: "slot_alloc st = (st1, r)" by fastforce
  note A = slot_alloc_good [OF good a]
  show ?thesis
  proof (cases r)
    case None
    then show ?thesis using A a False d pn by (auto simp: keyring_add_key_def Let_def)
  next
    case (Some i)
    define st2 where "st2 = set_slot i (\<lambda>s. s\<lparr>ktype := type, description := take (KEY_DESC_MAX - 1) d,
      subject := take (KEY_SUBJ_MAX - 1) d, kuid := 0, kgid := 0, perms := 0x3f3f0000\<rparr>) st1"
    define st3 where "st3 = add_key_fill type data p i st2"
    define st4 where "st4 = (case slot_by_serial (word_of_int (ring_resolve ring_id st)) st3 of None \<Rightarrow> st3
        | Some r \<Rightarrow> fst (ring_link_locked r (serial (g_keys st3 ! i)) np st3))"
    have b: "blank_slot i st1" using A Some by simp
    have 2: "kr_good k st2 \<and> blank_slot i st2"
      unfolding st2_def using A b by (intro fill_slot_good) simp_all
    have t: "ktype (g_keys st2 ! i) = type"
      using b length_keys [OF kr_good_inv [OF conjunct1 [OF A]]] by (simp add: st2_def blank_slot_def)
    have f: "fresh_pair (p, np) st2" using al A pn by (simp add: st2_def fresh_pair_def fresh_blk_def)
    note 3 = add_key_fill_good [OF conjunct1 [OF 2] conjunct2 [OF 2] t f, of data, folded st3_def]
    have "kr_good k st4"
      using 3 link_opt_good [of k st3] by (auto simp: st4_def split: option.split)
    moreover have "fst (keyring_add_key type desc data ring_id al st) = st4"
      using False d pn a Some unfolding st4_def st3_def st2_def keyring_add_key_def Let_def by auto
    ultimately show ?thesis by simp
  qed
qed

lemma request_key_good:
  assumes "kr_good (Suc k) st" and "fresh_pair al st"
  shows "kr_good k (fst (keyring_request_key type desc ring_id al st))"
  using add_key_good [OF assms] kr_good_Suc [OF assms(1)]
  by (simp add: keyring_request_key_def Let_def split: option.split)

lemma install_ca_good:
  assumes good: "kr_good (k + 4) st" and np0: "fresh_blk np0 st" and al: "fresh_pair (copy, np) st"
    and ne: "np0 = copy \<longrightarrow> np0 = 0" "np0 = np \<longrightarrow> np0 = 0"
  shows "kr_good k (fst (keyring_install_system_ca pem (np0, copy, np) st))"
proof -
  obtain st1 rc where in1: "keyring_init np0 st = (st1, rc)" by fastforce
  have I: "kr_good (Suc k) st1" "fresh_pair (copy, np) st1"
    using keyring_init_good [OF _ np0, of "Suc k"] good in1 al ne
    by (auto simp: fresh_pair_def fresh_blk_def numeral_eq_Suc)
  show ?thesis
  proof (cases "rc \<noteq> 0 \<or> pem = [] \<or> copy = 0 \<or> g_system_certs_loaded st1")
    case True
    have "kr_good k (kr_free copy (kr_put copy pem st1))" if "copy \<noteq> 0"
      by (rule kr_good_same [OF kr_good_Suc [OF I(1)]])
        (use that I(2) in \<open>auto simp: fresh_pair_def fresh_blk_def\<close>)
    with True kr_good_Suc [OF I(1)] in1 show ?thesis
      by (auto simp: keyring_install_system_ca_def Let_def kr_put_def)
  next
    case False
    obtain st2 r where a: "slot_alloc st1 = (st2, r)" by fastforce
    note A = slot_alloc_good [OF I(1) a]
    have ap: "slot_alloc (kr_put copy pem st1) = (kr_put copy pem st2, r)"
      using a by (auto simp: slot_alloc_def kr_put_def set_slot_def split: option.splits)
    show ?thesis
    proof (cases r)
      case None
      then have "st2 = st1" using a by (auto simp: slot_alloc_def split: option.splits)
      have "kr_good k (kr_free copy (kr_put copy pem st1))"
        by (rule kr_good_same [OF kr_good_Suc [OF I(1)]])
          (use False I(2) in \<open>auto simp: fresh_pair_def fresh_blk_def\<close>)
      then show ?thesis
        using False in1 ap None \<open>st2 = st1\<close> by (simp add: keyring_install_system_ca_def Let_def kr_put_def)
    next
      case (Some i)
      let ?d = "\<lambda>s. s\<lparr>ktype := KEY_TYPE_USER, description := bytes_of_string ''AxonOS System CA'',
        subject := bytes_of_string ''AxonOS System CA'', kuid := 0, kgid := 0, perms := 0x3f3f0000\<rparr>"
      let ?p = "\<lambda>s. s\<lparr>payload := copy, payload_len := length pem\<rparr>"
      define st3 where "st3 = set_slot i ?d st2"
      define st4 where "st4 = set_slot i ?p (kr_put copy pem st3)"
      define st5 where "st5 = (case slot_by_serial (g_builtin_serial st4) st4 of None \<Rightarrow> st4
        | Some b \<Rightarrow> fst (ring_link_locked b (serial (g_keys st4 ! i)) np st4))"
      have b: "blank_slot i st2" using A Some by simp
      have 3: "kr_good k st3 \<and> blank_slot i st3"
        unfolding st3_def using A b by (intro fill_slot_good) simp_all
      have 4: "kr_good k st4" unfolding st4_def
        using 3 b A I(2) False
        by (intro give_good) (auto simp: blank_slot_def st3_def fresh_pair_def fresh_blk_def
            KEY_TYPE_USER_def KEY_TYPE_KEYRING_def)
      have f: "fresh_blk np st4" using I(2) A False by (auto simp: st4_def st3_def fresh_pair_def fresh_blk_def)
      have 5: "kr_good k st5"
        using 4 link_opt_good [OF 4 _ f] by (auto simp: st5_def split: option.split)
      have e4: "set_slot i (\<lambda>s. s\<lparr>ktype := KEY_TYPE_USER,
            description := bytes_of_string ''AxonOS System CA'',
            subject := bytes_of_string ''AxonOS System CA'', kuid := 0, kgid := 0, perms := 0x3f3f0000,
            payload := copy, payload_len := length pem\<rparr>) (kr_put copy pem st2) = st4"
        using b length_keys [OF kr_good_inv [OF conjunct1 [OF A]]]
        by (simp add: st4_def st3_def set_slot_def kr_put_def blank_slot_def)
      have "fst (keyring_install_system_ca pem (np0, copy, np) st) = st5
          \<lparr>g_system_der := copy, g_system_der_len := length pem, g_system_certs_loaded := True\<rparr>"
        using False in1 ap Some e4
        by (simp add: keyring_install_system_ca_def Let_def st5_def kr_put_def split: option.split)
      then show ?thesis using 5 by (auto intro: kr_good_same [of k st5])
    qed
  qed
qed

section \<open>Reachable states\<close>

text \<open>The operations, with the assumption on \<open>kmalloc\<close> that a block it returns is not live, and
  while fewer than \<open>2 ^ 32\<close> serials have been given out. Updating and reading an asymmetric key let
  the lock go in the middle: \<open>forget\<close> and \<open>attach\<close> are the two halves on their own, so that any
  other operation may come between them.\<close>

inductive kr_step :: "kr_state \<Rightarrow> kr_state \<Rightarrow> bool" where
  init: "unat (g_next_serial st) + 4 < 2 ^ 32 \<Longrightarrow> fresh_blk np st \<Longrightarrow> kr_step st (fst (keyring_init np st))"
| install: "unat (g_next_serial st) + 4 < 2 ^ 32 \<Longrightarrow> fresh_blk np0 st \<Longrightarrow> fresh_pair (copy, np) st \<Longrightarrow>
    (np0 = copy \<longrightarrow> np0 = 0) \<Longrightarrow> (np0 = np \<longrightarrow> np0 = 0) \<Longrightarrow>
    kr_step st (fst (keyring_install_system_ca pem (np0, copy, np) st))"
| add_key: "unat (g_next_serial st) + 4 < 2 ^ 32 \<Longrightarrow> fresh_pair al st \<Longrightarrow>
    kr_step st (fst (keyring_add_key type desc data ring_id al st))"
| request_key: "unat (g_next_serial st) + 4 < 2 ^ 32 \<Longrightarrow> fresh_pair al st \<Longrightarrow>
    kr_step st (fst (keyring_request_key type d ring_id al st))"
| join: "unat (g_next_serial st) + 4 < 2 ^ 32 \<Longrightarrow> kr_step st (fst (keyctl_join_session st))"
| setperm: "kr_step st (fst (keyctl_setperm n pm caller st))"
| update: "fresh_blk a st \<Longrightarrow> kr_step st (fst (keyctl_update mk (\<lambda>x. x) n data a st))"
| revoke: "kr_step st (fst (keyctl_revoke n st))"
| clear: "kr_step st (fst (keyctl_clear n st))"
| link: "fresh_blk np st \<Longrightarrow> kr_step st (fst (keyctl_link n r np st))"
| unlink: "kr_step st (fst (keyctl_unlink n r st))"
| read: "fresh_blk a st \<Longrightarrow> kr_step st (fst (keyctl_read mk (\<lambda>x. x) n buflen a st))"
| forget: "slot_by_serial n st = Some i \<Longrightarrow> kr_step st (forget_cert i data st)"
| attach: "fresh_blk a st \<Longrightarrow> kr_step st (fst (make_and_attach mk (\<lambda>x. x) a keep subj n st))"

inductive kr_reachable :: "kr_state \<Rightarrow> bool" where
  kr_start: "kr_reachable kr_boot"
| kr_next: "kr_reachable st \<Longrightarrow> kr_step st st' \<Longrightarrow> kr_reachable st'"

lemma kr_good_0: "kr_inv st \<Longrightarrow> 0 < unat (g_next_serial st) \<Longrightarrow> kr_good 0 st"
  using unsigned_less [of "g_next_serial st"] by (simp add: kr_good_def)

lemma kr_step_good: "kr_step st st' \<Longrightarrow> kr_good 0 st \<Longrightarrow> kr_good 0 st'"
proof (induction rule: kr_step.induct)
  case (init st np)
  then have "kr_good (0 + 3) st" by (simp add: kr_good_def)
  then show ?case using keyring_init_good init by blast
next
  case (install st np0 copy np pem)
  then have "kr_good (0 + 4) st" by (simp add: kr_good_def)
  then show ?case using install_ca_good install by blast
next
  case (add_key st al type desc data ring_id)
  then have "kr_good (Suc 0) st" by (simp add: kr_good_def)
  then show ?case using add_key_good add_key by blast
next
  case (request_key st al type d ring_id)
  then have "kr_good (Suc 0) st" by (simp add: kr_good_def)
  then show ?case using request_key_good request_key by blast
next
  case (join st)
  then have "kr_good (Suc 0) st" by (simp add: kr_good_def)
  then show ?case using join_good by blast
next
  case (forget n st i data)
  then show ?case using forget_good slot_by_serial_Some(1) [OF kr_good_inv] by blast
qed (simp_all add: setperm_good update_good revoke_good clear_cmd_good link_good unlink_good read_good
    attach_good)

lemma kr_boot_good: "kr_good 0 kr_boot"
proof -
  have "blocks kr_boot = []" by (simp add: blocks_def kr_boot_def kr_zero_def owned_def)
  then show ?thesis
    by (auto simp: kr_good_def kr_inv_def kr_boot_def slot_ok_def kr_zero_def)
qed

lemma kr_reachable_good: "kr_reachable st \<Longrightarrow> kr_good 0 st"
  by (induction rule: kr_reachable.induct) (use kr_boot_good kr_step_good in auto)

end
