(* ===== verification/Keyring_Props.thy ===== *)
theory Keyring_Props
  imports Keyring_Thms
begin

text \<open>
  The properties of the key store: a concrete store that has just been initialised, what linking,
  reading and unlinking do to a keyring, and the certificate pointer that outlives its key.
\<close>

section \<open>The store after initialisation\<close>

lemma boot_keys: "g_keys kr_boot = kr_zero # kr_zero # kr_zero # kr_zero # replicate 60 kr_zero"
  by (simp add: kr_boot_def KEYRING_MAX_def eval_nat_numeral)

lemma boot_views [simp]:
  "g_next_serial kr_boot = 1" "g_kr_inited kr_boot = False" "kblk kr_boot = Map.empty"
  "g_session_serial kr_boot = 0" "g_system_certs_loaded kr_boot = False"
  by (simp_all add: kr_boot_def)

lemma kr_zero_views [simp]:
  "used kr_zero = False" "payload kr_zero = 0" "payload_len kr_zero = 0" "cert kr_zero = 0"
  by (simp_all add: kr_zero_def)

lemma findi_used_zero [simp]: "findi (\<lambda>s. used s \<and> P s) (replicate n kr_zero) = None"
  by (simp add: findi_None)

lemmas kr_eval = keyring_init_def alloc_named_keyring_def slot_alloc_def set_slot_def boot_keys
  serial_of_def ring_link_locked_def ring_serials_def slot_bytes_def kr_put_def kr_free_def
  slot_by_serial_def KEY_TYPE_KEYRING_def KEY_TYPE_USER_def

definition kr_started :: kr_state where
  "kr_started = fst (keyring_init 4096 kr_boot)"

lemma started_reachable: "kr_reachable kr_started"
  unfolding kr_started_def
  by (rule kr_next [OF kr_start init]) (simp_all add: fresh_blk_def)

lemma started_slots:
  "slot_by_serial 1 kr_started = Some 0" "slot_by_serial 3 kr_started = Some 2"
  "ktype (g_keys kr_started ! 2) = KEY_TYPE_KEYRING" "ring_serials (g_keys kr_started ! 2) kr_started = [2]"
  "kblk kr_started = [4096 \<mapsto> enc32 2]"
  by (simp_all add: kr_started_def kr_eval)

lemma installed_ca:
  assumes "pem \<noteq> []" and "0 < np0" "0 < copy" "0 < np" "distinct [np0, copy, np]"
  defines "st \<equiv> fst (keyring_install_system_ca pem (np0, copy, np) kr_boot)"
  shows "slot_by_serial 4 st = Some 3" "payload (g_keys st ! 3) = copy" "kblk st copy = Some pem"
    "g_system_certs_loaded st" "g_system_der st = copy" "g_system_der_len st = length pem"
    "cert (g_keys st ! 3) = 0" "length (g_keys st) = 64"
  using assms(1-5) by (simp_all add: st_def keyring_install_system_ca_def kr_eval)

section \<open>Properties\<close>

text \<open>C26. No key operation leaks, frees twice or uses a freed block: in every reachable state the
  live payload and certificate blocks are exactly those the slots point to, each pointed to
  once, and every block is at least as long as the slot's length field says. Different slots in
  use have different serials.\<close>

theorem keyring_blocks_exact:
  assumes "kr_reachable st"
  shows "distinct (blocks st) \<and> set (blocks st) = dom (kblk st) \<and>
    (\<forall>s \<in> set (g_keys st).
       (payload s \<noteq> 0 \<longrightarrow> (\<exists>bs. kblk st (payload s) = Some bs \<and> payload_len s \<le> length bs)) \<and>
       (cert s \<noteq> 0 \<longrightarrow> (\<exists>bs. kblk st (cert s) = Some bs \<and> cert_len s \<le> length bs))) \<and>
    (\<forall>i < KEYRING_MAX. \<forall>j < KEYRING_MAX. used (g_keys st ! i) \<longrightarrow> used (g_keys st ! j) \<longrightarrow>
       serial (g_keys st ! i) = serial (g_keys st ! j) \<longrightarrow> i = j)"
proof -
  have inv: "kr_inv st" using kr_reachable_good [OF assms] by simp
  then have m: "mset (blocks st) = mset_set (dom (kblk st))" "finite (dom (kblk st))"
    by (simp_all add: kr_inv_def)
  then have "distinct (blocks st)"
    by (simp add: distinct_count_atmost_1 count_mset_set' set_mset_mset [symmetric] del: set_mset_mset)
  moreover have "set (blocks st) = dom (kblk st)"
    using m by (metis finite_set_mset_mset_set set_mset_mset)
  ultimately show ?thesis using inv by (auto simp: kr_inv_def slot_ok_def)
qed

theorem keyring_blocks_exact_witness:
  "distinct (blocks kr_started) \<and> set (blocks kr_started) = dom (kblk kr_started)"
  using keyring_blocks_exact [OF started_reachable] by blast

text \<open>C27. Linking a key into a keyring that has room appends its serial; reading the keyring
  returns the serials in the order of linking, cut to the caller's buffer; unlinking the key gives
  the old list back. No other slot changes.\<close>

theorem keyring_link_read_unlink:
  assumes re: "kr_reachable st" and k: "slot_by_serial key st = Some k" and r: "slot_by_serial ring st = Some r"
    and ty: "ktype (g_keys st ! r) = KEY_TYPE_KEYRING" and np: "np \<noteq> 0" "kblk st np = None"
    and L: "L = ring_serials (g_keys st ! r) st" "key \<notin> set L" "length L < 64"
  defines "st1 \<equiv> fst (keyctl_link key ring np st)"
  defines "st2 \<equiv> fst (keyctl_unlink key ring st1)"
  shows "ring_serials (g_keys st1 ! r) st1 = L @ [key] \<and>
    (\<exists>bs. dec32s bs = L @ [key] \<and>
       snd (keyctl_read mk env ring buflen a st1) = (4 * int (length L + 1), take buflen bs)) \<and>
    ring_serials (g_keys st2 ! r) st2 = L \<and>
    (\<forall>j. j \<noteq> r \<longrightarrow> g_keys st1 ! j = g_keys st ! j \<and> g_keys st2 ! j = g_keys st ! j)"
proof -
  note good = kr_reachable_good [OF re]
  note i = slot_by_serial_Some [OF kr_good_inv [OF good] r]
  have len: "length (g_keys st) = KEYRING_MAX" using length_keys [OF kr_good_inv [OF good]] .
  have rl: "ring_link_locked r key np st = (st1, snd (ring_link_locked r key np st))"
    using k r ty by (simp add: st1_def keyctl_link_def)
  note A = ring_link_good [OF good i(1,2) np(2) rl]
  have k1: "g_keys st1 = (g_keys st)[r := (g_keys st ! r)\<lparr>payload := np, payload_len := 4 * length L + 4\<rparr>]"
    and s1: "ring_serials (g_keys st1 ! r) st1 = L @ [key]" and g1: "kr_good 0 st1"
    using A L np ty by auto
  have r1: "slot_by_serial ring st1 = Some r" "ktype (g_keys st1 ! r) = KEY_TYPE_KEYRING"
    "payload_len (g_keys st1 ! r) = 4 * length L + 4"
    using slot_by_serial_eq [OF kr_good_inv [OF g1]] i ty len by (simp_all add: k1)
  obtain rc2 where u: "keyctl_unlink key ring st1 = (st2, rc2)" by (simp add: st2_def prod_eq_iff)
  note B = keyctl_unlink_good [OF g1 r1(1,2) u]
  have "snd (keyctl_read mk env ring buflen a st1) =
      (4 * int (length L + 1), take buflen (slot_bytes (g_keys st1 ! r) st1))"
    using r1 by (simp add: keyctl_read_def read_slot_def Let_def KEY_TYPE_KEYRING_def KEY_TYPE_ASYMMETRIC_def)
  moreover have "filter (\<lambda>w. w \<noteq> key) (L @ [key]) = L" using L(2) by (induction L) auto
  moreover have "g_keys st1 ! j = g_keys st ! j \<and> g_keys st2 ! j = g_keys st ! j" if "j \<noteq> r" for j
    using that B by (auto simp: k1)
  ultimately show ?thesis using s1 B by (auto simp: ring_serials_def)
qed

theorem keyring_link_read_unlink_witness:
  "ring_serials (g_keys (fst (keyctl_link 1 3 8192 kr_started)) ! 2) (fst (keyctl_link 1 3 8192 kr_started)) = [2, 1]"
  using keyring_link_read_unlink [OF started_reachable started_slots(1,2,3), of 8192 "[2]"] started_slots
  by simp

text \<open>C28. Revoking the key that holds the installed CA certificate frees its payload, but the
  address that \<open>keyring_system_cert_der\<close> hands out is still that of the freed block.\<close>

theorem keyring_stale_system_cert:
  assumes "pem \<noteq> []" and "0 < np0" "0 < copy" "0 < np" "distinct [np0, copy, np]"
  defines "st1 \<equiv> fst (keyring_install_system_ca pem (np0, copy, np) kr_boot)"
  defines "st2 \<equiv> fst (keyctl_revoke 4 st1)"
  shows "keyring_system_cert_der st1 = Some (copy, length pem) \<and> kblk st1 copy = Some pem \<and>
    keyring_system_cert_der st2 = Some (copy, length pem) \<and> kblk st2 copy = None \<and> kr_reachable st2"
proof -
  have "kr_step kr_boot st1" unfolding st1_def
    by (rule install) (use assms in \<open>simp_all add: fresh_blk_def fresh_pair_def\<close>)
  from kr_next [OF kr_start this] have "kr_reachable st1" .
  then have "kr_reachable st2" unfolding st2_def by (rule kr_next [OF _ revoke])
  moreover note I = installed_ca [OF assms(1-5), folded st1_def]
  from I assms(3) have "keyring_system_cert_der st2 = keyring_system_cert_der st1 \<and> kblk st2 copy = None"
    by (simp add: st2_def keyring_system_cert_der_def keyctl_revoke_def clear_payload_def clear_cert_def
        set_slot_def kr_free_def)
  ultimately show ?thesis using I assms by (simp add: keyring_system_cert_der_def)
qed

theorem keyring_stale_system_cert_witness:
  "kblk (fst (keyctl_revoke 4 (fst (keyring_install_system_ca [1, 2] (16, 32, 48) kr_boot)))) 32 = None \<and>
   keyring_system_cert_der (fst (keyctl_revoke 4 (fst (keyring_install_system_ca [1, 2] (16, 32, 48) kr_boot))))
     = Some (32, 2)"
  using keyring_stale_system_cert [of "[1, 2]" 16 32 48] by simp

end
