(* ===== verification/UserVma.thy ===== *)
theory UserVma
  imports LibcString
begin

text \<open>
  The virtual memory areas of user address spaces, \<open>mm/user_vma.c\<close>. There are two stores: the
  global table \<open>g_user_vmas\<close>, keyed by thread, and a table per address space (\<open>mm->vma_storage\<close>).
  Both have \<open>USER_VMA_MAX\<close> entries; the loops below run over the entries of the table they are
  given. A file that an area maps is an address, with its reference count in \<open>file_refs\<close>.

  The threads are the entries of \<open>threads\<close> (\<open>cpu/thread/thread.c\<close>) with the three fields that are
  read here. Every function holds the lock from its first access to its last, so each is one
  step. A call of the page-table code (\<open>core/mm.c\<close>, \<open>mm/user_map.c\<close>) is either listed in the
  result, when the code ignores what it returns, or has its result as an argument.
\<close>

section \<open>State\<close>

definition USER_VMA_MAX :: nat where "USER_VMA_MAX = 4096"
definition USER_VMA_KIND_MMAP :: int where "USER_VMA_KIND_MMAP = 1"
definition USER_VMA_KIND_SHM :: int where "USER_VMA_KIND_SHM = 2"
definition USER_VMA_KIND_MMAP_LAZY :: int where "USER_VMA_KIND_MMAP_LAZY = 3"
definition USER_VMA_KIND_ELF_LOAD :: int where "USER_VMA_KIND_ELF_LOAD = 4"
definition VMA_IDENTITY_LIMIT :: nat where "VMA_IDENTITY_LIMIT = 0x100000000"

record user_vma =
  vused :: bool
  vtid :: nat
  vaddr :: addr
  vlen :: nat
  vprot :: int
  vkind :: int
  vfile :: addr
  vfile_off :: nat

type_synonym vma_table = "user_vma list"
type_synonym file_counts = "addr \<Rightarrow> int"

record vthread =
  t_tid :: nat
  t_ring :: nat
  t_mm :: addr

record vma_state =
  g_user_vmas :: vma_table
  vma_storage :: "addr \<Rightarrow> vma_table option"
  file_refs :: file_counts
  threads :: "vthread option list"

definition vma_zero :: user_vma where
  "vma_zero = \<lparr>vused = False, vtid = 0, vaddr = 0, vlen = 0, vprot = 0, vkind = 0, vfile = 0, vfile_off = 0\<rparr>"

abbreviation vend :: "user_vma \<Rightarrow> addr" where
  "vend v \<equiv> add64 (vaddr v) (vlen v)"

definition vhas :: "user_vma \<Rightarrow> addr \<Rightarrow> bool" where \<comment> \<open>\<open>va >= a && va < e\<close>\<close>
  "vhas v va \<longleftrightarrow> va \<ge> vaddr v \<and> va < vend v"

definition thread_get :: "vthread option list \<Rightarrow> int \<Rightarrow> vthread option" where
  "thread_get ths pid =
     (if pid < 0 \<or> nat pid \<ge> length ths then None
      else case ths ! nat pid of
        None \<Rightarrow> None
      | Some t \<Rightarrow> if t_tid t = nat pid then Some t else None)"

abbreviation owner_of :: "vma_state \<Rightarrow> nat \<Rightarrow> vthread option" where
  "owner_of st tid \<equiv> thread_get (threads st) (s32 (int tid))"

definition fs_file_get :: "addr \<Rightarrow> file_counts \<Rightarrow> file_counts" where
  "fs_file_get f refs = (if f = 0 then refs else refs(f := refs f + 1))"

definition fs_file_free :: "addr \<Rightarrow> file_counts \<Rightarrow> file_counts" where
  "fs_file_free f refs = (if f = 0 then refs else refs(f := refs f - 1))"

section \<open>Entries\<close>

definition user_vma_drop_file_nolock :: "user_vma \<Rightarrow> file_counts \<Rightarrow> user_vma \<times> file_counts" where
  "user_vma_drop_file_nolock v refs =
     (if vfile v = 0 then (v, refs)
      else (v\<lparr>vfile := 0, vfile_off := 0\<rparr>, fs_file_free (vfile v) refs))"

definition user_vma_clear_nolock :: "user_vma \<Rightarrow> file_counts \<Rightarrow> user_vma \<times> file_counts" where
  "user_vma_clear_nolock v refs =
     (if \<not> vused v then (v, refs)
      else (let (v, refs) = user_vma_drop_file_nolock v refs in (v\<lparr>vused := False\<rparr>, refs)))"

text \<open>A loop that clears the used entries satisfying a condition.\<close>

fun clear_loop :: "(user_vma \<Rightarrow> bool) \<Rightarrow> vma_table \<Rightarrow> file_counts \<Rightarrow> vma_table \<times> file_counts" where
  "clear_loop P [] refs = ([], refs)"
| "clear_loop P (v # vs) refs =
     (let (v, refs) = (if vused v \<and> P v then user_vma_clear_nolock v refs else (v, refs));
          (vs, refs) = clear_loop P vs refs
      in (v # vs, refs))"

text \<open>\<open>create\<close> is whether the table may be allocated; \<open>al\<close> whether that allocation succeeds.\<close>

definition user_vma_mm_storage :: "addr \<Rightarrow> bool \<Rightarrow> bool \<Rightarrow> vma_state \<Rightarrow> vma_state" where
  "user_vma_mm_storage mm create al st =
     (if mm \<noteq> 0 \<and> vma_storage st mm = None \<and> create \<and> al
      then st\<lparr>vma_storage := (vma_storage st)(mm \<mapsto> replicate USER_VMA_MAX vma_zero)\<rparr>
      else st)"

abbreviation mm_table :: "vma_state \<Rightarrow> addr \<Rightarrow> vma_table option" where
  "mm_table st mm \<equiv> (if mm = 0 then None else vma_storage st mm)"

definition new_vma :: "nat \<Rightarrow> addr \<Rightarrow> nat \<Rightarrow> int \<Rightarrow> int \<Rightarrow> user_vma" where
  "new_vma tid addr len prot kind =
     \<lparr>vused = True, vtid = tid, vaddr = addr, vlen = len, vprot = prot, vkind = kind, vfile = 0,
      vfile_off = 0\<rparr>"

definition user_vma_add_mm ::
    "addr \<Rightarrow> addr \<Rightarrow> nat \<Rightarrow> int \<Rightarrow> int \<Rightarrow> bool \<Rightarrow> vma_state \<Rightarrow> vma_state \<times> int" where
  "user_vma_add_mm mm addr len prot kind al st =
     (let st = user_vma_mm_storage mm True al st
      in case mm_table st mm of
           None \<Rightarrow> (st, - 1)
         | Some tbl \<Rightarrow>
             (case findi (\<lambda>v. vused v \<and> vaddr v = addr \<and> vlen v = len \<and> vkind v = kind) tbl of
                Some i \<Rightarrow>
                  (st\<lparr>vma_storage := (vma_storage st)(mm \<mapsto> tbl[i := (tbl ! i)\<lparr>vprot := prot\<rparr>])\<rparr>, 0)
              | None \<Rightarrow>
                  (case findi (\<lambda>v. \<not> vused v) tbl of
                     None \<Rightarrow> (st, - 1)
                   | Some i \<Rightarrow>
                       (st\<lparr>vma_storage := (vma_storage st)(mm \<mapsto> tbl[i := new_vma 0 addr len prot kind])\<rparr>,
                        0))))"

definition user_vma_is_shared_page_mm :: "addr \<Rightarrow> addr \<Rightarrow> vma_state \<Rightarrow> bool" where
  "user_vma_is_shared_page_mm mm va st =
     (case mm_table st mm of
        None \<Rightarrow> False
      | Some tbl \<Rightarrow> \<exists>v \<in> set tbl. vused v \<and> vkind v = USER_VMA_KIND_SHM \<and> vhas v va)"

definition get_files :: "vma_table \<Rightarrow> file_counts \<Rightarrow> file_counts" where
  "get_files tbl refs = fold (\<lambda>v refs. if vused v then fs_file_get (vfile v) refs else refs) tbl refs"

definition user_vma_clone_mm :: "addr \<Rightarrow> addr \<Rightarrow> bool \<Rightarrow> vma_state \<Rightarrow> vma_state \<times> int" where
  "user_vma_clone_mm dst src al st =
     (case mm_table st src of
        None \<Rightarrow> (st, 0)
      | Some source \<Rightarrow>
          (let st = user_vma_mm_storage dst True al st
           in if mm_table st dst = None then (st, - 1)
              else (st\<lparr>vma_storage := (vma_storage st)(dst \<mapsto> source),
                       file_refs := get_files source (file_refs st)\<rparr>, 0)))"

definition user_vma_kind_is_mmap_like :: "int \<Rightarrow> bool" where
  "user_vma_kind_is_mmap_like kind \<longleftrightarrow>
     kind = USER_VMA_KIND_MMAP \<or> kind = USER_VMA_KIND_MMAP_LAZY \<or> kind = USER_VMA_KIND_SHM \<or>
     kind = USER_VMA_KIND_ELF_LOAD"

definition user_vma_is_filemap :: "user_vma \<Rightarrow> bool" where
  "user_vma_is_filemap v \<longleftrightarrow> vfile v \<noteq> 0 \<and>
     (vkind v = USER_VMA_KIND_MMAP_LAZY \<or> vkind v = USER_VMA_KIND_ELF_LOAD \<or>
      vkind v = USER_VMA_KIND_MMAP \<or> vkind v = USER_VMA_KIND_SHM)"

definition user_vma_find_containing_nolock :: "nat \<Rightarrow> addr \<Rightarrow> vma_table \<Rightarrow> nat option" where
  "user_vma_find_containing_nolock tid va tbl = findi (\<lambda>v. vused v \<and> vtid v = tid \<and> vhas v va) tbl"

definition user_vma_add_nolock ::
    "nat \<Rightarrow> addr \<Rightarrow> nat \<Rightarrow> int \<Rightarrow> int \<Rightarrow> vma_table \<Rightarrow> vma_table \<times> int" where
  "user_vma_add_nolock tid addr len prot kind tbl =
     (case findi (\<lambda>v. vused v \<and> vtid v = tid \<and> vaddr v = addr \<and> vlen v = len \<and> vkind v = kind) tbl of
        Some i \<Rightarrow> (tbl[i := (tbl ! i)\<lparr>vprot := prot\<rparr>], 0)
      | None \<Rightarrow>
          (case findi (\<lambda>v. \<not> vused v) tbl of
             None \<Rightarrow> (tbl, - 1)
           | Some i \<Rightarrow> (tbl[i := new_vma tid addr len prot kind], 0)))"

definition user_vma_split_at_nolock ::
    "nat \<Rightarrow> addr \<Rightarrow> vma_table \<times> file_counts \<Rightarrow> (vma_table \<times> file_counts) \<times> int" where
  "user_vma_split_at_nolock tid split_va s =
     (let (tbl, refs) = s
      in case user_vma_find_containing_nolock tid split_va tbl of
           None \<Rightarrow> (s, 0)
         | Some i \<Rightarrow>
             (let v = tbl ! i
              in if split_va = vaddr v \<or> split_va \<ge> vend v then (s, 0)
                 else
                   (let left_len = sub64 split_va (vaddr v);
                        right_len = sub64 (vlen v) left_len;
                        (tbl, rc) = user_vma_add_nolock tid split_va right_len (vprot v) (vkind v) tbl
                    in if rc \<noteq> 0 then ((tbl, refs), - 1)
                       else
                         (let (tbl, refs) =
                            (case user_vma_find_containing_nolock tid split_va tbl of
                               Some j \<Rightarrow>
                                 if vfile v \<noteq> 0
                                 then (tbl[j := (tbl ! j)\<lparr>vfile := vfile v,
                                              vfile_off := add64 (vfile_off v) left_len\<rparr>],
                                       fs_file_get (vfile v) refs)
                                 else (tbl, refs)
                             | None \<Rightarrow> (tbl, refs))
                          in ((tbl[i := (tbl ! i)\<lparr>vlen := left_len\<rparr>], refs), 0)))))"

section \<open>The areas of an address space\<close>

definition user_vma_tid_matches_runner_mm_nolock ::
    "vthread option list \<Rightarrow> vthread option \<Rightarrow> nat \<Rightarrow> bool" where
  "user_vma_tid_matches_runner_mm_nolock ths runner record_tid =
     (case runner of
        None \<Rightarrow> record_tid = 1
      | Some r \<Rightarrow>
          if t_mm r = 0 then (if t_tid r \<noteq> 0 then t_tid r else 1) = record_tid
          else \<exists>u \<in> set ths.
            (case u of
               None \<Rightarrow> False
             | Some t \<Rightarrow> t_ring t = 3 \<and> t_mm t = t_mm r \<and>
                 (if t_tid t \<noteq> 0 then t_tid t else 1) = record_tid))"

abbreviation runs :: "vma_state \<Rightarrow> vthread option \<Rightarrow> user_vma \<Rightarrow> bool" where
  "runs st runner v \<equiv> user_vma_tid_matches_runner_mm_nolock (threads st) runner (vtid v)"

definition find_entry :: "(user_vma \<Rightarrow> bool) \<Rightarrow> vma_table \<Rightarrow> user_vma option" where
  "find_entry P tbl = map_option ((!) tbl) (findi P tbl)"

definition user_vma_find_fault_nolock :: "vthread option \<Rightarrow> addr \<Rightarrow> vma_state \<Rightarrow> user_vma option" where
  "user_vma_find_fault_nolock runner va st =
     (let inside = (\<lambda>v. va \<ge> vaddr v \<and> sub64 va (vaddr v) < vlen v)
      in case find_entry (\<lambda>v. vused v \<and> runs st runner v \<and> inside v) (g_user_vmas st) of
           Some v \<Rightarrow> Some v
         | None \<Rightarrow>
             (case runner of
                None \<Rightarrow> None
              | Some r \<Rightarrow>
                  (case mm_table st (t_mm r) of
                     None \<Rightarrow> None
                   | Some tbl \<Rightarrow> find_entry (\<lambda>v. vused v \<and> inside v) tbl)))"

text \<open>The loop that cuts every area with \<open>split_va\<close> strictly inside, over the indices still to visit;
  \<open>M\<close> is whether the loop looks at an entry. The right half goes to the first free entry.\<close>

fun split_loop ::
    "(user_vma \<Rightarrow> bool) \<Rightarrow> addr \<Rightarrow> nat list \<Rightarrow> vma_table \<times> file_counts \<Rightarrow> (vma_table \<times> file_counts) \<times> int" where
  "split_loop M split_va [] s = (s, 0)"
| "split_loop M split_va (i # is) (tbl, refs) =
     (let v = tbl ! i
      in if \<not> vused v \<or> \<not> M v \<or> split_va \<le> vaddr v \<or> split_va \<ge> vend v
         then split_loop M split_va is (tbl, refs)
         else
           case findi (\<lambda>v. \<not> vused v) tbl of
             None \<Rightarrow> ((tbl, refs), - 1)
           | Some j \<Rightarrow>
               (let right = v\<lparr>vaddr := split_va, vlen := sub64 (vend v) split_va,
                      vfile_off := (if vfile v \<noteq> 0 then add64 (vfile_off v) (sub64 split_va (vaddr v))
                                    else vfile_off v)\<rparr>;
                    left = v\<lparr>vlen := sub64 split_va (vaddr v)\<rparr>
                in split_loop M split_va is (tbl[j := right, i := left], fs_file_get (vfile v) refs)))"

definition user_vma_split_runner_at_nolock :: "vthread option \<Rightarrow> addr \<Rightarrow> vma_state \<Rightarrow> vma_state \<times> int" where
  "user_vma_split_runner_at_nolock runner split_va st =
     (if runner = None then (st, - 1)
      else (let ((tbl, refs), rc) = split_loop (runs st runner) split_va [0..<length (g_user_vmas st)]
                  (g_user_vmas st, file_refs st)
            in (st\<lparr>g_user_vmas := tbl, file_refs := refs\<rparr>, rc)))"

definition user_vma_split_mm_at_nolock :: "addr \<Rightarrow> addr \<Rightarrow> vma_state \<Rightarrow> vma_state \<times> int" where
  "user_vma_split_mm_at_nolock mm split_va st =
     (case mm_table st mm of
        None \<Rightarrow> (st, 0)
      | Some vmas \<Rightarrow>
          (let ((tbl, refs), rc) = split_loop (\<lambda>_. True) split_va [0..<length vmas] (vmas, file_refs st)
           in (st\<lparr>vma_storage := (vma_storage st)(mm \<mapsto> tbl), file_refs := refs\<rparr>, rc)))"

text \<open>How many cuts a loop makes at an address, and how many entries are free.\<close>

definition cuts :: "(user_vma \<Rightarrow> bool) \<Rightarrow> addr \<Rightarrow> vma_table \<Rightarrow> nat" where
  "cuts M x tbl = length (filter (\<lambda>v. vused v \<and> M v \<and> x > vaddr v \<and> x < vend v) tbl)"

definition free_entries :: "vma_table \<Rightarrow> nat" where
  "free_entries tbl = length (filter (\<lambda>v. \<not> vused v) tbl)"

definition user_vma_unmap_capacity_nolock :: "vthread option \<Rightarrow> addr \<Rightarrow> addr \<Rightarrow> vma_state \<Rightarrow> int" where
  "user_vma_unmap_capacity_nolock owner addr end' st =
     (let M = (\<lambda>v. owner \<noteq> None \<and> runs st owner v); g = g_user_vmas st
      in if cuts M addr g + cuts M end' g > free_entries g then - 1
         else case owner of
           None \<Rightarrow> 0
         | Some t \<Rightarrow>
             (case mm_table st (t_mm t) of
                None \<Rightarrow> 0
              | Some vmas \<Rightarrow>
                  if cuts (\<lambda>_. True) addr vmas + cuts (\<lambda>_. True) end' vmas > free_entries vmas then - 1
                  else 0))"

definition user_vma_add ::
    "nat \<Rightarrow> addr \<Rightarrow> nat \<Rightarrow> int \<Rightarrow> int \<Rightarrow> bool \<Rightarrow> vma_state \<Rightarrow> vma_state \<times> int" where
  "user_vma_add tid addr len prot kind al st =
     (let (tbl, rc) = user_vma_add_nolock tid addr len prot kind (g_user_vmas st);
          st = st\<lparr>g_user_vmas := tbl\<rparr>
      in case owner_of st tid of
           None \<Rightarrow> (st, rc)
         | Some t \<Rightarrow> if t_mm t = 0 then (st, rc)
                     else (fst (user_vma_add_mm (t_mm t) addr len prot kind al st), rc))"

definition user_vma_can_unmap_range :: "nat \<Rightarrow> addr \<Rightarrow> nat \<Rightarrow> vma_state \<Rightarrow> int" where
  "user_vma_can_unmap_range tid addr len st =
     (if len = 0 \<or> add64 addr len < addr then - 1
      else if owner_of st tid = None then 0
      else user_vma_unmap_capacity_nolock (owner_of st tid) addr (add64 addr len) st)"

definition meets :: "addr \<Rightarrow> addr \<Rightarrow> user_vma \<Rightarrow> bool" where \<comment> \<open>\<open>!(e <= addr || a >= end)\<close>\<close>
  "meets addr end' v \<longleftrightarrow> \<not> (vend v \<le> addr \<or> vaddr v \<ge> end')"

text \<open>The source clears the two tables in one loop; they have no entry in common, so clearing one
  after the other is the same.\<close>

definition unmap_clear :: "vthread \<Rightarrow> addr \<Rightarrow> addr \<Rightarrow> vma_state \<Rightarrow> vma_state" where
  "unmap_clear t addr end' st =
     (let (tbl, refs) = clear_loop (\<lambda>v. runs st (Some t) v \<and> meets addr end' v) (g_user_vmas st) (file_refs st);
          st = st\<lparr>g_user_vmas := tbl, file_refs := refs\<rparr>
      in case mm_table st (t_mm t) of
           None \<Rightarrow> st
         | Some vmas \<Rightarrow>
             (let (tbl, refs) = clear_loop (meets addr end') vmas (file_refs st)
              in st\<lparr>vma_storage := (vma_storage st)(t_mm t \<mapsto> tbl), file_refs := refs\<rparr>))"

definition unmap_in_mm :: "vthread \<Rightarrow> addr \<Rightarrow> addr \<Rightarrow> vma_state \<Rightarrow> vma_state \<times> int" where
  "unmap_in_mm t addr end' st =
     (if user_vma_unmap_capacity_nolock (Some t) addr end' st \<noteq> 0 then (st, - 1)
      else
        (let (st, rc) = user_vma_split_runner_at_nolock (Some t) addr st
         in if rc \<noteq> 0 then (st, - 1)
            else
              (let (st, rc) = user_vma_split_runner_at_nolock (Some t) end' st
               in if rc \<noteq> 0 then (st, - 1)
                  else
                    (let (st, rc) = user_vma_split_mm_at_nolock (t_mm t) addr st
                     in if rc \<noteq> 0 then (st, - 1)
                        else
                          (let (st, rc) = user_vma_split_mm_at_nolock (t_mm t) end' st
                           in if rc \<noteq> 0 then (st, - 1) else (unmap_clear t addr end' st, 0))))))"

definition user_vma_unmap_range :: "nat \<Rightarrow> addr \<Rightarrow> nat \<Rightarrow> vma_state \<Rightarrow> vma_state \<times> int" where
  "user_vma_unmap_range tid addr len st =
     (let end' = add64 addr len;
          no_mm = (let (s, _) = user_vma_split_at_nolock tid addr (g_user_vmas st, file_refs st);
                       ((tbl, refs), _) = user_vma_split_at_nolock tid end' s;
                       (tbl, refs) = clear_loop (\<lambda>v. vtid v = tid \<and> meets addr end' v) tbl refs
                   in (st\<lparr>g_user_vmas := tbl, file_refs := refs\<rparr>, 0))
      in case owner_of st tid of
           None \<Rightarrow> no_mm
         | Some t \<Rightarrow> if t_mm t = 0 then no_mm else unmap_in_mm t addr end' st)"

definition user_vma_set_prot :: "nat \<Rightarrow> addr \<Rightarrow> nat \<Rightarrow> int \<Rightarrow> vma_state \<Rightarrow> vma_state \<times> int" where
  "user_vma_set_prot tid addr len prot st =
     (let end' = add64 addr len;
          ((tbl, refs), rc) = user_vma_split_at_nolock tid addr (g_user_vmas st, file_refs st)
      in if rc \<noteq> 0 then (st\<lparr>g_user_vmas := tbl, file_refs := refs\<rparr>, - 1)
         else
           (let ((tbl, refs), rc) = user_vma_split_at_nolock tid end' (tbl, refs)
            in if rc \<noteq> 0 then (st\<lparr>g_user_vmas := tbl, file_refs := refs\<rparr>, - 1)
               else (st\<lparr>g_user_vmas := map (\<lambda>v. if vused v \<and> vtid v = tid \<and> meets addr end' v
                                                  then v\<lparr>vprot := prot\<rparr> else v) tbl,
                        file_refs := refs\<rparr>, 0)))"

section \<open>Queries\<close>

function fully_mapped_loop :: "nat \<Rightarrow> vma_table \<Rightarrow> addr \<Rightarrow> addr \<Rightarrow> bool" where
  "fully_mapped_loop tid tbl cur end' =
     (if cur < end' then
        (case find_entry (\<lambda>v. vused v \<and> vtid v = tid \<and> vhas v cur) tbl of
           None \<Rightarrow> False
         | Some v \<Rightarrow> if vend v \<le> cur then False else fully_mapped_loop tid tbl (vend v) end')
      else True)"
  by auto
termination by (relation "measure (\<lambda>(tid, tbl, cur, end'). end' - cur)") auto

declare fully_mapped_loop.simps [simp del]

definition user_vma_is_fully_mapped :: "nat \<Rightarrow> addr \<Rightarrow> nat \<Rightarrow> vma_state \<Rightarrow> bool" where
  "user_vma_is_fully_mapped tid addr len st = fully_mapped_loop tid (g_user_vmas st) addr (add64 addr len)"

definition user_vma_max_mmap_like_end_nolock :: "nat \<Rightarrow> vma_state \<Rightarrow> addr" where
  "user_vma_max_mmap_like_end_nolock tid st =
     fold (\<lambda>v mx. if vused v \<and> vtid v = tid \<and> user_vma_kind_is_mmap_like (vkind v) \<and> vend v > mx
                   then vend v else mx) (g_user_vmas st) 0"

definition user_vma_max_mmap_like_end :: "nat \<Rightarrow> vma_state \<Rightarrow> addr" where
  "user_vma_max_mmap_like_end tid st = user_vma_max_mmap_like_end_nolock tid st"

definition user_vma_max_mmap_like_end_for_mm_nolock :: "vthread option \<Rightarrow> vma_state \<Rightarrow> addr" where
  "user_vma_max_mmap_like_end_for_mm_nolock runner st =
     (if runner = None then 0
      else fold (\<lambda>v mx. if vused v \<and> user_vma_kind_is_mmap_like (vkind v) \<and> runs st runner v \<and> vend v > mx
                         then vend v else mx) (g_user_vmas st) 0)"

definition user_vma_max_mmap_like_end_for_mm :: "vthread option \<Rightarrow> vma_state \<Rightarrow> addr" where
  "user_vma_max_mmap_like_end_for_mm runner st = user_vma_max_mmap_like_end_for_mm_nolock runner st"

fun total_size_loop :: "(user_vma \<Rightarrow> bool) \<Rightarrow> vma_table \<Rightarrow> nat \<Rightarrow> nat" where
  "total_size_loop P [] tot = tot"
| "total_size_loop P (v # vs) tot =
     (if \<not> P v then total_size_loop P vs tot
      else if sub64 (2 ^ 64 - 1) tot < vlen v then 2 ^ 64 - 1
      else total_size_loop P vs (add64 tot (vlen v)))"

definition user_vma_total_size_for_mm :: "vthread option \<Rightarrow> vma_state \<Rightarrow> nat" where
  "user_vma_total_size_for_mm runner st =
     (if runner = None then 0
      else total_size_loop (\<lambda>v. vused v \<and> runs st runner v) (g_user_vmas st) 0)"

definition user_vma_min_mmap_like_for_thread_nolock :: "vthread option \<Rightarrow> addr \<Rightarrow> vma_state \<Rightarrow> addr" where
  "user_vma_min_mmap_like_for_thread_nolock tcur brk_base st =
     fold (\<lambda>v best. if vused v \<and> user_vma_kind_is_mmap_like (vkind v) \<and> runs st tcur v \<and>
                        vaddr v \<ge> 0x200000 \<and> vaddr v \<ge> brk_base \<and> vaddr v < best
                     then vaddr v else best) (g_user_vmas st) (2 ^ 64 - 1)"

definition user_vma_min_mmap_like_for_thread :: "vthread option \<Rightarrow> addr \<Rightarrow> vma_state \<Rightarrow> addr" where
  "user_vma_min_mmap_like_for_thread tcur brk_base st = user_vma_min_mmap_like_for_thread_nolock tcur brk_base st"

definition clashes :: "addr \<Rightarrow> addr \<Rightarrow> user_vma \<Rightarrow> bool" where
  "clashes a0 a1 v \<longleftrightarrow> \<not> vend v < vaddr v \<and> \<not> (a1 \<le> vaddr v \<or> a0 \<ge> vend v)"

definition user_vma_overlaps_thread_range :: "vthread option \<Rightarrow> addr \<Rightarrow> nat \<Rightarrow> vma_state \<Rightarrow> bool" where
  "user_vma_overlaps_thread_range runner addr len st =
     (if len = 0 \<or> runner = None then False
      else if add64 addr len < addr then True
      else \<exists>v \<in> set (g_user_vmas st). vused v \<and> runs st runner v \<and> clashes addr (add64 addr len) v)"

definition user_vma_mmap_range_overlaps_nolock :: "vthread option \<Rightarrow> addr \<Rightarrow> nat \<Rightarrow> vma_state \<Rightarrow> bool" where
  "user_vma_mmap_range_overlaps_nolock runner addr len st =
     (if len = 0 \<or> runner = None then False
      else if add64 addr len < addr then True
      else \<exists>v \<in> set (g_user_vmas st). vused v \<and> user_vma_kind_is_mmap_like (vkind v) \<and> runs st runner v \<and>
             clashes addr (add64 addr len) v)"

definition user_vma_mmap_range_overlaps :: "vthread option \<Rightarrow> addr \<Rightarrow> nat \<Rightarrow> vma_state \<Rightarrow> bool" where
  "user_vma_mmap_range_overlaps runner addr len st = user_vma_mmap_range_overlaps_nolock runner addr len st"

section \<open>Finding room\<close>

definition user_vma_overlap_end_nolock :: "vthread option \<Rightarrow> addr \<Rightarrow> nat \<Rightarrow> vma_state \<Rightarrow> addr" where
  "user_vma_overlap_end_nolock runner addr len st =
     (let a1 = add64 addr len
      in if a1 < addr then 2 ^ 64 - 1
         else fold (\<lambda>v end'. if vused v \<and> runs st runner v \<and> clashes addr a1 v \<and> vend v > end'
                             then vend v else end') (g_user_vmas st) 0)"

definition fix_align :: "nat \<Rightarrow> nat" where
  "fix_align align =
     (let align = (if align < 4096 then 4096 else align)
      in if (of_nat align :: 64 word) AND (of_nat align - 1) \<noteq> 0 then 4096 else align)"

primrec find_loop ::
    "nat \<Rightarrow> vthread option \<Rightarrow> addr \<Rightarrow> nat \<Rightarrow> nat \<Rightarrow> vma_state \<Rightarrow> addr \<Rightarrow> addr" where
  "find_loop 0 runner ceil len align st cand = 0"
| "find_loop (Suc n) runner ceil len align st cand =
     (if cand \<ge> ceil \<or> add64 cand len > ceil \<or> add64 cand len < cand then 0
      else
        (let block = user_vma_overlap_end_nolock runner cand len st
         in if block = 0 then cand
            else if block = 2 ^ 64 - 1 then 0
            else
              (let next' = align_up64 block align;
                   next' = (if next' \<le> cand then add64 cand align else next')
               in find_loop n runner ceil len align st next')))"

definition user_vma_find_unmapped ::
    "vthread option \<Rightarrow> addr \<Rightarrow> addr \<Rightarrow> nat \<Rightarrow> addr \<Rightarrow> nat \<Rightarrow> vma_state \<Rightarrow> addr" where
  "user_vma_find_unmapped runner floor ceil len hint align st =
     (if runner = None \<or> len = 0 \<or> floor \<ge> ceil then 0
      else
        (let align = fix_align align
         in if len > ceil - floor then 0
            else
              (let h = align_up64 hint align
               in if hint \<noteq> 0 \<and> h \<ge> floor \<and> add64 h len \<le> ceil \<and> add64 h len \<ge> h \<and>
                     user_vma_overlap_end_nolock runner h len st = 0
                  then h
                  else find_loop (USER_VMA_MAX + 16) runner ceil len align st (align_up64 floor align))))"

definition user_vma_overlap_start_nolock :: "vthread option \<Rightarrow> addr \<Rightarrow> nat \<Rightarrow> vma_state \<Rightarrow> addr" where
  "user_vma_overlap_start_nolock runner addr len st =
     (let a1 = add64 addr len
      in if a1 < addr then 2 ^ 64 - 1
         else case fold (\<lambda>v start. if vused v \<and> runs st runner v \<and> clashes addr a1 v \<and>
                                       (start = None \<or> vaddr v < the start)
                                    then Some (vaddr v) else start) (g_user_vmas st) None of
                None \<Rightarrow> 0
              | Some s \<Rightarrow> s)"

primrec topdown_loop ::
    "nat \<Rightarrow> vthread option \<Rightarrow> addr \<Rightarrow> addr \<Rightarrow> nat \<Rightarrow> nat \<Rightarrow> vma_state \<Rightarrow> addr \<Rightarrow> addr" where
  "topdown_loop 0 runner floor ceil len align st cand = 0"
| "topdown_loop (Suc n) runner floor ceil len align st cand =
     (if cand < floor \<or> add64 cand len > ceil then 0
      else
        (let ov_start = user_vma_overlap_start_nolock runner cand len st
         in if ov_start = 0 then cand
            else if ov_start = 2 ^ 64 - 1 then 0
            else if ov_start < add64 floor len then 0
            else
              (let next' = align_down64 (sub64 ov_start len) align
               in if next' \<ge> cand then
                    (if cand < add64 align floor then 0
                     else topdown_loop n runner floor ceil len align st (sub64 cand align))
                  else topdown_loop n runner floor ceil len align st next')))"

definition user_vma_find_unmapped_topdown ::
    "vthread option \<Rightarrow> addr \<Rightarrow> addr \<Rightarrow> nat \<Rightarrow> nat \<Rightarrow> vma_state \<Rightarrow> addr" where
  "user_vma_find_unmapped_topdown runner floor ceil len align st =
     (if runner = None \<or> len = 0 \<or> floor \<ge> ceil then 0
      else
        (let align = fix_align align
         in if len > ceil - floor then 0
            else
              (let cand = align_down64 (sub64 ceil len) align
               in if add64 cand len > ceil then
                    (if cand < align then 0
                     else topdown_loop (USER_VMA_MAX + 16) runner floor ceil len align st (sub64 cand align))
                  else topdown_loop (USER_VMA_MAX + 16) runner floor ceil len align st cand)))"

section \<open>Thread exit, exec and fork\<close>

definition user_vma_remove_all_for_tid :: "nat \<Rightarrow> vma_state \<Rightarrow> vma_state" where
  "user_vma_remove_all_for_tid tid st =
     (let (tbl, refs) = clear_loop (\<lambda>v. vtid v = tid) (g_user_vmas st) (file_refs st)
      in st\<lparr>g_user_vmas := tbl, file_refs := refs\<rparr>)"

text \<open>The calls of the page-table code whose results are ignored.\<close>

datatype map_call =
    mm_make_private_range addr addr addr \<comment> \<open>the address space, from, to\<close>
  | user_map_ensure_present_us_2m addr addr
  | user_as_mmap_memset_zero_chunked addr nat

definition teardown_calls :: "vthread option \<Rightarrow> bool \<Rightarrow> user_vma \<Rightarrow> map_call list" where
  "teardown_calls runner priv v =
     (let a = vaddr v; e = vend v
      in if e > a \<and> a \<ge> 0x200000 \<and> e \<le> VMA_IDENTITY_LIMIT then
           (case runner of
              Some r \<Rightarrow>
                if t_mm r \<noteq> 0 \<and> priv then [mm_make_private_range (t_mm r) a e]
                else [user_map_ensure_present_us_2m a e, user_as_mmap_memset_zero_chunked a (sub64 e a)]
            | None \<Rightarrow> [user_map_ensure_present_us_2m a e, user_as_mmap_memset_zero_chunked a (sub64 e a)])
         else [])"

text \<open>\<open>priv\<close> is whether the runner's page table is there and is not the kernel's.\<close>

definition user_vma_teardown_unmap_for_exec ::
    "vthread option \<Rightarrow> bool \<Rightarrow> vma_state \<Rightarrow> vma_state \<times> map_call list" where
  "user_vma_teardown_unmap_for_exec runner priv st =
     (let hit = (\<lambda>v. runner = None \<or> runs st runner v);
          calls = concat (map (teardown_calls runner priv) (filter (\<lambda>v. vused v \<and> hit v) (g_user_vmas st)));
          (tbl, refs) = clear_loop hit (g_user_vmas st) (file_refs st)
      in (st\<lparr>g_user_vmas := tbl, file_refs := refs\<rparr>, calls))"

abbreviation user_va :: "addr \<Rightarrow> bool" where \<comment> \<open>the range check of the page queries\<close>
  "user_va va \<equiv> \<not> (va < 0x200000 \<or> va \<ge> VMA_IDENTITY_LIMIT)"

definition user_vma_allows_write :: "vthread option \<Rightarrow> addr \<Rightarrow> vma_state \<Rightarrow> bool" where
  "user_vma_allows_write runner va st =
     (runner \<noteq> None \<and> user_va va \<and>
      (case user_vma_find_fault_nolock runner va st of None \<Rightarrow> False | Some v \<Rightarrow> vprot v AND 2 \<noteq> 0))"

definition user_vma_covers_page :: "nat \<Rightarrow> addr \<Rightarrow> vma_state \<Rightarrow> bool" where
  "user_vma_covers_page tid va st =
     (user_va va \<and> (\<exists>v \<in> set (g_user_vmas st). vused v \<and> vtid v = tid \<and> vhas v va))"

definition user_vma_covers_page_mm :: "addr \<Rightarrow> addr \<Rightarrow> vma_state \<Rightarrow> bool" where
  "user_vma_covers_page_mm mm va st =
     (mm \<noteq> 0 \<and> user_va va \<and>
      (case mm_table st mm of None \<Rightarrow> False | Some vmas \<Rightarrow> \<exists>v \<in> set vmas. vused v \<and> vhas v va))"

definition user_vma_is_lazy_file_page :: "nat \<Rightarrow> addr \<Rightarrow> vma_state \<Rightarrow> bool" where
  "user_vma_is_lazy_file_page tid va st =
     (user_va va \<and> (\<exists>v \<in> set (g_user_vmas st). vused v \<and> vtid v = tid \<and> vfile v \<noteq> 0 \<and>
        user_vma_is_filemap v \<and> vhas v va))"

definition user_vma_is_lazy_anon_page :: "nat \<Rightarrow> addr \<Rightarrow> vma_state \<Rightarrow> bool" where
  "user_vma_is_lazy_anon_page tid va st =
     (user_va va \<and> (\<exists>v \<in> set (g_user_vmas st). vused v \<and> vtid v = tid \<and>
        vkind v = USER_VMA_KIND_MMAP_LAZY \<and> vfile v = 0 \<and> vhas v va))"

definition user_vma_is_lazy_file_page_for :: "vthread option \<Rightarrow> addr \<Rightarrow> vma_state \<Rightarrow> bool" where
  "user_vma_is_lazy_file_page_for runner va st =
     (runner \<noteq> None \<and> user_va va \<and> (\<exists>v \<in> set (g_user_vmas st). vused v \<and> runs st runner v \<and>
        vfile v \<noteq> 0 \<and> user_vma_is_filemap v \<and> vhas v va))"

text \<open>Scrubbing the child's identity pages: \<open>leaf\<close> is what \<open>mm_va_leaf_pa\<close> finds at an address and
  \<open>ok\<close> whether \<open>mm_unmap_user_range\<close> of that page succeeds; the result lists the pages unmapped.
  \<open>tables\<close> is whether the child and the kernel have page tables.\<close>

definition scrub_page :: "(addr \<Rightarrow> addr option) \<Rightarrow> addr \<Rightarrow> bool" where
  "scrub_page leaf va =
     (case leaf va of None \<Rightarrow> False | Some pa \<Rightarrow> align_down64 pa 4096 = align_down64 va 4096)"

fun scrub_pages :: "(addr \<Rightarrow> addr option) \<Rightarrow> (addr \<Rightarrow> bool) \<Rightarrow> addr list \<Rightarrow> addr list \<times> int" where
  "scrub_pages leaf ok [] = ([], 0)"
| "scrub_pages leaf ok (va # vas) =
     (if \<not> scrub_page leaf va then scrub_pages leaf ok vas
      else if \<not> ok va then ([], - 1)
      else (let (done, rc) = scrub_pages leaf ok vas in (va # done, rc)))"

definition page_list :: "addr \<Rightarrow> addr \<Rightarrow> addr list" where \<comment> \<open>from the page of \<open>a\<close> up to \<open>e\<close>\<close>
  "page_list a e =
     (let lo = align_down64 a 4096 in map (\<lambda>k. lo + 4096 * k) [0..<(e - lo + 4095) div 4096])"

fun scrub_vmas :: "(addr \<Rightarrow> addr option) \<Rightarrow> (addr \<Rightarrow> bool) \<Rightarrow> nat \<Rightarrow> vma_table \<Rightarrow> addr list \<times> int" where
  "scrub_vmas leaf ok from_tid [] = ([], 0)"
| "scrub_vmas leaf ok from_tid (v # vs) =
     (let a = vaddr v; e = vend v
      in if \<not> vused v \<or> vtid v \<noteq> from_tid \<or>
            (if vfile v \<noteq> 0 then \<not> user_vma_is_filemap v else vkind v \<noteq> USER_VMA_KIND_MMAP_LAZY) \<or>
            e \<le> a \<or> a < 0x200000
         then scrub_vmas leaf ok from_tid vs
         else
           (let (done, rc) = scrub_pages leaf ok (page_list a (if e > VMA_IDENTITY_LIMIT then VMA_IDENTITY_LIMIT else e))
            in if rc \<noteq> 0 then (done, rc)
               else (let (more, rc) = scrub_vmas leaf ok from_tid vs in (done @ more, rc))))"

definition user_vma_fork_scrub_lazy_file ::
    "bool \<Rightarrow> (addr \<Rightarrow> addr option) \<Rightarrow> (addr \<Rightarrow> bool) \<Rightarrow> nat \<Rightarrow> vma_state \<Rightarrow> addr list \<times> int" where
  "user_vma_fork_scrub_lazy_file tables leaf ok from_tid st =
     (if \<not> tables then ([], - 1) else scrub_vmas leaf ok from_tid (g_user_vmas st))"

definition user_vma_is_shared_page :: "nat \<Rightarrow> addr \<Rightarrow> vma_state \<Rightarrow> bool" where
  "user_vma_is_shared_page tid va st =
     (\<exists>v \<in> set (g_user_vmas st). vused v \<and> vtid v = tid \<and> vkind v = USER_VMA_KIND_SHM \<and> vhas v va)"

text \<open>The entries copied, and how many of them come from the address space's table.\<close>

definition user_vma_snapshot :: "nat \<Rightarrow> addr \<Rightarrow> nat \<Rightarrow> vma_state \<Rightarrow> vma_table \<times> nat" where
  "user_vma_snapshot tid mm mx st =
     (if mx = 0 then ([], 0)
      else
        (let d = take mx (filter (\<lambda>v. vused v \<and> vtid v = tid) (g_user_vmas st));
             more = (if length d < mx then
                       (case mm_table st mm of None \<Rightarrow> [] | Some vmas \<Rightarrow> take (mx - length d) (filter vused vmas))
                     else [])
         in (d @ more, length more)))"

text \<open>\<open>cow\<close> is whether marking a range copy-on-write succeeds; the result lists the ranges marked.\<close>

fun privatize_loop :: "(addr \<Rightarrow> addr \<Rightarrow> bool) \<Rightarrow> nat \<Rightarrow> vma_table \<Rightarrow> (addr \<times> addr) list \<times> int" where
  "privatize_loop cow from_tid [] = ([], 0)"
| "privatize_loop cow from_tid (v # vs) =
     (let a = vaddr v; e = vend v
      in if \<not> vused v \<or> vtid v \<noteq> from_tid \<or> vkind v = USER_VMA_KIND_SHM \<or>
            vkind v = USER_VMA_KIND_MMAP_LAZY \<or> vprot v AND 2 = 0
         then privatize_loop cow from_tid vs
         else if e \<le> a \<or> e > VMA_IDENTITY_LIMIT then ([], - 1)
         else if \<not> cow a e then ([], - 1)
         else (let (done, rc) = privatize_loop cow from_tid vs in ((a, e) # done, rc)))"

definition user_vma_fork_privatize_mapped ::
    "bool \<Rightarrow> (addr \<Rightarrow> addr \<Rightarrow> bool) \<Rightarrow> nat \<Rightarrow> vma_state \<Rightarrow> (addr \<times> addr) list \<times> int" where
  "user_vma_fork_privatize_mapped args cow from_tid st =
     (if \<not> args then ([], - 1) else privatize_loop cow from_tid (g_user_vmas st))"

fun clone_loop :: "nat \<Rightarrow> nat \<Rightarrow> nat list \<Rightarrow> vma_table \<times> file_counts \<Rightarrow> (vma_table \<times> file_counts) \<times> int" where
  "clone_loop from_tid to_tid [] s = (s, 0)"
| "clone_loop from_tid to_tid (i # is) (tbl, refs) =
     (let v = tbl ! i
      in if \<not> vused v \<or> vtid v \<noteq> from_tid then clone_loop from_tid to_tid is (tbl, refs)
         else
           (let (tbl, rc) = user_vma_add_nolock to_tid (vaddr v) (vlen v) (vprot v) (vkind v) tbl
            in if rc \<noteq> 0 then (clear_loop (\<lambda>v. vtid v = to_tid) tbl refs, - 1)
               else
                 (case user_vma_find_containing_nolock to_tid (vaddr v) tbl of
                    None \<Rightarrow> clone_loop from_tid to_tid is (tbl, refs)
                  | Some j \<Rightarrow>
                      if vfile v = 0 then clone_loop from_tid to_tid is (tbl, refs)
                      else clone_loop from_tid to_tid is
                             (tbl[j := (tbl ! j)\<lparr>vfile := vfile v, vfile_off := vfile_off v\<rparr>],
                              fs_file_get (vfile v) refs))))"

definition user_vma_clone_for_tid :: "nat \<Rightarrow> nat \<Rightarrow> vma_state \<Rightarrow> vma_state \<times> int" where
  "user_vma_clone_for_tid from_tid to_tid st =
     (let ((tbl, refs), rc) = clone_loop from_tid to_tid [0..<length (g_user_vmas st)]
            (g_user_vmas st, file_refs st)
      in (st\<lparr>g_user_vmas := tbl, file_refs := refs\<rparr>, rc))"

section \<open>Lookup, growth and file mappings\<close>

text \<open>The area found, from which the caller's variables are set, with a reference taken on its file.\<close>

definition user_vma_lookup_after :: "vthread option \<Rightarrow> addr \<Rightarrow> vma_state \<Rightarrow> vma_state \<times> user_vma option" where
  "user_vma_lookup_after runner addr st =
     (let best = (if runner = None then None else user_vma_find_fault_nolock runner addr st);
          best = fold (\<lambda>v best.
            if vused v \<and> (if runner \<noteq> None then runs st runner v else vtid v = 1) \<and> \<not> vend v \<le> addr \<and>
               (case best of None \<Rightarrow> True | Some b \<Rightarrow> vaddr v < vaddr b)
            then Some v else best) (g_user_vmas st) best
      in case best of
           None \<Rightarrow> (st, None)
         | Some v \<Rightarrow> (st\<lparr>file_refs := fs_file_get (vfile v) (file_refs st)\<rparr>, Some v))"

definition user_vma_grow :: "vthread option \<Rightarrow> addr \<Rightarrow> nat \<Rightarrow> nat \<Rightarrow> vma_state \<Rightarrow> vma_state \<times> int" where
  "user_vma_grow runner addr old_len new_len st =
     (case runner of
        None \<Rightarrow> (st, - 1)
      | Some r \<Rightarrow>
          if old_len = 0 \<or> new_len < old_len then (st, - 1)
          else
            (let same = (\<lambda>v. vused v \<and> vaddr v = addr \<and> vlen v = old_len); g = g_user_vmas st
             in case findi (\<lambda>v. same v \<and> runs st runner v) g of
                  None \<Rightarrow> (st, - 1)
                | Some i \<Rightarrow>
                    (let st = st\<lparr>g_user_vmas := g[i := (g ! i)\<lparr>vlen := new_len\<rparr>]\<rparr>
                     in case mm_table st (t_mm r) of
                          None \<Rightarrow> (st, 0)
                        | Some vmas \<Rightarrow>
                            (case findi same vmas of
                               None \<Rightarrow> (st, 0)
                             | Some j \<Rightarrow>
                                 (st\<lparr>vma_storage := (vma_storage st)(t_mm r \<mapsto>
                                       vmas[j := (vmas ! j)\<lparr>vlen := new_len\<rparr>])\<rparr>, 0)))))"

definition give_file :: "nat \<Rightarrow> addr \<Rightarrow> nat \<Rightarrow> vma_table \<times> file_counts \<Rightarrow> vma_table \<times> file_counts" where
  "give_file i file file_off s =
     (let (tbl, refs) = s; (v, refs) = user_vma_drop_file_nolock (tbl ! i) refs
      in (tbl[i := v\<lparr>vfile := file, vfile_off := file_off\<rparr>], fs_file_get file refs))"

definition user_vma_add_file ::
    "nat \<Rightarrow> addr \<Rightarrow> nat \<Rightarrow> int \<Rightarrow> int \<Rightarrow> addr \<Rightarrow> nat \<Rightarrow> bool \<Rightarrow> vma_state \<Rightarrow> vma_state \<times> int" where
  "user_vma_add_file tid addr len prot kind file file_off al st =
     (if file = 0 \<or> len = 0 then (st, - 1)
      else
        (let kind = (if kind \<noteq> USER_VMA_KIND_MMAP_LAZY \<and> kind \<noteq> USER_VMA_KIND_ELF_LOAD \<and>
                        kind \<noteq> USER_VMA_KIND_MMAP \<and> kind \<noteq> USER_VMA_KIND_SHM
                     then USER_VMA_KIND_MMAP_LAZY else kind);
             (tbl, rc) = user_vma_add_nolock tid addr len prot kind (g_user_vmas st);
             st = st\<lparr>g_user_vmas := tbl\<rparr>
         in if rc \<noteq> 0 then (st, rc)
            else
              (case user_vma_find_containing_nolock tid addr tbl of
                 None \<Rightarrow> (st, - 1)
               | Some i \<Rightarrow>
                   (let (tbl, refs) = give_file i file file_off (tbl, file_refs st);
                        st = st\<lparr>g_user_vmas := tbl, file_refs := refs\<rparr>
                    in case owner_of st tid of
                         None \<Rightarrow> (st, 0)
                       | Some t \<Rightarrow>
                           if t_mm t = 0 then (st, 0)
                           else
                             (let st = fst (user_vma_add_mm (t_mm t) addr len prot kind al st)
                              in case mm_table st (t_mm t) of
                                   None \<Rightarrow> (st, 0)
                                 | Some vmas \<Rightarrow>
                                     (case findi (\<lambda>v. vused v \<and> vaddr v = addr \<and> vlen v = len) vmas of
                                        None \<Rightarrow> (st, 0)
                                      | Some j \<Rightarrow>
                                          (let (vmas, refs) = give_file j file file_off (vmas, file_refs st)
                                           in (st\<lparr>vma_storage := (vma_storage st)(t_mm t \<mapsto> vmas),
                                                  file_refs := refs\<rparr>, 0))))))))"

end
