(* ===== verification/UserVma_Thms.thy ===== *)
theory UserVma_Thms
  imports UserVma
begin

text \<open>
  The tables of memory areas read as address-space maps. \<open>vview tbl va\<close> is what a table says about an
  address: for each area over it the owner, the protection, the kind and the place in the file.
  Cutting areas leaves the view alone; unmapping removes exactly the range; and the searches for
  room find a hole whenever there is one.
\<close>

section \<open>Views\<close>

definition vview :: "vma_table \<Rightarrow> addr \<Rightarrow> (nat \<times> int \<times> int \<times> addr \<times> nat) set" where
  "vview tbl va =
     (\<lambda>v. (vtid v, vprot v, vkind v, vfile v, if vfile v = 0 then 0 else vfile_off v + (va - vaddr v))) `
       {v \<in> set tbl. vused v \<and> vhas v va}"

definition vone :: "user_vma \<Rightarrow> addr \<Rightarrow> (nat \<times> int \<times> int \<times> addr \<times> nat) set" where \<comment> \<open>one entry's share\<close>
  "vone v va =
     (if vused v \<and> vhas v va
      then {(vtid v, vprot v, vkind v, vfile v, if vfile v = 0 then 0 else vfile_off v + (va - vaddr v))}
      else {})"

lemma vview_vone: "vview tbl va = (\<Union>v \<in> set tbl. vone v va)"
  by (auto simp: vview_def vone_def split: if_splits)

definition vma_ok :: "user_vma \<Rightarrow> bool" where
  "vma_ok v \<longleftrightarrow> (vused v \<longrightarrow> vaddr v + vlen v < 2 ^ 64 \<and> vfile_off v + vlen v < 2 ^ 64)"

definition holders :: "addr \<Rightarrow> vma_table \<Rightarrow> int" where
  "holders f tbl = int (length (filter (\<lambda>v. vused v \<and> vfile v = f) tbl))"

definition tid_only :: "(user_vma \<Rightarrow> bool) \<Rightarrow> bool" where \<comment> \<open>a condition on the owner alone\<close>
  "tid_only M \<longleftrightarrow> (\<forall>v w. vtid v = vtid w \<longrightarrow> M v = M w)"

abbreviation astride :: "addr \<Rightarrow> user_vma \<Rightarrow> bool" where
  "astride x v \<equiv> x > vaddr v \<and> x < vend v"

lemma vend_ok: "vma_ok v \<Longrightarrow> vused v \<Longrightarrow> vend v = vaddr v + vlen v"
  by (simp add: vma_ok_def add64_id)

text \<open>Replacing one entry changes a count by the entry's own share.\<close>

lemma filter_update_len:
  "i < length xs \<Longrightarrow>
     length (filter P (xs[i := y])) + of_bool (P (xs ! i)) = length (filter P xs) + of_bool (P y)"
proof (induction xs arbitrary: i)
  case (Cons x xs)
  then show ?case by (cases i) auto
qed simp

lemma set_update_image:
  "i < length xs \<Longrightarrow> set (xs[i := y]) = insert y (set (take i xs) \<union> set (drop (Suc i) xs))"
  by (auto simp: upd_conv_take_nth_drop)

section \<open>Cutting one area\<close>

text \<open>The two halves that \<open>split_loop\<close> makes of an area.\<close>

definition right_half :: "addr \<Rightarrow> user_vma \<Rightarrow> user_vma" where
  "right_half x v = v\<lparr>vaddr := x, vlen := sub64 (vend v) x,
     vfile_off := (if vfile v \<noteq> 0 then add64 (vfile_off v) (sub64 x (vaddr v)) else vfile_off v)\<rparr>"

definition left_half :: "addr \<Rightarrow> user_vma \<Rightarrow> user_vma" where
  "left_half x v = v\<lparr>vlen := sub64 x (vaddr v)\<rparr>"

lemma halves:
  assumes "vma_ok v" "vused v" "astride x v"
  shows "vend (left_half x v) = x" "vend (right_half x v) = vend v"
    "vaddr (right_half x v) = x" "vaddr (left_half x v) = vaddr v"
    "vma_ok (left_half x v)" "vma_ok (right_half x v)"
    "vfile_off (left_half x v) = vfile_off v"
    "vfile v \<noteq> 0 \<Longrightarrow> vfile_off (right_half x v) = vfile_off v + (x - vaddr v)"
    "vused (right_half x v)" "vused (left_half x v)"
    "vfile (right_half x v) = vfile v" "vfile (left_half x v) = vfile v"
    "vtid (right_half x v) = vtid v" "vtid (left_half x v) = vtid v"
    "vprot (right_half x v) = vprot v" "vprot (left_half x v) = vprot v"
    "vkind (right_half x v) = vkind v" "vkind (left_half x v) = vkind v"
  using assms vend_ok [OF assms(1,2)]
  by (auto simp: left_half_def right_half_def vma_ok_def add64_id sub64_id)

lemma cut_counts:
  assumes ok: "\<forall>v \<in> set tbl. vma_ok v"
    and i: "i < length tbl" "vused (tbl ! i)" "M (tbl ! i)" "astride x (tbl ! i)"
    and j: "j < length tbl" "\<not> vused (tbl ! j)"
    and M_tid: "tid_only M"
  defines "tbl' \<equiv> tbl[j := right_half x (tbl ! i), i := left_half x (tbl ! i)]"
  shows "\<forall>v \<in> set tbl'. vma_ok v" "Suc (free_entries tbl') = free_entries tbl"
    "cuts M y tbl' + of_bool (y = x) = cuts M y tbl"
    "holders f tbl' = holders f tbl + of_bool (vfile (tbl ! i) = f)"
proof -
  let ?r = "right_half x (tbl ! i)" and ?l = "left_half x (tbl ! i)"
  note hv = halves [OF _ i(2,4)]
  have vok: "vma_ok (tbl ! i)" using ok i by simp
  have "set tbl' \<subseteq> insert ?l (insert ?r (set tbl))"
    unfolding tbl'_def by (meson insert_mono order_trans set_update_subset_insert)
  then show "\<forall>v \<in> set tbl'. vma_ok v" using ok hv(5,6) [OF vok] by blast
  have ne: "i \<noteq> j" using i j by auto
  have count: "length (filter P tbl') + of_bool (P (tbl ! i)) + of_bool (P (tbl ! j)) =
      length (filter P tbl) + of_bool (P ?r) + of_bool (P ?l)" for P
    using filter_update_len [of i "tbl[j := ?r]" P ?l] filter_update_len [of j tbl P ?r] i j ne
    by (simp add: tbl'_def)
  show "Suc (free_entries tbl') = free_entries tbl"
    using count [of "\<lambda>v. \<not> vused v"] i j hv(9,10) [OF vok] by (simp add: free_entries_def)
  show "holders f tbl' = holders f tbl + of_bool (vfile (tbl ! i) = f)"
    using count [of "\<lambda>v. vused v \<and> vfile v = f"] i j hv(9-12) [OF vok] by (simp add: holders_def)
  have M: "M ?r" "M ?l" using M_tid hv(13,14) [OF vok] i(3) unfolding tid_only_def by metis+
  show "cuts M y tbl' + of_bool (y = x) = cuts M y tbl"
    using count [of "\<lambda>v. vused v \<and> M v \<and> astride y v"] i j hv(1-4,9,10) [OF vok] M
    by (cases y x rule: linorder_cases) (auto simp: cuts_def of_bool_def split: if_splits)
qed

lemma cut_view:
  assumes ok: "\<forall>v \<in> set tbl. vma_ok v"
    and i: "i < length tbl" "vused (tbl ! i)" "astride x (tbl ! i)"
    and j: "j < length tbl" "\<not> vused (tbl ! j)"
  shows "vview (tbl[j := right_half x (tbl ! i), i := left_half x (tbl ! i)]) va = vview tbl va"
proof -
  let ?v = "tbl ! i" and ?r = "right_half x (tbl ! i)" and ?l = "left_half x (tbl ! i)"
  define R where "R = {tbl ! k | k. k < length tbl \<and> k \<noteq> i \<and> k \<noteq> j}"
  have ne: "i \<noteq> j" using i j by auto
  have hv: "vma_ok ?v" using ok i by simp
  note h = halves [OF hv i(2,3)]
  have "set (tbl[j := ?r, i := ?l]) = insert ?l (insert ?r R)"
    using i(1) j(1) ne by (auto simp: R_def set_conv_nth nth_list_update)
  moreover have "set tbl = insert ?v (insert (tbl ! j) R)"
    using i(1) j(1) by (auto simp: R_def set_conv_nth)
  moreover have "vone ?v va = vone ?l va \<union> vone ?r va"
    using h i(2,3) by (auto simp: vone_def vhas_def)
  moreover have "vone (tbl ! j) va = {}" using j(2) by (simp add: vone_def)
  ultimately show ?thesis unfolding vview_vone by (simp add: Un_assoc)
qed

section \<open>Cutting all areas at an address\<close>

lemma fs_file_get_at: "f \<noteq> 0 \<Longrightarrow> fs_file_get g refs f = refs f + of_bool (g = f)"
  by (auto simp: fs_file_get_def)

text \<open>The loop over some of the entries: with enough free entries it succeeds, keeps the view and the
  balance of file references, and leaves uncut only what it has not visited.\<close>

lemma split_loop_spec:
  assumes "\<forall>v \<in> set tbl. vma_ok v" and "tid_only M"
    and "cuts M x tbl \<le> free_entries tbl" and "\<forall>i \<in> set is. i < length tbl"
    and "\<forall>i < length tbl. vused (tbl ! i) \<and> M (tbl ! i) \<and> astride x (tbl ! i) \<longrightarrow> i \<in> set is"
  shows "\<exists>tbl' refs'. split_loop M x is (tbl, refs) = ((tbl', refs'), 0) \<and>
    (\<forall>v \<in> set tbl'. vma_ok v) \<and> length tbl' = length tbl \<and> (\<forall>va. vview tbl' va = vview tbl va) \<and>
    cuts M x tbl' = 0 \<and> (\<forall>y. y \<noteq> x \<longrightarrow> cuts M y tbl' = cuts M y tbl) \<and>
    free_entries tbl' + cuts M x tbl = free_entries tbl \<and>
    (\<forall>f. f \<noteq> 0 \<longrightarrow> refs' f - holders f tbl' = refs f - holders f tbl)"
  using assms
proof (induction "is" arbitrary: tbl refs)
  case Nil
  then have "cuts M x tbl = 0" by (auto simp: cuts_def filter_empty_conv in_set_conv_nth)
  then show ?case using Nil by simp
next
  case (Cons i "is")
  let ?v = "tbl ! i"
  have i: "i < length tbl" using Cons.prems(4) by simp
  show ?case
  proof (cases "vused ?v \<and> M ?v \<and> astride x ?v")
    case False
    then have "split_loop M x (i # is) (tbl, refs) = split_loop M x is (tbl, refs)" by (auto simp: Let_def)
    moreover have "\<forall>k < length tbl. vused (tbl ! k) \<and> M (tbl ! k) \<and> astride x (tbl ! k) \<longrightarrow> k \<in> set is"
      using Cons.prems(5) False by auto
    ultimately show ?thesis using Cons.IH [of tbl refs] Cons.prems by simp
  next
    case True
    then have "?v \<in> set (filter (\<lambda>v. vused v \<and> M v \<and> astride x v) tbl)" using i by auto
    then have "0 < cuts M x tbl" unfolding cuts_def by (metis length_pos_if_in_set)
    then have "0 < free_entries tbl" using Cons.prems(3) by simp
    then obtain j where j: "findi (\<lambda>v. \<not> vused v) tbl = Some j"
      by (cases "findi (\<lambda>v. \<not> vused v) tbl") (auto simp: free_entries_def findi_None filter_empty_conv)
    note jd = findi_SomeD [OF j]
    define tbl1 where "tbl1 = tbl[j := right_half x ?v, i := left_half x ?v]"
    have ne: "i \<noteq> j" using True jd by auto
    have e: "split_loop M x (i # is) (tbl, refs) = split_loop M x is (tbl1, fs_file_get (vfile ?v) refs)"
      using True j by (simp add: Let_def tbl1_def right_half_def left_half_def)
    note C = cut_counts [OF Cons.prems(1) i _ _ _ conjunct1 [OF jd] conjunct2 [OF jd] Cons.prems(2), of x,
        folded tbl1_def]
    have ok1: "\<forall>v \<in> set tbl1. vma_ok v" and fr: "Suc (free_entries tbl1) = free_entries tbl"
      and ct: "\<And>y. cuts M y tbl1 + of_bool (y = x) = cuts M y tbl"
      and ho: "\<And>f. holders f tbl1 = holders f tbl + of_bool (vfile ?v = f)"
      using C(1,2,3,4) True by simp_all
    have vw: "vview tbl1 va = vview tbl va" for va
      unfolding tbl1_def using cut_view [OF Cons.prems(1) i] True jd by blast
    have vok: "vma_ok ?v" using Cons.prems(1) i by simp
    have h: "\<not> astride x (left_half x ?v)" "\<not> astride x (right_half x ?v)"
      using halves [OF vok] True by auto
    have "\<forall>k < length tbl1. vused (tbl1 ! k) \<and> M (tbl1 ! k) \<and> astride x (tbl1 ! k) \<longrightarrow> k \<in> set is"
    proof (intro allI impI)
      fix k assume k: "k < length tbl1" and s: "vused (tbl1 ! k) \<and> M (tbl1 ! k) \<and> astride x (tbl1 ! k)"
      have len: "length tbl1 = length tbl" by (simp add: tbl1_def)
      have "k \<noteq> i" "k \<noteq> j" using s h i jd ne len by (auto simp: tbl1_def)
      then show "k \<in> set is" using Cons.prems(5) s k len by (auto simp: tbl1_def)
    qed
    then have pre: "cuts M x tbl1 \<le> free_entries tbl1" "\<forall>k \<in> set is. k < length tbl1"
      "\<forall>k < length tbl1. vused (tbl1 ! k) \<and> M (tbl1 ! k) \<and> astride x (tbl1 ! k) \<longrightarrow> k \<in> set is"
      using Cons.prems(3,4) fr ct [of x] by (simp_all add: tbl1_def)
    then obtain tbl' refs' where T: "split_loop M x is (tbl1, fs_file_get (vfile ?v) refs) = ((tbl', refs'), 0)"
      "\<forall>v \<in> set tbl'. vma_ok v" "length tbl' = length tbl1" "\<forall>va. vview tbl' va = vview tbl1 va"
      "cuts M x tbl' = 0" "\<forall>y. y \<noteq> x \<longrightarrow> cuts M y tbl' = cuts M y tbl1"
      "free_entries tbl' + cuts M x tbl1 = free_entries tbl1"
      "\<forall>f. f \<noteq> 0 \<longrightarrow> refs' f - holders f tbl' = fs_file_get (vfile ?v) refs f - holders f tbl1"
      using Cons.IH [OF ok1 Cons.prems(2), of "fs_file_get (vfile ?v) refs"] pre by blast
    have "cuts M y tbl1 = cuts M y tbl" if "y \<noteq> x" for y using ct [of y] that by simp
    moreover have "free_entries tbl' + cuts M x tbl = free_entries tbl" using T(7) fr ct [of x] by simp
    moreover have "refs' f - holders f tbl' = refs f - holders f tbl" if "f \<noteq> 0" for f
      using T(8) that ho [of f] by (simp add: fs_file_get_at)
    moreover have "length tbl' = length tbl" using T(3) by (simp add: tbl1_def)
    ultimately show ?thesis unfolding e using T(1,2,4,5,6) vw by auto
  qed
qed

section \<open>Clearing and unmapping\<close>

lemma clear_nolock_spec:
  assumes "user_vma_clear_nolock v refs = (v', refs')" and "vused v"
  shows "\<not> vused v'" "f \<noteq> 0 \<Longrightarrow> refs' f = refs f - of_bool (vfile v = f)"
  using assms
  by (auto simp: user_vma_clear_nolock_def user_vma_drop_file_nolock_def fs_file_free_def split: if_splits prod.splits)

lemma clear_loop_spec:
  assumes "clear_loop P tbl refs = (tbl', refs')"
  shows "length tbl' = length tbl \<and> vview tbl' va = (\<Union>v \<in> {v \<in> set tbl. \<not> P v}. vone v va) \<and>
    ((\<forall>v \<in> set tbl. vma_ok v) \<longrightarrow> (\<forall>v \<in> set tbl'. vma_ok v)) \<and>
    (f \<noteq> 0 \<longrightarrow> refs' f - holders f tbl' = refs f - holders f tbl)"
  using assms
proof (induction tbl arbitrary: refs tbl' refs')
  case Nil
  then show ?case by (simp add: vview_vone)
next
  case (Cons v vs)
  obtain v1 refs1 where 1: "(if vused v \<and> P v then user_vma_clear_nolock v refs else (v, refs)) = (v1, refs1)"
    by fastforce
  obtain vs2 refs2 where 2: "clear_loop P vs refs1 = (vs2, refs2)" by fastforce
  have e: "tbl' = v1 # vs2" "refs' = refs2" using Cons.prems 1 2 by simp_all
  note IH = Cons.IH [OF 2]
  have U: "(\<Union>w \<in> {w \<in> set (v # vs). \<not> P w}. vone w va) =
      (if P v then {} else vone v va) \<union> (\<Union>w \<in> {w \<in> set vs. \<not> P w}. vone w va)"
    by auto
  have V: "vview (v1 # vs2) va = vone v1 va \<union> vview vs2 va" by (simp add: vview_vone)
  have H: "holders f (x # xs) = of_bool (vused x \<and> vfile x = f) + holders f xs" for x xs
    by (simp add: holders_def)
  show ?case
  proof (cases "vused v \<and> P v")
    case True
    have c: "\<not> vused v1" "f \<noteq> 0 \<Longrightarrow> refs1 f = refs f - of_bool (vfile v = f)"
      using clear_nolock_spec [of v refs v1 refs1] 1 True by simp_all
    then have "vone v1 va = {}" "vma_ok v1" by (simp_all add: vone_def vma_ok_def)
    then show ?thesis using IH True c unfolding e U V H by simp
  next
    case False
    then have "v1 = v" "refs1 = refs" using 1 by auto
    moreover have "vone v va = {}" if "P v" using False that by (simp add: vone_def)
    ultimately show ?thesis using IH unfolding e U V H by simp
  qed
qed

text \<open>With no area astride either end, the areas that meet a range are those inside it.\<close>

lemma uncut_meets:
  assumes "vma_ok v" "vused v" "\<not> astride addr v" "\<not> astride end' v" "vhas v va"
  shows "meets addr end' v \<longleftrightarrow> addr \<le> va \<and> va < end'"
  using assms vend_ok [OF assms(1,2)] unfolding meets_def vhas_def by auto

lemma cuts_0: "cuts M x tbl = 0 \<longleftrightarrow> (\<forall>v \<in> set tbl. vused v \<and> M v \<longrightarrow> \<not> astride x v)"
  by (auto simp: cuts_def filter_empty_conv)

lemma unmapped_view:
  assumes "\<forall>v \<in> set tbl. vma_ok v" "cuts (\<lambda>v. m (vtid v)) addr tbl = 0" "cuts (\<lambda>v. m (vtid v)) end' tbl = 0"
  shows "(\<Union>v \<in> {v \<in> set tbl. \<not> (m (vtid v) \<and> meets addr end' v)}. vone v va) =
    {x \<in> vview tbl va. \<not> (m (fst x) \<and> addr \<le> va \<and> va < end')}"
proof -
  have E: "m (vtid v) \<and> meets addr end' v \<longleftrightarrow> m (fst x) \<and> addr \<le> va \<and> va < end'"
    if "v \<in> set tbl" "x \<in> vone v va" for v x
  proof -
    have "fst x = vtid v" "vused v" "vhas v va" using that(2) by (auto simp: vone_def split: if_splits)
    then show ?thesis
      using uncut_meets [of v addr end' va] assms that(1) by (cases "m (vtid v)") (auto simp: cuts_0)
  qed
  show ?thesis
    unfolding vview_vone by (rule set_eqI) (use E in \<open>simp, metis\<close>)
qed

text \<open>The cuts at the two ends of a range.\<close>

lemma two_cuts:
  assumes ok: "\<forall>v \<in> set tbl. vma_ok v" and M: "tid_only M"
    and cap: "cuts M addr tbl + cuts M end' tbl \<le> free_entries tbl"
  obtains t1 r1 t2 r2 where "split_loop M addr [0..<length tbl] (tbl, refs) = ((t1, r1), 0)"
    "split_loop M end' [0..<length t1] (t1, r1) = ((t2, r2), 0)"
    "\<forall>v \<in> set t2. vma_ok v" "\<And>va. vview t2 va = vview tbl va" "length t2 = length tbl"
    "cuts M addr t2 = 0" "cuts M end' t2 = 0"
    "\<And>f. f \<noteq> 0 \<Longrightarrow> r2 f - holders f t2 = refs f - holders f tbl"
proof -
  have "cuts M addr tbl \<le> free_entries tbl" using cap by simp
  from split_loop_spec [OF ok M this, of "[0..<length tbl]" refs]
  obtain t1 r1 where 1: "split_loop M addr [0..<length tbl] (tbl, refs) = ((t1, r1), 0)"
    "\<forall>v \<in> set t1. vma_ok v" "length t1 = length tbl" "\<forall>va. vview t1 va = vview tbl va" "cuts M addr t1 = 0"
    "\<forall>y. y \<noteq> addr \<longrightarrow> cuts M y t1 = cuts M y tbl" "free_entries t1 + cuts M addr tbl = free_entries tbl"
    "\<forall>f. f \<noteq> 0 \<longrightarrow> r1 f - holders f t1 = refs f - holders f tbl"
    by auto
  have "cuts M end' t1 \<le> free_entries t1"
    using 1(5,6,7) cap by (cases "end' = addr") auto
  from split_loop_spec [OF 1(2) M this, of "[0..<length t1]" r1]
  obtain t2 r2 where 2: "split_loop M end' [0..<length t1] (t1, r1) = ((t2, r2), 0)"
    "\<forall>v \<in> set t2. vma_ok v" "length t2 = length t1" "\<forall>va. vview t2 va = vview t1 va" "cuts M end' t2 = 0"
    "\<forall>y. y \<noteq> end' \<longrightarrow> cuts M y t2 = cuts M y t1"
    "\<forall>f. f \<noteq> 0 \<longrightarrow> r2 f - holders f t2 = r1 f - holders f t1"
    by auto
  have "cuts M addr t2 = 0" using 1(5) 2(5,6) by (cases "addr = end'") auto
  with 1 2 that show thesis by simp
qed

definition mm_held :: "addr \<Rightarrow> addr \<Rightarrow> vma_state \<Rightarrow> int" where \<comment> \<open>references held by an address space's table\<close>
  "mm_held f mm st = (case mm_table st mm of None \<Rightarrow> 0 | Some vmas \<Rightarrow> holders f vmas)"

definition mm_view :: "addr \<Rightarrow> vma_state \<Rightarrow> addr \<Rightarrow> (nat \<times> int \<times> int \<times> addr \<times> nat) set" where
  "mm_view mm st va = (case mm_table st mm of None \<Rightarrow> {} | Some vmas \<Rightarrow> vview vmas va)"

definition tables_ok :: "vma_state \<Rightarrow> bool" where
  "tables_ok st \<longleftrightarrow> (\<forall>v \<in> set (g_user_vmas st). vma_ok v) \<and>
     (\<forall>mm vmas. vma_storage st mm = Some vmas \<longrightarrow> (\<forall>v \<in> set vmas. vma_ok v))"

lemma tid_only_runs: "tid_only (\<lambda>v. user_vma_tid_matches_runner_mm_nolock ths r (vtid v))"
  by (simp add: tid_only_def)

text \<open>The state after the four cuts: the global table and, if there is one, the address space's.\<close>

lemma unmap_cuts:
  assumes ok: "tables_ok st" and t: "t_mm t \<noteq> 0" and cap: "user_vma_unmap_capacity_nolock (Some t) addr end' st = 0"
  obtains st4 where "unmap_in_mm t addr end' st = (unmap_clear t addr end' st4, 0)"
    "tables_ok st4" "threads st4 = threads st"
    "\<And>va. vview (g_user_vmas st4) va = vview (g_user_vmas st) va"
    "\<And>va. mm_view (t_mm t) st4 va = mm_view (t_mm t) st va"
    "\<And>x. x = addr \<or> x = end' \<Longrightarrow> cuts (runs st (Some t)) x (g_user_vmas st4) = 0"
    "\<And>x vmas. x = addr \<or> x = end' \<Longrightarrow> mm_table st4 (t_mm t) = Some vmas \<Longrightarrow> cuts (\<lambda>_. True) x vmas = 0"
    "\<And>mm. mm \<noteq> t_mm t \<Longrightarrow> vma_storage st4 mm = vma_storage st mm"
    "\<And>f. f \<noteq> 0 \<Longrightarrow> file_refs st4 f - holders f (g_user_vmas st4) - mm_held f (t_mm t) st4 =
       file_refs st f - holders f (g_user_vmas st) - mm_held f (t_mm t) st"
proof -
  let ?M = "runs st (Some t)" and ?T = "\<lambda>_::user_vma. True"
  have okg: "\<forall>v \<in> set (g_user_vmas st). vma_ok v" using ok by (simp add: tables_ok_def)
  have capg: "cuts ?M addr (g_user_vmas st) + cuts ?M end' (g_user_vmas st) \<le> free_entries (g_user_vmas st)"
    using cap by (auto simp: user_vma_unmap_capacity_nolock_def Let_def split: if_splits)
  obtain t1 r1 t2 r2 where G: "split_loop ?M addr [0..<length (g_user_vmas st)] (g_user_vmas st, file_refs st) = ((t1, r1), 0)"
    "split_loop ?M end' [0..<length t1] (t1, r1) = ((t2, r2), 0)"
    "\<forall>v \<in> set t2. vma_ok v" "\<And>va. vview t2 va = vview (g_user_vmas st) va"
    "cuts ?M addr t2 = 0" "cuts ?M end' t2 = 0"
    "\<And>f. f \<noteq> 0 \<Longrightarrow> r2 f - holders f t2 = file_refs st f - holders f (g_user_vmas st)"
    by (rule two_cuts [OF okg tid_only_runs capg, of "file_refs st"]) (rule that; assumption)
  define st2 where "st2 = st\<lparr>g_user_vmas := t2, file_refs := r2\<rparr>"
  have s2: "unmap_in_mm t addr end' st =
      (let (st, rc) = user_vma_split_mm_at_nolock (t_mm t) addr st2
       in if rc \<noteq> 0 then (st, - 1)
          else (let (st, rc) = user_vma_split_mm_at_nolock (t_mm t) end' st
                in if rc \<noteq> 0 then (st, - 1) else (unmap_clear t addr end' st, 0)))"
    using cap G(1,2) by (simp add: unmap_in_mm_def user_vma_split_runner_at_nolock_def st2_def)
  show thesis
  proof (cases "vma_storage st (t_mm t)")
    case None
    have e2: "unmap_in_mm t addr end' st = (unmap_clear t addr end' st2, 0)"
      using None t by (simp add: s2 user_vma_split_mm_at_nolock_def st2_def)
    show thesis
      by (rule that [of st2])
        (use e2 G None ok in \<open>auto simp: st2_def mm_view_def mm_held_def tables_ok_def split: if_splits\<close>)
  next
    case (Some vmas)
    have okm: "\<forall>v \<in> set vmas. vma_ok v" using ok Some t by (auto simp: tables_ok_def)
    have capm: "cuts ?T addr vmas + cuts ?T end' vmas \<le> free_entries vmas"
      using cap Some t by (auto simp: user_vma_unmap_capacity_nolock_def Let_def split: if_splits)
    have T: "tid_only ?T" by (simp add: tid_only_def)
    obtain m1 q1 m2 q2 where Q: "split_loop ?T addr [0..<length vmas] (vmas, r2) = ((m1, q1), 0)"
      "split_loop ?T end' [0..<length m1] (m1, q1) = ((m2, q2), 0)"
      "\<forall>v \<in> set m2. vma_ok v" "\<And>va. vview m2 va = vview vmas va" "cuts ?T addr m2 = 0" "cuts ?T end' m2 = 0"
      "\<And>f. f \<noteq> 0 \<Longrightarrow> q2 f - holders f m2 = r2 f - holders f vmas"
      by (rule two_cuts [OF okm T capm, of r2]) (rule that; assumption)
    define st4 where "st4 = st2\<lparr>vma_storage := (vma_storage st)(t_mm t \<mapsto> m2), file_refs := q2\<rparr>"
    have e4: "unmap_in_mm t addr end' st = (unmap_clear t addr end' st4, 0)"
      using Some t Q(1,2) by (simp add: s2 user_vma_split_mm_at_nolock_def st2_def st4_def)
    have b4: "file_refs st4 f - holders f (g_user_vmas st4) - mm_held f (t_mm t) st4 =
       file_refs st f - holders f (g_user_vmas st) - mm_held f (t_mm t) st" if "f \<noteq> 0" for f
      using G(7) [OF that] Q(7) [OF that] Some t by (simp add: st4_def st2_def mm_held_def)
    have k4: "tables_ok st4"
      using G(3) Q(3) ok by (auto simp: tables_ok_def st4_def st2_def split: if_splits)
    have v4: "mm_view (t_mm t) st4 va = mm_view (t_mm t) st va" for va
      using Q(4) Some t by (simp add: st4_def mm_view_def)
    have c4: "cuts ?T x vmas' = 0" if "x = addr \<or> x = end'" "mm_table st4 (t_mm t) = Some vmas'" for x vmas'
      using Q(5,6) that t by (auto simp: st4_def)
    show thesis
      by (rule that [of st4, OF e4 k4 _ _ v4 _ c4 _ b4])
        (use G(4-6) in \<open>auto simp: st4_def st2_def\<close>)
  qed
qed

section \<open>A small address space\<close>

text \<open>One thread with one file mapping, in both tables.\<close>

definition demo_vma :: user_vma where
  "demo_vma = (new_vma 1 0x400000 0x3000 3 1)\<lparr>vfile := 7, vfile_off := 0x8000\<rparr>"

definition demo_thread :: vthread where
  "demo_thread = \<lparr>t_tid = 1, t_ring = 3, t_mm = 100\<rparr>"

definition demo_vmas :: vma_state where
  "demo_vmas = \<lparr>g_user_vmas = [demo_vma, vma_zero, vma_zero],
     vma_storage = [100 \<mapsto> [demo_vma\<lparr>vtid := 0\<rparr>, vma_zero, vma_zero]],
     file_refs = (\<lambda>_. 0)(7 := 3), threads = [None, Some demo_thread]\<rparr>"

lemmas vma_eval = demo_vmas_def demo_vma_def demo_thread_def new_vma_def vma_zero_def thread_get_def s32_def
  user_vma_tid_matches_runner_mm_nolock_def

lemma demo_vmas_ok: "tables_ok demo_vmas" "owner_of demo_vmas 1 = Some demo_thread" "t_mm demo_thread \<noteq> 0"
  by (auto simp: tables_ok_def vma_ok_def vma_eval split: if_splits)

end
