(* ===== verification/UserVma_Room.thy ===== *)
theory UserVma_Room
  imports UserVma_Thms
begin

text \<open>
  The two searches for a free range. Both jump from one blocking area past another, in at most
  \<open>USER_VMA_MAX + 16\<close> rounds; every round leaves at least one area of the table behind for good, so
  the bound is never what ends a search, and no aligned place that fits is jumped over.
\<close>

section \<open>Free places\<close>

abbreviation area :: "vma_state \<Rightarrow> vthread option \<Rightarrow> user_vma \<Rightarrow> bool" where
  "area st runner v \<equiv> v \<in> set (g_user_vmas st) \<and> vused v \<and> runs st runner v"

definition free_at :: "vma_state \<Rightarrow> vthread option \<Rightarrow> nat \<Rightarrow> addr \<Rightarrow> bool" where
  "free_at st runner len c \<longleftrightarrow> (\<forall>v. area st runner v \<longrightarrow> vaddr v + vlen v \<le> c \<or> c + len \<le> vaddr v)"

definition low_areas :: "vma_state \<Rightarrow> vthread option \<Rightarrow> bool" where \<comment> \<open>canonical user addresses\<close>
  "low_areas st runner \<longleftrightarrow> (\<forall>v. area st runner v \<longrightarrow> vaddr v + vlen v \<le> 2 ^ 48)"

lemma low_vend: "low_areas st runner \<Longrightarrow> area st runner v \<Longrightarrow> vend v = vaddr v + vlen v"
  by (auto simp: low_areas_def intro!: add64_id)

lemma clashes_low:
  assumes "low_areas st runner" "area st runner v"
  shows "clashes c (c + len) v \<longleftrightarrow> \<not> (vaddr v + vlen v \<le> c \<or> c + len \<le> vaddr v)"
  using low_vend [OF assms] by (auto simp: clashes_def)

lemma fold_max:
  fixes g :: "'a \<Rightarrow> nat" and P :: "'a \<Rightarrow> bool"
  shows "(\<forall>v \<in> set vs. P v \<longrightarrow> g v \<le> fold (\<lambda>v e. if P v \<and> g v > e then g v else e) vs e0) \<and>
    e0 \<le> fold (\<lambda>v e. if P v \<and> g v > e then g v else e) vs e0 \<and>
    (fold (\<lambda>v e. if P v \<and> g v > e then g v else e) vs e0 = e0 \<or>
     (\<exists>v \<in> set vs. P v \<and> fold (\<lambda>v e. if P v \<and> g v > e then g v else e) vs e0 = g v))"
proof (induction vs arbitrary: e0)
  case (Cons v vs)
  show ?case using Cons.IH [of "if P v \<and> g v > e0 then g v else e0"] by auto
qed simp

lemma overlap_end_spec:
  assumes low: "low_areas st runner" and b: "c + len < 2 ^ 64" and len: "0 < len"
  defines "e \<equiv> user_vma_overlap_end_nolock runner c len st"
  shows "e = 0 \<longleftrightarrow> free_at st runner len c"
    "e \<noteq> 0 \<Longrightarrow> \<exists>v. area st runner v \<and> e = vaddr v + vlen v \<and> c < e \<and> vaddr v < c + len"
proof -
  let ?P = "\<lambda>v. vused v \<and> runs st runner v \<and> clashes c (c + len) v"
  have e: "e = fold (\<lambda>v e. if ?P v \<and> vend v > e then vend v else e) (g_user_vmas st) 0"
    using b by (simp add: e_def user_vma_overlap_end_nolock_def add64_id Let_def conj_assoc)
  note F = fold_max [where P = ?P and g = vend and vs = "g_user_vmas st" and ?e0.0 = 0, folded e]
  have hit: "vaddr v + vlen v > c \<and> vaddr v < c + len \<and> vend v = vaddr v + vlen v"
    if "v \<in> set (g_user_vmas st)" "?P v" for v
    using clashes_low [OF low, of v c len] low_vend [OF low, of v] that by auto
  show "e = 0 \<longleftrightarrow> free_at st runner len c"
  proof
    assume "e = 0"
    then have "\<not> ?P v" if "v \<in> set (g_user_vmas st)" for v using F hit that by fastforce
    then show "free_at st runner len c" using clashes_low [OF low] by (auto simp: free_at_def)
  next
    assume "free_at st runner len c"
    then have "\<not> ?P v" if "v \<in> set (g_user_vmas st)" for v
      using clashes_low [OF low] that by (auto simp: free_at_def)
    then show "e = 0" using F by blast
  qed
  show "\<exists>v. area st runner v \<and> e = vaddr v + vlen v \<and> c < e \<and> vaddr v < c + len" if "e \<noteq> 0"
    using F that hit by metis
qed

lemma align_up64_least:
  assumes "k < 64" "v + (2 ^ k - 1) < 2 ^ 64" "2 ^ k dvd c" "v \<le> c"
  shows "align_up64 v (2 ^ k) \<le> c"
proof -
  obtain q where q: "c = 2 ^ k * q" using assms(3) by blast
  have "2 ^ k * (q + 1) = c + 2 ^ k" "0 < (2::nat) ^ k" using q by simp_all
  then have "v + (2 ^ k - 1) < 2 ^ k * (q + 1)" using assms(4) by linarith
  then have "(v + (2 ^ k - 1)) div 2 ^ k < q + 1" by (simp add: less_mult_imp_div_less mult.commute)
  then show ?thesis using q by (simp add: align_up64_pow2 [OF assms(1,2)])
qed

lemma align_up64_dvd: "k < 64 \<Longrightarrow> 2 ^ k dvd align_up64 v (2 ^ k)"
  unfolding align_up64_def by (rule align_down64_dvd [OF add64_bound])

lemma fix_align_pow2: "12 \<le> k \<Longrightarrow> k < 64 \<Longrightarrow> fix_align (2 ^ k) = 2 ^ k"
proof -
  assume k: "12 \<le> k" "k < 64"
  have "(2 :: 64 word) ^ k AND (2 ^ k - 1) = take_bit k (2 ^ k)"
    by (simp add: take_bit_eq_mask mask_eq_exp_minus_1)
  also have "\<dots> = 0" by (rule bit_word_eqI) (auto simp: bit_simps)
  finally have "(2 :: 64 word) ^ k AND (2 ^ k - 1) = 0" .
  moreover have "(2::nat) ^ 12 \<le> 2 ^ k" using k(1) by (rule power_increasing) simp
  ultimately show ?thesis by (simp add: fix_align_def Let_def)
qed

section \<open>Bottom up\<close>

text \<open>What is still ahead of the candidate.\<close>

definition ahead :: "vma_state \<Rightarrow> vthread option \<Rightarrow> addr \<Rightarrow> nat" where
  "ahead st runner c = length (filter (\<lambda>v. vused v \<and> runs st runner v \<and> c < vaddr v + vlen v) (g_user_vmas st))"

lemma filter_less:
  assumes "\<And>x. P x \<Longrightarrow> Q x" "x \<in> set xs" "Q x" "\<not> P x"
  shows "length (filter P xs) < length (filter Q xs)"
  using assms(2-4)
proof (induction xs)
  case (Cons y ys)
  have "length (filter P ys) \<le> length (filter Q ys)" using assms(1) by (induction ys) auto
  then show ?case using Cons assms(1) [of y] by auto
qed simp

lemma ahead_less:
  assumes "area st runner v" "c < vaddr v + vlen v" "vaddr v + vlen v \<le> c'" "c \<le> c'"
  shows "ahead st runner c' < ahead st runner c"
  unfolding ahead_def by (rule filter_less [where x = v]) (use assms in auto)

lemma find_loop_spec:
  assumes low: "low_areas st runner" and k: "k \<le> 48" and c: "ceil \<le> 2 ^ 48" and len: "0 < len" "len \<le> ceil"
  assumes "2 ^ k dvd cand" "0 < cand" "cand \<le> 2 ^ 49" "ahead st runner cand < n"
  defines "r \<equiv> find_loop n runner ceil len (2 ^ k) st cand"
  shows "(r \<noteq> 0 \<longrightarrow> cand \<le> r \<and> 2 ^ k dvd r \<and> r + len \<le> ceil \<and> free_at st runner len r) \<and>
    (r = 0 \<longrightarrow> (\<forall>p. cand \<le> p \<and> 2 ^ k dvd p \<and> p + len \<le> ceil \<longrightarrow> \<not> free_at st runner len p))"
  unfolding r_def using assms(6-9)
proof (induction n arbitrary: cand)
  case (Suc n)
  have w: "cand + len < 2 ^ 64" using Suc.prems(3) c len by simp
  show ?case
  proof (cases "cand \<ge> ceil \<or> cand + len > ceil")
    case True
    then show ?thesis using len w by (auto simp: add64_id)
  next
    case fits: False
    define e where "e = user_vma_overlap_end_nolock runner cand len st"
    note E = overlap_end_spec [OF low w len(1), folded e_def]
    show ?thesis
    proof (cases "e = 0")
      case True
      then show ?thesis using E(1) fits Suc.prems w by (auto simp: add64_id e_def)
    next
      case False
      obtain v where v: "area st runner v" "e = vaddr v + vlen v" "cand < e" "vaddr v < cand + len"
        using E(2) [OF False] by blast
      have e48: "e \<le> 2 ^ 48" using low v(1,2) by (auto simp: low_areas_def)
      define nx where "nx = align_up64 e (2 ^ k)"
      have k48: "(2::nat) ^ k \<le> 2 ^ 48" using k by (rule power_increasing) simp
      have b: "e + (2 ^ k - 1) < 2 ^ 64" "k < 64" using e48 k48 k by simp_all
      have nx: "e \<le> nx" "2 ^ k dvd nx" using align_up64_ge [OF b(2,1)] align_up64_dvd [OF b(2)] by (simp_all add: nx_def)
      have "nx \<le> e + 2 ^ k"
        unfolding nx_def align_up64_pow2 [OF b(2,1)]
        using div_times_less_eq_dividend [of "e + (2 ^ k - 1)" "2 ^ k"] by linarith
      then have nx49: "nx \<le> 2 ^ 49" using e48 k48 by simp
      have step: "find_loop (Suc n) runner ceil len (2 ^ k) st cand = find_loop n runner ceil len (2 ^ k) st nx"
        using fits False w e48 nx(1) v(3) by (simp add: add64_id Let_def e_def [symmetric] nx_def [symmetric])
      have "ahead st runner nx < ahead st runner cand" using ahead_less [OF v(1)] v(2,3) nx(1) by simp
      then have IH: "let r = find_loop n runner ceil len (2 ^ k) st nx in
          (r \<noteq> 0 \<longrightarrow> nx \<le> r \<and> 2 ^ k dvd r \<and> r + len \<le> ceil \<and> free_at st runner len r) \<and>
          (r = 0 \<longrightarrow> (\<forall>p. nx \<le> p \<and> 2 ^ k dvd p \<and> p + len \<le> ceil \<longrightarrow> \<not> free_at st runner len p))"
        using Suc.IH [of nx] nx nx49 v(3) Suc.prems(4) by (simp add: Let_def)
      have jump: "\<not> free_at st runner len p" if "cand \<le> p" "p < nx" "2 ^ k dvd p" for p
      proof -
        have "p < e" using align_up64_least [OF b(2,1) that(3)] that(2) by (metis nx_def not_le)
        then show ?thesis using v that(1) by (auto simp: free_at_def)
      qed
      have "cand \<le> nx" using nx(1) v(3) by simp
      with IH jump show ?thesis unfolding step Let_def by (meson le_trans not_le)
    qed
  qed
qed simp

text \<open>C30. The bottom-up search is right in both directions. A non-zero result is aligned, lies between
  the bounds and meets no area of the address space; 0 means that no aligned place between the
  bounds is free. The round limit never cuts the search short.\<close>

theorem user_vma_find_unmapped_correct:
  assumes low: "low_areas st (Some t)" and size: "length (g_user_vmas st) \<le> USER_VMA_MAX"
    and k: "12 \<le> k" "k \<le> 48" and b: "0 < floor" "floor < ceil" "ceil \<le> 2 ^ 48" and len: "0 < len"
    and r: "r = user_vma_find_unmapped (Some t) floor ceil len hint (2 ^ k) st"
  shows "(r \<noteq> 0 \<longrightarrow> 2 ^ k dvd r \<and> floor \<le> r \<and> r + len \<le> ceil \<and> free_at st (Some t) len r) \<and>
    (r = 0 \<longrightarrow> (\<forall>p. 2 ^ k dvd p \<and> floor \<le> p \<and> p + len \<le> ceil \<longrightarrow> \<not> free_at st (Some t) len p))"
proof (cases "len > ceil - floor")
  case True
  then show ?thesis using b by (auto simp: r user_vma_find_unmapped_def)
next
  case fits: False
  define h where "h = align_up64 hint (2 ^ k)"
  let ?take = "hint \<noteq> 0 \<and> h \<ge> floor \<and> add64 h len \<le> ceil \<and> add64 h len \<ge> h \<and>
    user_vma_overlap_end_nolock (Some t) h len st = 0"
  have k64: "k < 64" using k by simp
  show ?thesis
  proof (cases ?take)
    case True
    have "h < 2 ^ 64" "len < 2 ^ 64" using align_up64_bound fits b by (auto simp: h_def)
    then have "h + len < 2 ^ 64" using True add64_less_iff [of h len] by (metis not_le)
    moreover from this have "free_at st (Some t) len h" using overlap_end_spec(1) [OF low _ len, of h] True by simp
    moreover have "r = h" using True fits b len k64 k
      by (simp add: r user_vma_find_unmapped_def fix_align_pow2 h_def)
    moreover have "2 ^ k dvd h" using align_up64_dvd [OF k64] by (simp add: h_def)
    ultimately show ?thesis using True b by (simp add: add64_id)
  next
    case False
    define c where "c = align_up64 floor (2 ^ k)"
    have k48: "(2::nat) ^ k \<le> 2 ^ 48" using k(2) by (rule power_increasing) simp
    have w: "floor + (2 ^ k - 1) < 2 ^ 64" using b k48 by simp
    have c: "floor \<le> c" "2 ^ k dvd c" using align_up64_ge [OF k64 w] align_up64_dvd [OF k64] by (simp_all add: c_def)
    have "c \<le> floor + 2 ^ k" unfolding c_def align_up64_pow2 [OF k64 w]
      using div_times_less_eq_dividend [of "floor + (2 ^ k - 1)" "2 ^ k"] by linarith
    then have c49: "c \<le> 2 ^ 49" using b k48 by simp
    have "ahead st (Some t) c \<le> length (g_user_vmas st)" by (simp add: ahead_def)
    then have n: "ahead st (Some t) c < USER_VMA_MAX + 16" using size by simp
    have "0 < c" "len \<le> ceil" using c(1) b fits by simp_all
    note F = find_loop_spec [OF low k(2) b(3) len this(2) c(2) this(1) c49 n]
    have "r = find_loop (USER_VMA_MAX + 16) (Some t) ceil len (2 ^ k) st c"
      using False fits b len k64 k by (auto simp: r user_vma_find_unmapped_def fix_align_pow2 h_def c_def Let_def)
    with F have R: "(r \<noteq> 0 \<longrightarrow> c \<le> r \<and> 2 ^ k dvd r \<and> r + len \<le> ceil \<and> free_at st (Some t) len r) \<and>
      (r = 0 \<longrightarrow> (\<forall>p. c \<le> p \<and> 2 ^ k dvd p \<and> p + len \<le> ceil \<longrightarrow> \<not> free_at st (Some t) len p))"
      by simp
    have "c \<le> p" if "2 ^ k dvd p" "floor \<le> p" for p
      using align_up64_least [OF k64 w that] by (simp add: c_def)
    then show ?thesis using R c(1) le_trans by blast
  qed
qed

lemma demo_low: "low_areas demo_vmas (Some demo_thread)" "\<forall>v. area demo_vmas (Some demo_thread) v \<longrightarrow> vaddr v \<noteq> 0"
  "length (g_user_vmas demo_vmas) \<le> USER_VMA_MAX"
  by (auto simp: low_areas_def vma_eval USER_VMA_MAX_def)

theorem user_vma_find_unmapped_correct_witness:
  "user_vma_find_unmapped (Some demo_thread) 0x400000 0x500000 0x2000 0 4096 demo_vmas \<noteq> 0"
proof -
  have "free_at demo_vmas (Some demo_thread) 0x2000 0x404000"
    by (auto simp: free_at_def vma_eval)
  then show ?thesis
    using conjunct2 [OF user_vma_find_unmapped_correct [OF demo_low(1,3), where k = 12 and floor = "0x400000"
      and ceil = "0x500000" and len = "0x2000" and hint = 0, OF _ _ _ _ _ _ refl], rule_format, of "0x404000"]
    by (intro notI) simp
qed

section \<open>Top down\<close>

lemma fold_min:
  fixes g :: "'a \<Rightarrow> nat" and P :: "'a \<Rightarrow> bool"
  defines "F \<equiv> fold (\<lambda>v m. if P v \<and> (m = None \<or> g v < the m) then Some (g v) else m)"
  shows "case F vs m0 of
      None \<Rightarrow> m0 = None \<and> (\<forall>v \<in> set vs. \<not> P v)
    | Some m \<Rightarrow> (\<forall>v \<in> set vs. P v \<longrightarrow> m \<le> g v) \<and> (\<forall>n. m0 = Some n \<longrightarrow> m \<le> n) \<and>
        (m0 = Some m \<or> (\<exists>v \<in> set vs. P v \<and> m = g v))"
proof (induction vs arbitrary: m0)
  case Nil
  show ?case by (simp add: F_def split: option.split)
next
  case (Cons v vs)
  define m1 where "m1 = (if P v \<and> (m0 = None \<or> g v < the m0) then Some (g v) else m0)"
  have "F (v # vs) m0 = F vs m1" by (simp add: F_def m1_def)
  then show ?case using Cons.IH [of m1]
    by (cases "F vs m1"; cases m0) (auto simp: m1_def split: if_splits)
qed

lemma overlap_start_spec:
  assumes low: "low_areas st runner" and z: "\<forall>v. area st runner v \<longrightarrow> vaddr v \<noteq> 0"
    and b: "c + len < 2 ^ 64"
  defines "e \<equiv> user_vma_overlap_start_nolock runner c len st"
  shows "e = 0 \<longleftrightarrow> free_at st runner len c"
    "e \<noteq> 0 \<Longrightarrow> \<exists>v. area st runner v \<and> e = vaddr v \<and> c < vaddr v + vlen v \<and> e < c + len"
proof -
  let ?P = "\<lambda>v. vused v \<and> runs st runner v \<and> clashes c (c + len) v"
  define m where "m = fold (\<lambda>v m. if ?P v \<and> (m = None \<or> vaddr v < the m) then Some (vaddr v) else m)
    (g_user_vmas st) None"
  have e: "e = (case m of None \<Rightarrow> 0 | Some s \<Rightarrow> s)"
    using b by (simp add: e_def user_vma_overlap_start_nolock_def add64_id Let_def conj_assoc m_def)
  note F = fold_min [where P = ?P and g = vaddr and vs = "g_user_vmas st" and ?m0.0 = None, folded m_def]
  have hit: "?P v \<longleftrightarrow> area st runner v \<and> c < vaddr v + vlen v \<and> vaddr v < c + len"
    if "v \<in> set (g_user_vmas st)" for v
    using clashes_low [OF low, of v c len] that by auto
  have free: "free_at st runner len c \<longleftrightarrow> (\<forall>v \<in> set (g_user_vmas st). \<not> ?P v)"
    using hit by (auto simp: free_at_def not_le [symmetric])
  show "e = 0 \<longleftrightarrow> free_at st runner len c"
    unfolding free using F z by (cases m) (auto simp: e)
  show "\<exists>v. area st runner v \<and> e = vaddr v \<and> c < vaddr v + vlen v \<and> e < c + len" if "e \<noteq> 0"
    using F that hit by (cases m) (auto simp: e)
qed

definition below :: "vma_state \<Rightarrow> vthread option \<Rightarrow> addr \<Rightarrow> nat" where
  "below st runner c = length (filter (\<lambda>v. vused v \<and> runs st runner v \<and> vaddr v < c) (g_user_vmas st))"

lemma align_down64_greatest:
  assumes "k < 64" "v < 2 ^ 64" "2 ^ k dvd c" "c \<le> v"
  shows "c \<le> align_down64 v (2 ^ k)"
  using assms div_le_mono [OF assms(4), of "2 ^ k"] by (auto simp: align_down64_pow2)

lemma topdown_loop_spec:
  assumes low: "low_areas st runner" and z: "\<forall>v. area st runner v \<longrightarrow> vaddr v \<noteq> 0"
    and k: "k < 64" and c: "ceil \<le> 2 ^ 48" "0 < floor" "floor + len \<le> ceil"
  assumes "2 ^ k dvd cand" "cand + len \<le> ceil" "below st runner (cand + len) < n"
  defines "r \<equiv> topdown_loop n runner floor ceil len (2 ^ k) st cand"
  shows "(r \<noteq> 0 \<longrightarrow> r \<le> cand \<and> 2 ^ k dvd r \<and> floor \<le> r \<and> free_at st runner len r) \<and>
    (r = 0 \<longrightarrow> (\<forall>p. p \<le> cand \<and> 2 ^ k dvd p \<and> floor \<le> p \<longrightarrow> \<not> free_at st runner len p))"
  unfolding r_def using assms(7-9)
proof (induction n arbitrary: cand)
  case (Suc n)
  have w: "cand + len < 2 ^ 64" "floor + len < 2 ^ 64" using Suc.prems(2) c by simp_all
  show ?case
  proof (cases "cand < floor")
    case True
    then show ?thesis by auto
  next
    case hi: False
    define e where "e = user_vma_overlap_start_nolock runner cand len st"
    note E = overlap_start_spec [OF low z w(1), folded e_def]
    show ?thesis
    proof (cases "e = 0")
      case True
      then show ?thesis using E(1) hi Suc.prems w c by (auto simp: add64_id e_def)
    next
      case False
      obtain v where v: "area st runner v" "e = vaddr v" "cand < vaddr v + vlen v" "e < cand + len"
        using E(2) [OF False] by blast
      have blocks: "\<not> free_at st runner len p" if "p \<le> cand" "e < p + len" for p
        using v that by (auto simp: free_at_def)
      have e64: "e < 2 ^ 64 - 1" using v(4) Suc.prems(2) c by simp
      show ?thesis
      proof (cases "e < floor + len")
        case True
        then have "topdown_loop (Suc n) runner floor ceil len (2 ^ k) st cand = 0"
          using hi Suc.prems(2) w False by (simp add: add64_id Let_def e_def [symmetric])
        then show ?thesis using blocks True by auto
      next
        case room: False
        define nx where "nx = align_down64 (e - len) (2 ^ k)"
        have nl: "nx \<le> e - len" "2 ^ k dvd nx"
          using align_down64_le [OF _ k, of "e - len"] align_down64_dvd [OF _ k, of "e - len"] e64
          by (simp_all add: nx_def)
        have lt: "nx < cand" "nx + len \<le> e" using nl(1) v(4) room by simp_all
        have step: "topdown_loop (Suc n) runner floor ceil len (2 ^ k) st cand =
            topdown_loop n runner floor ceil len (2 ^ k) st nx"
          using hi Suc.prems(2) w False e64 room lt
          by (simp add: add64_id sub64_id Let_def e_def [symmetric] nx_def [symmetric])
        have "below st runner (nx + len) < below st runner (cand + len)"
          unfolding below_def by (rule filter_less [where x = v]) (use v lt in auto)
        then have IH: "let r = topdown_loop n runner floor ceil len (2 ^ k) st nx in
            (r \<noteq> 0 \<longrightarrow> r \<le> nx \<and> 2 ^ k dvd r \<and> floor \<le> r \<and> free_at st runner len r) \<and>
            (r = 0 \<longrightarrow> (\<forall>p. p \<le> nx \<and> 2 ^ k dvd p \<and> floor \<le> p \<longrightarrow> \<not> free_at st runner len p))"
          using Suc.IH [of nx] nl(2) lt Suc.prems(2,3) by (simp add: Let_def)
        have jump: "\<not> free_at st runner len p" if "p \<le> cand" "nx < p" "2 ^ k dvd p" for p
        proof -
          have "e - len < 2 ^ 64" using e64 by simp
          then have "e - len < p" using align_down64_greatest [OF k _ that(3)] that(2) by (metis nx_def not_le)
          then show ?thesis using blocks [OF that(1)] by simp
        qed
        have "nx \<le> cand" using lt by simp
        with IH jump show ?thesis unfolding step Let_def by (meson le_trans not_le)
      qed
    qed
  qed
qed simp

text \<open>C31. The top-down search is right in both directions, as long as no area of the address space
  starts at address 0: a non-zero result is an aligned free place between the bounds, and 0 means
  that there is none.\<close>

theorem user_vma_find_unmapped_topdown_correct:
  assumes low: "low_areas st (Some t)" and z: "\<forall>v. area st (Some t) v \<longrightarrow> vaddr v \<noteq> 0"
    and size: "length (g_user_vmas st) \<le> USER_VMA_MAX"
    and k: "12 \<le> k" "k \<le> 48" and b: "0 < floor" "floor < ceil" "ceil \<le> 2 ^ 48" and len: "0 < len"
    and r: "r = user_vma_find_unmapped_topdown (Some t) floor ceil len (2 ^ k) st"
  shows "(r \<noteq> 0 \<longrightarrow> 2 ^ k dvd r \<and> floor \<le> r \<and> r + len \<le> ceil \<and> free_at st (Some t) len r) \<and>
    (r = 0 \<longrightarrow> (\<forall>p. 2 ^ k dvd p \<and> floor \<le> p \<and> p + len \<le> ceil \<longrightarrow> \<not> free_at st (Some t) len p))"
proof (cases "len > ceil - floor")
  case True
  then show ?thesis using b by (auto simp: r user_vma_find_unmapped_topdown_def)
next
  case fits: False
  have k64: "k < 64" using k by simp
  define c where "c = align_down64 (ceil - len) (2 ^ k)"
  have bl: "ceil - len < 2 ^ 64" "ceil < 2 ^ 64" using b by simp_all
  have c: "c \<le> ceil - len" "2 ^ k dvd c"
    using align_down64_le [OF bl(1) k64] align_down64_dvd [OF bl(1) k64] by (simp_all add: c_def)
  have cl: "c + len \<le> ceil" "floor + len \<le> ceil" using c(1) fits b by linarith+
  have "r = topdown_loop (USER_VMA_MAX + 16) (Some t) floor ceil len (2 ^ k) st c"
    using fits b len k64 k cl bl
    by (simp add: r user_vma_find_unmapped_topdown_def fix_align_pow2 Let_def sub64_id c_def [symmetric] add64_id)
  moreover have "below st (Some t) (c + len) \<le> length (g_user_vmas st)" by (simp add: below_def)
  then have "below st (Some t) (c + len) < USER_VMA_MAX + 16" using size by simp
  note F = topdown_loop_spec [OF low z k64 b(3,1) cl(2) c(2) cl(1) this]
  ultimately have R: "(r \<noteq> 0 \<longrightarrow> r \<le> c \<and> 2 ^ k dvd r \<and> floor \<le> r \<and> free_at st (Some t) len r) \<and>
    (r = 0 \<longrightarrow> (\<forall>p. p \<le> c \<and> 2 ^ k dvd p \<and> floor \<le> p \<longrightarrow> \<not> free_at st (Some t) len p))"
    using F by simp
  have "p \<le> c" if "2 ^ k dvd p" "p + len \<le> ceil" for p
    using align_down64_greatest [OF k64 bl(1) that(1)] that(2) by (simp add: c_def)
  moreover have "p + len \<le> ceil" if "p \<le> c" for p using that cl(1) by linarith
  ultimately show ?thesis using R by blast
qed

theorem user_vma_find_unmapped_topdown_correct_witness:
  "user_vma_find_unmapped_topdown (Some demo_thread) 0x400000 0x500000 0x2000 4096 demo_vmas \<noteq> 0"
proof -
  have "free_at demo_vmas (Some demo_thread) 0x2000 0x404000"
    by (auto simp: free_at_def vma_eval)
  then show ?thesis
    using conjunct2 [OF user_vma_find_unmapped_topdown_correct [OF demo_low, where k = 12 and floor = "0x400000"
      and ceil = "0x500000" and len = "0x2000", OF _ _ _ _ _ _ refl], rule_format, of "0x404000"]
    by (intro notI) simp
qed

end
