(* ===== verification/UserVma_Fault.thy ===== *)
theory UserVma_Fault
  imports UserVma_Room
begin

text \<open>
  Demand faults, the last part of \<open>mm/user_vma.c\<close>. A handler decides from the areas whether it takes
  the fault and then calls the page-table code, each call of which may fail. The model gives the
  calls in order with the handler's answer; whether a call succeeds, what a file's size is and what
  \<open>fs_read\<close> returns are fields of \<open>fault_world\<close>. The debugging output is left out.
\<close>

section \<open>The calls\<close>

definition USER_STACK_TOP :: nat where "USER_STACK_TOP = 0x60000000"
definition PAGE_SIZE_2M :: nat where "PAGE_SIZE_2M = 0x200000"

datatype fault_call =
    pagecache_get addr nat
  | mm_map_user_page addr bool bool \<comment> \<open>the page, writable, not executable\<close>
  | frame_release_cached addr nat
  | map_page_2m addr
  | user_map_mark_identity_2m addr addr
  | zero_fill addr nat
  | mm_copy_to_user addr "byte list"
  | copy_identity addr "byte list"
  | mm_privatize_identity_range_blank addr addr
  | mm_make_private_range_noyield addr addr
  | mm_clear_range_private addr addr
  | user_map_mprotect_range addr addr int

record fault_world =
  fw_ok :: "fault_call \<Rightarrow> bool"
  fw_size :: "addr \<Rightarrow> nat"
  fw_read :: "addr \<Rightarrow> nat \<Rightarrow> nat \<Rightarrow> byte list option" \<comment> \<open>file, count, offset; \<open>None\<close> for an error\<close>
  fw_priv :: bool \<comment> \<open>the thread's page table is there and is not the kernel's\<close>
  fw_proc :: bool \<comment> \<open>the thread has an address space of its own with a page table\<close>

definition call :: "fault_world \<Rightarrow> fault_call \<Rightarrow> fault_call list \<times> bool \<Rightarrow> fault_call list \<times> bool" where
  "call w c rest = (if fw_ok w c then (c # fst rest, snd rest) else ([c], False))"

definition call_void :: "fault_call \<Rightarrow> fault_call list \<times> bool \<Rightarrow> fault_call list \<times> bool" where
  "call_void c rest = (c # fst rest, snd rest)"

section \<open>The handlers\<close>

definition user_vma_map_shared_file_page :: "fault_world \<Rightarrow> vthread \<Rightarrow> user_vma \<Rightarrow> addr \<Rightarrow> fault_call list \<times> bool" where
  "user_vma_map_shared_file_page w t hit lo =
     (if t_mm t = 0 \<or> vfile hit = 0 \<or> \<not> fw_priv w \<or> lo < vaddr hit then ([], False)
      else
        (let foff = add64 (vfile_off hit) (sub64 lo (vaddr hit));
             m = mm_map_user_page lo (vprot hit AND 2 \<noteq> 0) (vprot hit AND 4 = 0)
         in call w (pagecache_get (vfile hit) foff)
              (if fw_ok w m then ([m], True) else ([m, frame_release_cached (vfile hit) foff], False))))"

definition page_buffer :: "fault_world \<Rightarrow> addr \<Rightarrow> nat \<Rightarrow> byte list option" where \<comment> \<open>\<open>kbuf\<close>\<close>
  "page_buffer w f foff =
     (if foff < fw_size w f then
        (let avail = sub64 (fw_size w f) foff; n = (if avail < 0x1000 then avail else 0x1000)
         in case fw_read w f n foff of
              None \<Rightarrow> None
            | Some bs \<Rightarrow> Some (bs @ replicate (0x1000 - length bs) 0))
      else Some (replicate 0x1000 0))"

definition user_vma_fill_file_page :: "fault_world \<Rightarrow> user_vma \<Rightarrow> addr \<Rightarrow> fault_call list \<times> bool" where
  "user_vma_fill_file_page w hit lo =
     (if vfile hit = 0 then ([], True)
      else if lo < vaddr hit then ([], False)
      else
        (case page_buffer w (vfile hit) (add64 (vfile_off hit) (sub64 lo (vaddr hit))) of
           None \<Rightarrow> ([], False)
         | Some kbuf \<Rightarrow>
             if fw_proc w then call w (mm_copy_to_user lo kbuf) ([], True)
             else ([copy_identity lo kbuf], True)))"

definition both :: "fault_call list \<times> bool \<Rightarrow> fault_call list \<times> bool \<Rightarrow> fault_call list \<times> bool" where
  "both a b = (if snd a then (fst a @ fst b, snd b) else a)" \<comment> \<open>\<open>if (!a) return 0; b\<close>\<close>

text \<open>\<open>t\<close> is the faulting user thread and \<open>cap\<close> the result of \<open>user_as_mmap_brk_top_limit\<close>.\<close>

definition user_vma_fault_lazy_anon ::
    "fault_world \<Rightarrow> vthread option \<Rightarrow> nat \<Rightarrow> addr \<Rightarrow> vma_state \<Rightarrow> fault_call list \<times> bool" where
  "user_vma_fault_lazy_anon w t' cap cr2 st =
     (if \<not> user_va cr2 then ([], False)
      else case t' of
        None \<Rightarrow> ([], False)
      | Some t \<Rightarrow>
          (case user_vma_find_fault_nolock (Some t) cr2 st of
             None \<Rightarrow> ([], False)
           | Some hit \<Rightarrow>
               (let lo = align_down64 cr2 0x1000; hi = add64 lo 0x1000; hit_end = vend hit;
                    va2m = align_down64 cr2 PAGE_SIZE_2M;
                    cap = (if cap > USER_STACK_TOP then USER_STACK_TOP else cap)
                in if vkind hit \<noteq> USER_VMA_KIND_MMAP_LAZY \<and> vkind hit \<noteq> USER_VMA_KIND_ELF_LOAD \<and>
                      \<not> user_vma_is_filemap hit then ([], False)
                   else if vprot hit = 0 then ([], False)
                   else if hit_end < vaddr hit \<or> cr2 \<ge> hit_end \<or> lo < vaddr hit then ([], False)
                   else if lo \<ge> cap \<or> lo \<ge> hit_end then ([], False)
                   else if vkind hit = USER_VMA_KIND_SHM \<and> vfile hit \<noteq> 0
                   then user_vma_map_shared_file_page w t hit lo
                   else if \<not> (t_mm t \<noteq> 0 \<and> fw_priv w)
                   then call w (map_page_2m va2m)
                          (call_void (zero_fill lo 0x1000) (both (user_vma_fill_file_page w hit lo) ([], True)))
                   else call w (mm_privatize_identity_range_blank lo hi)
                          (call w (mm_make_private_range_noyield lo hi)
                            (both (user_vma_fill_file_page w hit lo)
                              (call_void (user_map_mprotect_range lo hi (vprot hit)) ([], True)))))))"

definition fault_private :: "fault_world \<Rightarrow> vthread \<Rightarrow> user_vma \<Rightarrow> addr \<Rightarrow> fault_call list \<times> bool" where
  "fault_private w t hit cr2 =
     (let lo = align_down64 cr2 0x1000; hi = add64 lo 0x1000
      in if vkind hit = USER_VMA_KIND_SHM \<and> vfile hit \<noteq> 0 then user_vma_map_shared_file_page w t hit lo
         else if vkind hit = USER_VMA_KIND_SHM \<and> vfile hit = 0
         then call w (mm_clear_range_private lo hi) (call w (map_page_2m (align_down64 lo PAGE_SIZE_2M)) ([], True))
         else call w (mm_privatize_identity_range_blank lo hi)
                (call w (mm_make_private_range_noyield lo hi)
                  (both (user_vma_fill_file_page w hit lo)
                    (call_void (user_map_mprotect_range lo hi (vprot hit)) ([], True)))))"

definition fault_identity :: "fault_world \<Rightarrow> user_vma \<Rightarrow> addr \<Rightarrow> fault_call list \<times> bool" where
  "fault_identity w hit cr2 =
     (let va2m = align_down64 cr2 PAGE_SIZE_2M; lo = align_down64 cr2 0x1000;
          fill = (if vfile hit \<noteq> 0
                  then call_void (zero_fill lo 0x1000) (both (user_vma_fill_file_page w hit lo) ([], True))
                  else if vkind hit = USER_VMA_KIND_MMAP_LAZY then
                    (let hit_end = vend hit; chunk_end = add64 va2m PAGE_SIZE_2M
                     in if chunk_end > hit_end then
                          (if hit_end \<le> va2m then ([], True)
                           else call_void (zero_fill va2m (sub64 hit_end va2m)) ([], True))
                        else call_void (zero_fill va2m PAGE_SIZE_2M) ([], True))
                  else ([], True))
      in call w (map_page_2m va2m) fill)"

text \<open>The source tests the present bit of the error code twice; it is clear at the second test.\<close>

definition user_vma_fault_nonpresent ::
    "fault_world \<Rightarrow> vthread option \<Rightarrow> addr \<Rightarrow> int \<Rightarrow> vma_state \<Rightarrow> fault_call list \<times> bool" where
  "user_vma_fault_nonpresent w t' cr2 err st =
     (if err AND 1 \<noteq> 0 then ([], False)
      else if \<not> user_va cr2 then ([], False)
      else case t' of
        None \<Rightarrow> ([], False)
      | Some t \<Rightarrow>
          (case user_vma_find_fault_nolock (Some t) cr2 st of
             None \<Rightarrow> ([], False)
           | Some hit \<Rightarrow>
               if vprot hit = 0 then ([], False)
               else if err AND 2 \<noteq> 0 \<and> vprot hit AND 2 = 0 then ([], False)
               else if err AND 16 \<noteq> 0 \<and> vprot hit AND 4 = 0 \<and> vkind hit \<noteq> USER_VMA_KIND_ELF_LOAD then ([], False)
               else if t_mm t \<noteq> 0 \<and> fw_priv w then fault_private w t hit cr2
               else fault_identity w hit cr2))"

definition fault_try_mmap_lazy_anon ::
    "fault_world \<Rightarrow> vthread option \<Rightarrow> nat \<Rightarrow> addr \<Rightarrow> vma_state \<Rightarrow> fault_call list \<times> bool" where
  "fault_try_mmap_lazy_anon w t cap cr2 st = user_vma_fault_lazy_anon w t cap cr2 st"

definition fault_try_user_vma_nonpresent ::
    "fault_world \<Rightarrow> vthread option \<Rightarrow> addr \<Rightarrow> int \<Rightarrow> vma_state \<Rightarrow> fault_call list \<times> bool" where
  "fault_try_user_vma_nonpresent w t cr2 err st = user_vma_fault_nonpresent w t cr2 err st"

section \<open>What a handled fault implies\<close>

text \<open>The memory a call writes or maps lies in the 2 MiB region at \<open>b\<close>.\<close>

fun within :: "addr \<Rightarrow> fault_call \<Rightarrow> bool" where
  "within b (mm_map_user_page a _ _) \<longleftrightarrow> b \<le> a \<and> a + 0x1000 \<le> b + PAGE_SIZE_2M"
| "within b (map_page_2m a) \<longleftrightarrow> a = b"
| "within b (user_map_mark_identity_2m a e) \<longleftrightarrow> a = b \<and> e = b + PAGE_SIZE_2M"
| "within b (zero_fill a n) \<longleftrightarrow> b \<le> a \<and> a + n \<le> b + PAGE_SIZE_2M"
| "within b (mm_copy_to_user a bs) \<longleftrightarrow> b \<le> a \<and> a + length bs \<le> b + PAGE_SIZE_2M"
| "within b (copy_identity a bs) \<longleftrightarrow> b \<le> a \<and> a + length bs \<le> b + PAGE_SIZE_2M"
| "within b (mm_privatize_identity_range_blank a e) \<longleftrightarrow> b \<le> a \<and> e \<le> b + PAGE_SIZE_2M"
| "within b (mm_make_private_range_noyield a e) \<longleftrightarrow> b \<le> a \<and> e \<le> b + PAGE_SIZE_2M"
| "within b (mm_clear_range_private a e) \<longleftrightarrow> b \<le> a \<and> e \<le> b + PAGE_SIZE_2M"
| "within b (user_map_mprotect_range a e _) \<longleftrightarrow> b \<le> a \<and> e \<le> b + PAGE_SIZE_2M"
| "within b (pagecache_get _ _) \<longleftrightarrow> True"
| "within b (frame_release_cached _ _) \<longleftrightarrow> True"

lemma call_all: "list_all P (fst (call w c r)) \<longleftrightarrow> P c \<and> (fw_ok w c \<longrightarrow> list_all P (fst r))"
  "list_all P (fst (call_void c r)) \<longleftrightarrow> P c \<and> list_all P (fst r)"
  "list_all P (fst (both a r)) \<longleftrightarrow> list_all P (fst a) \<and> (snd a \<longrightarrow> list_all P (fst r))"
  by (simp_all add: call_def call_void_def both_def)

lemma fault_pages:
  assumes "cr2 < 2 ^ 48"
  shows "align_down64 cr2 0x1000 = cr2 div 0x1000 * 0x1000"
    "align_down64 cr2 PAGE_SIZE_2M \<le> align_down64 cr2 0x1000"
    "align_down64 cr2 0x1000 + 0x1000 \<le> align_down64 cr2 PAGE_SIZE_2M + PAGE_SIZE_2M"
    "add64 (align_down64 cr2 0x1000) 0x1000 = align_down64 cr2 0x1000 + 0x1000"
    "align_down64 (align_down64 cr2 0x1000) PAGE_SIZE_2M = align_down64 cr2 PAGE_SIZE_2M"
    "add64 (align_down64 cr2 PAGE_SIZE_2M) PAGE_SIZE_2M = align_down64 cr2 PAGE_SIZE_2M + PAGE_SIZE_2M"
    "align_down64 cr2 PAGE_SIZE_2M \<le> cr2"
proof -
  define q where "q = cr2 div 0x1000"
  have c: "cr2 < 2 ^ 64" using assms by simp
  have lo: "align_down64 cr2 0x1000 = q * 0x1000" using align_down64_pow2 [of 12, OF _ c] by (simp add: q_def)
  have "cr2 div 0x200000 = q div 512" unfolding q_def by (simp flip: div_mult2_eq)
  then have hi: "align_down64 cr2 PAGE_SIZE_2M = q div 512 * 512 * 0x1000"
    using align_down64_pow2 [of 21, OF _ c] by (simp add: PAGE_SIZE_2M_def)
  have d: "q div 512 * 512 \<le> q" "q < q div 512 * 512 + 512" by simp_all
  have qc: "q * 0x1000 \<le> cr2" by (simp add: q_def)
  show "align_down64 cr2 0x1000 = cr2 div 0x1000 * 0x1000" using lo by (simp add: q_def)
  show "align_down64 cr2 PAGE_SIZE_2M \<le> align_down64 cr2 0x1000" using d by (simp add: lo hi)
  show "align_down64 cr2 0x1000 + 0x1000 \<le> align_down64 cr2 PAGE_SIZE_2M + PAGE_SIZE_2M"
    unfolding lo hi using d(2) by (simp add: PAGE_SIZE_2M_def)
  show "add64 (align_down64 cr2 0x1000) 0x1000 = align_down64 cr2 0x1000 + 0x1000"
    unfolding lo using qc assms by (intro add64_id) simp
  have "q * 0x1000 < 2 ^ 64" using qc c by simp
  from align_down64_pow2 [of 21, OF _ this]
  show "align_down64 (align_down64 cr2 0x1000) PAGE_SIZE_2M = align_down64 cr2 PAGE_SIZE_2M"
    unfolding hi lo by (simp add: PAGE_SIZE_2M_def)
  show "add64 (align_down64 cr2 PAGE_SIZE_2M) PAGE_SIZE_2M = align_down64 cr2 PAGE_SIZE_2M + PAGE_SIZE_2M"
    unfolding hi using qc d assms by (intro add64_id) (simp add: PAGE_SIZE_2M_def)
  show "align_down64 cr2 PAGE_SIZE_2M \<le> cr2" using d(1) qc by (simp add: hi)
qed

text \<open>\<open>fs_read\<close> returns at most what was asked for.\<close>

definition reads_fit :: "fault_world \<Rightarrow> bool" where
  "reads_fit w \<longleftrightarrow> (\<forall>f n off bs. fw_read w f n off = Some bs \<longrightarrow> length bs \<le> n)"

lemma length_page_buffer: "reads_fit w \<Longrightarrow> page_buffer w f off = Some bs \<Longrightarrow> length bs = 0x1000"
  by (fastforce simp: page_buffer_def Let_def reads_fit_def split: if_splits option.splits)

lemma fill_within:
  assumes "reads_fit w" "b \<le> lo" "lo + 0x1000 \<le> b + PAGE_SIZE_2M"
  shows "list_all (within b) (fst (user_vma_fill_file_page w hit lo))"
  using assms length_page_buffer [OF assms(1)]
  by (auto simp: user_vma_fill_file_page_def call_def split: option.split)

lemma shared_within:
  assumes "b \<le> lo" "lo + 0x1000 \<le> b + PAGE_SIZE_2M"
  shows "list_all (within b) (fst (user_vma_map_shared_file_page w t hit lo))"
  using assms by (simp add: user_vma_map_shared_file_page_def Let_def call_all)

lemma fault_private_within:
  assumes "reads_fit w" "cr2 < 2 ^ 48"
  shows "list_all (within (align_down64 cr2 PAGE_SIZE_2M)) (fst (fault_private w t hit cr2))"
  using assms fault_pages [OF assms(2)]
  by (simp add: fault_private_def Let_def call_all fill_within shared_within)

lemma fault_identity_within:
  assumes "reads_fit w" "cr2 < 2 ^ 48"
  shows "list_all (within (align_down64 cr2 PAGE_SIZE_2M)) (fst (fault_identity w hit cr2))"
proof -
  let ?b = "align_down64 cr2 PAGE_SIZE_2M"
  note P = fault_pages [OF assms(2)]
  have "?b + sub64 (vend hit) ?b \<le> ?b + PAGE_SIZE_2M" if "?b < vend hit" "vend hit < ?b + PAGE_SIZE_2M"
    using that sub64_id [OF less_imp_le [OF that(1)] add64_bound] by simp
  then show ?thesis using assms P
    by (simp add: fault_identity_def Let_def call_all fill_within)
qed

lemma find_entry_SomeD: "find_entry P tbl = Some v \<Longrightarrow> v \<in> set tbl \<and> P v"
  by (auto simp: find_entry_def dest: findi_SomeD)

lemma find_fault_hit:
  assumes "tables_ok st" "user_vma_find_fault_nolock (Some t) va st = Some v" "va < 2 ^ 64"
  shows "vused v \<and> vma_ok v \<and> vaddr v \<le> va \<and> va < vaddr v + vlen v \<and>
    (v \<in> set (g_user_vmas st) \<and> runs st (Some t) v \<or> (\<exists>vmas. mm_table st (t_mm t) = Some vmas \<and> v \<in> set vmas))"
  using assms
  by (auto simp: user_vma_find_fault_nolock_def Let_def sub64_id tables_ok_def
      split: option.splits if_splits dest!: find_entry_SomeD)

text \<open>C32. A fault that \<open>user_vma_fault_nonpresent\<close> takes was on a page not present, at an address that an
  area of the thread's address space covers with some access; a write only where the area allows
  writing, an instruction fetch only where it allows execution or is a program image. Everything it
  maps or writes, also when it gives up half way, lies in the 2 MiB region of the address.\<close>

theorem user_vma_fault_respects_protection:
  assumes "tables_ok st" "reads_fit w" and f: "user_vma_fault_nonpresent w (Some t) cr2 err st = (cs, ok)"
  shows "list_all (within (align_down64 cr2 PAGE_SIZE_2M)) cs \<and>
    (ok \<longrightarrow> (\<exists>v. user_vma_find_fault_nolock (Some t) cr2 st = Some v \<and> vused v \<and>
       vaddr v \<le> cr2 \<and> cr2 < vaddr v + vlen v \<and> err AND 1 = 0 \<and> vprot v \<noteq> 0 \<and>
       (err AND 2 \<noteq> 0 \<longrightarrow> vprot v AND 2 \<noteq> 0) \<and>
       (err AND 16 \<noteq> 0 \<longrightarrow> vprot v AND 4 \<noteq> 0 \<or> vkind v = USER_VMA_KIND_ELF_LOAD)))"
proof (cases "err AND 1 \<noteq> 0 \<or> \<not> user_va cr2 \<or> user_vma_find_fault_nolock (Some t) cr2 st = None")
  case True
  then have "cs = [] \<and> \<not> ok" using f by (auto simp: user_vma_fault_nonpresent_def split: if_splits)
  then show ?thesis by simp
next
  case False
  then obtain v where v: "user_vma_find_fault_nolock (Some t) cr2 st = Some v" and e1: "err AND 1 = 0"
    and c: "cr2 < 2 ^ 48"
    by (auto simp: VMA_IDENTITY_LIMIT_def)
  have hit: "vused v \<and> vaddr v \<le> cr2 \<and> cr2 < vaddr v + vlen v"
    using find_fault_hit [OF assms(1) v] c by simp
  let ?no = "vprot v = 0 \<or> err AND 2 \<noteq> 0 \<and> vprot v AND 2 = 0 \<or>
    err AND 16 \<noteq> 0 \<and> vprot v AND 4 = 0 \<and> vkind v \<noteq> USER_VMA_KIND_ELF_LOAD"
  have fe: "(cs, ok) = (if ?no then ([], False) else
      if t_mm t \<noteq> 0 \<and> fw_priv w then fault_private w t v cr2 else fault_identity w v cr2)"
    using f v False by (auto simp: user_vma_fault_nonpresent_def split: if_splits)
  have "list_all (within (align_down64 cr2 PAGE_SIZE_2M)) cs"
    using arg_cong [OF fe, of fst] fault_private_within [OF assms(2) c] fault_identity_within [OF assms(2) c]
    by (simp split: if_splits)
  moreover have "\<not> ?no" if ok using fe that by (cases ?no) auto
  ultimately show ?thesis using v hit e1 by blast
qed

definition demo_world :: fault_world where
  "demo_world = \<lparr>fw_ok = (\<lambda>_. True), fw_size = (\<lambda>_. 3), fw_read = (\<lambda>f n off. Some (take n (drop off [1, 2, 3]))),
     fw_priv = True, fw_proc = True\<rparr>"

lemma demo_find: "user_vma_find_fault_nolock (Some demo_thread) 0x401234 demo_vmas = Some demo_vma"
  by (simp add: user_vma_find_fault_nolock_def find_entry_def vma_eval sub64_def)

lemma demo_fault: "snd (user_vma_fault_nonpresent demo_world (Some demo_thread) 0x401234 2 demo_vmas)"
proof -
  have v: "vprot demo_vma = 3" "vkind demo_vma = 1" "vaddr demo_vma = 0x400000" "t_mm demo_thread = 100"
    by (simp_all add: vma_eval)
  have "align_down64 0x401234 0x1000 = 0x401000" using fault_pages(1) [of "0x401234"] by simp
  then show ?thesis
    by (simp add: user_vma_fault_nonpresent_def demo_find v VMA_IDENTITY_LIMIT_def fault_private_def demo_world_def
        call_def call_void_def both_def user_vma_fill_file_page_def page_buffer_def Let_def
        USER_VMA_KIND_SHM_def USER_VMA_KIND_ELF_LOAD_def)
qed

lemma demo_fits: "reads_fit demo_world"
  by (auto simp: reads_fit_def demo_world_def)

theorem user_vma_fault_respects_protection_witness:
  "vaddr demo_vma \<le> 0x401234 \<and> vprot demo_vma AND 2 \<noteq> 0 \<and>
   list_all (within (align_down64 0x401234 PAGE_SIZE_2M))
     (fst (user_vma_fault_nonpresent demo_world (Some demo_thread) 0x401234 2 demo_vmas))"
  using user_vma_fault_respects_protection [OF demo_vmas_ok(1) demo_fits, OF prod.collapse [symmetric]]
    demo_fault demo_find
  by fastforce

text \<open>The contents of files, with \<open>fs_read\<close> returning what they hold.\<close>

definition reads_contents :: "fault_world \<Rightarrow> (addr \<Rightarrow> byte list) \<Rightarrow> bool" where
  "reads_contents w C \<longleftrightarrow> (\<forall>f. fw_size w f = length (C f) \<and> length (C f) < 2 ^ 64) \<and>
     (\<forall>f n off. fw_read w f n off = Some (take n (drop off (C f))))"

lemma page_buffer_contents:
  assumes "reads_contents w C"
  shows "\<exists>bs. page_buffer w f off = Some bs \<and> length bs = 0x1000 \<and>
    (\<forall>k < 0x1000. bs ! k = (if off + k < length (C f) then C f ! (off + k) else 0))"
proof (cases "off < length (C f)")
  case True
  define a where "a = take 0x1000 (drop off (C f))"
  have s: "sub64 (length (C f)) off = length (C f) - off" "fw_size w f = length (C f)"
    using assms True by (auto simp: reads_contents_def intro!: sub64_id)
  have t: "take (if length (C f) - off < 0x1000 then length (C f) - off else 0x1000) (drop off (C f)) = a"
    by (auto simp: a_def)
  have "page_buffer w f off = Some (a @ replicate (0x1000 - length a) 0)"
    using assms True s unfolding t [symmetric] by (auto simp: page_buffer_def reads_contents_def Let_def)
  moreover have "length a \<le> 0x1000" by (simp add: a_def)
  moreover have "(a @ replicate (0x1000 - length a) 0) ! k = (if off + k < length (C f) then C f ! (off + k) else 0)"
    if "k < 0x1000" for k
    using that True by (auto simp: nth_append a_def)
  ultimately show ?thesis by simp
next
  case False
  then show ?thesis using assms by (auto simp: page_buffer_def reads_contents_def)
qed

text \<open>C33. A handled fault in a private file mapping of a process gives the page, in this order, a
  private frame, the bytes of the file and the area's protection. The bytes are those of the file at
  the offset that the area assigns to the page, zeros beyond the end of the file.\<close>

theorem user_vma_fault_fills_file_page:
  assumes ok: "tables_ok st" and hit: "user_vma_find_fault_nolock (Some t) cr2 st = Some v"
    and f: "user_vma_fault_nonpresent w (Some t) cr2 err st = (cs, True)"
    and w: "t_mm t \<noteq> 0" "fw_priv w" "fw_proc w" "reads_contents w C"
    and v: "vfile v \<noteq> 0" "vkind v \<noteq> USER_VMA_KIND_SHM" "0x1000 dvd vaddr v"
  defines "lo \<equiv> cr2 div 0x1000 * 0x1000"
  shows "\<exists>page. cs = [mm_privatize_identity_range_blank lo (lo + 0x1000),
      mm_make_private_range_noyield lo (lo + 0x1000), mm_copy_to_user lo page,
      user_map_mprotect_range lo (lo + 0x1000) (vprot v)] \<and> length page = 0x1000 \<and>
    (\<forall>k < 0x1000. page ! k =
       (let off = vfile_off v + (lo + k - vaddr v) in if off < length (C (vfile v)) then C (vfile v) ! off else 0))"
proof -
  have c: "cr2 < 2 ^ 48" "cr2 < 2 ^ 64"
    using f by (auto simp: user_vma_fault_nonpresent_def VMA_IDENTITY_LIMIT_def split: if_splits)
  note P = fault_pages [OF c(1)]
  have lo: "align_down64 cr2 0x1000 = lo" using P(1) by (simp add: lo_def)
  have h: "vaddr v \<le> cr2" "cr2 < vaddr v + vlen v" "vma_ok v" "vused v"
    using find_fault_hit [OF ok hit c(2)] by simp_all
  have al: "vaddr v \<le> lo" using align_down64_greatest [of 12 cr2 "vaddr v"] h(1) v(3) c(2) lo by simp
  have "lo \<le> cr2" by (simp add: lo_def)
  then have off: "add64 (vfile_off v) (sub64 lo (vaddr v)) = vfile_off v + (lo - vaddr v)"
    using h al c by (auto simp: vma_ok_def sub64_id add64_id)
  obtain page where pg: "page_buffer w (vfile v) (vfile_off v + (lo - vaddr v)) = Some page" "length page = 0x1000"
    "\<And>k. k < 0x1000 \<Longrightarrow> page ! k = (if vfile_off v + (lo - vaddr v) + k < length (C (vfile v))
       then C (vfile v) ! (vfile_off v + (lo - vaddr v) + k) else 0)"
    using page_buffer_contents [OF w(4), of "vfile v" "vfile_off v + (lo - vaddr v)"] by auto
  have "fault_private w t v cr2 = (cs, True)"
    using f hit w by (auto simp: user_vma_fault_nonpresent_def split: if_splits)
  then have "cs = [mm_privatize_identity_range_blank lo (lo + 0x1000),
      mm_make_private_range_noyield lo (lo + 0x1000), mm_copy_to_user lo page,
      user_map_mprotect_range lo (lo + 0x1000) (vprot v)]"
    using v(1,2) P(4) al off pg(1) w(3)
    by (auto simp: fault_private_def Let_def lo user_vma_fill_file_page_def call_def call_void_def both_def
        split: if_splits)
  moreover have "lo + k - vaddr v = lo - vaddr v + k" for k using al by simp
  ultimately show ?thesis using pg by (auto simp: Let_def add.assoc)
qed

theorem user_vma_fault_fills_file_page_witness:
  "length (fst (user_vma_fault_nonpresent demo_world (Some demo_thread) 0x401234 2 demo_vmas)) = 4"
proof -
  have "user_vma_fault_nonpresent demo_world (Some demo_thread) 0x401234 2 demo_vmas =
      (fst (user_vma_fault_nonpresent demo_world (Some demo_thread) 0x401234 2 demo_vmas), True)"
    using demo_fault by (simp add: prod_eq_iff)
  moreover have "reads_contents demo_world (\<lambda>_. [1, 2, 3])" "t_mm demo_thread \<noteq> 0" "fw_priv demo_world"
    "fw_proc demo_world" "vfile demo_vma \<noteq> 0" "vkind demo_vma \<noteq> USER_VMA_KIND_SHM" "0x1000 dvd vaddr demo_vma"
    by (simp_all add: reads_contents_def demo_world_def vma_eval USER_VMA_KIND_SHM_def)
  ultimately show ?thesis
    using user_vma_fault_fills_file_page [OF demo_vmas_ok(1) demo_find, of demo_world 2 _ "\<lambda>_. [1, 2, 3]"] by fastforce
qed

end
