(* ===== verification/UserVma_Props.thy ===== *)
theory UserVma_Props
  imports UserVma_Fault
begin

text \<open>
  The properties of the memory areas: unmapping a range, the two searches for room, the entry that
  loses its file when it is cut, and the demand faults.
\<close>

section \<open>Unmapping\<close>

lemma unmap_clear_spec:
  assumes ok: "tables_ok st" and t: "t_mm t \<noteq> 0"
    and cg: "\<And>x. x = addr \<or> x = end' \<Longrightarrow> cuts (runs st (Some t)) x (g_user_vmas st) = 0"
    and cm: "\<And>x vmas. x = addr \<or> x = end' \<Longrightarrow> mm_table st (t_mm t) = Some vmas \<Longrightarrow> cuts (\<lambda>_. True) x vmas = 0"
  defines "st' \<equiv> unmap_clear t addr end' st"
  shows "tables_ok st' \<and>
    vview (g_user_vmas st') va = {x \<in> vview (g_user_vmas st) va.
       \<not> (user_vma_tid_matches_runner_mm_nolock (threads st) (Some t) (fst x) \<and> addr \<le> va \<and> va < end')} \<and>
    mm_view (t_mm t) st' va = {x \<in> mm_view (t_mm t) st va. \<not> (addr \<le> va \<and> va < end')} \<and>
    (f \<noteq> 0 \<longrightarrow> file_refs st' f - holders f (g_user_vmas st') - mm_held f (t_mm t) st' =
       file_refs st f - holders f (g_user_vmas st) - mm_held f (t_mm t) st)"
proof -
  let ?m = "user_vma_tid_matches_runner_mm_nolock (threads st) (Some t)"
  obtain tb rf where g: "clear_loop (\<lambda>v. ?m (vtid v) \<and> meets addr end' v) (g_user_vmas st) (file_refs st) = (tb, rf)"
    by fastforce
  have okg: "\<forall>v \<in> set (g_user_vmas st). vma_ok v" using ok by (simp add: tables_ok_def)
  note G = clear_loop_spec [OF g]
  have vg: "vview tb va = {x \<in> vview (g_user_vmas st) va. \<not> (?m (fst x) \<and> addr \<le> va \<and> va < end')}"
    using G [of va] unmapped_view [OF okg, of ?m addr end' va] cg [of addr] cg [of end'] by simp
  show ?thesis
  proof (cases "vma_storage st (t_mm t)")
    case None
    then have "st' = st\<lparr>g_user_vmas := tb, file_refs := rf\<rparr>" using g t by (simp add: st'_def unmap_clear_def)
    then show ?thesis using vg G [of va f] okg ok None by (simp add: mm_view_def mm_held_def tables_ok_def)
  next
    case (Some vmas)
    have okm: "\<forall>v \<in> set vmas. vma_ok v" using ok Some by (auto simp: tables_ok_def)
    obtain tm rm where m: "clear_loop (meets addr end') vmas rf = (tm, rm)" by fastforce
    note Q = clear_loop_spec [OF m]
    have vm: "vview tm va = {x \<in> vview vmas va. \<not> (addr \<le> va \<and> va < end')}"
      using Q [of va] unmapped_view [OF okm, of "\<lambda>_. True" addr end' va] cm [of addr vmas] cm [of end' vmas] Some t
      by simp
    have e: "st' = st\<lparr>g_user_vmas := tb, file_refs := rm, vma_storage := (vma_storage st)(t_mm t \<mapsto> tm)\<rparr>"
      using g m t Some by (simp add: st'_def unmap_clear_def)
    have "tables_ok st'" using G [of va f] Q [of va f] okg okm ok unfolding e tables_ok_def by auto
    moreover have "file_refs st' f - holders f (g_user_vmas st') - mm_held f (t_mm t) st' =
       file_refs st f - holders f (g_user_vmas st) - mm_held f (t_mm t) st" if "f \<noteq> 0"
      using G [of va f] Q [of va f] that Some t by (simp add: e mm_held_def)
    ultimately show ?thesis using vg vm Some t by (simp add: e mm_view_def)
  qed
qed

text \<open>C29. Unmapping a range of an address space is exact and all-or-nothing. Either it fails,
  because the tables lack the free entries that the cuts need, and nothing changes; or it succeeds
  and, in the table of the threads and in that of the address space, no area of the address space is
  left over the range while every other address is mapped as before. In both cases the reference
  counts of the mapped files move exactly with the entries that hold them.\<close>

theorem user_vma_unmap_exact:
  assumes ok: "tables_ok st" and t: "owner_of st tid = Some t" "t_mm t \<noteq> 0" and nowrap: "addr + len < 2 ^ 64"
    and u: "user_vma_unmap_range tid addr len st = (st', rc)"
  shows "rc = - 1 \<and> st' = st \<and> user_vma_unmap_capacity_nolock (Some t) addr (addr + len) st \<noteq> 0 \<or>
    rc = 0 \<and> tables_ok st' \<and>
    (\<forall>va. vview (g_user_vmas st') va = {x \<in> vview (g_user_vmas st) va.
       \<not> (user_vma_tid_matches_runner_mm_nolock (threads st) (Some t) (fst x) \<and> addr \<le> va \<and> va < addr + len)}) \<and>
    (\<forall>va. mm_view (t_mm t) st' va = {x \<in> mm_view (t_mm t) st va. \<not> (addr \<le> va \<and> va < addr + len)}) \<and>
    (\<forall>f. f \<noteq> 0 \<longrightarrow> file_refs st' f - holders f (g_user_vmas st') - mm_held f (t_mm t) st' =
       file_refs st f - holders f (g_user_vmas st) - mm_held f (t_mm t) st)"
proof -
  have u': "unmap_in_mm t addr (addr + len) st = (st', rc)"
    using u t nowrap by (simp add: user_vma_unmap_range_def Let_def add64_id)
  show ?thesis
  proof (cases "user_vma_unmap_capacity_nolock (Some t) addr (addr + len) st = 0")
    case False
    then show ?thesis using u' by (simp add: unmap_in_mm_def)
  next
    case True
    obtain st4 where S: "unmap_in_mm t addr (addr + len) st = (unmap_clear t addr (addr + len) st4, 0)"
      "tables_ok st4" "threads st4 = threads st"
      "\<And>va. vview (g_user_vmas st4) va = vview (g_user_vmas st) va"
      "\<And>va. mm_view (t_mm t) st4 va = mm_view (t_mm t) st va"
      "\<And>x. x = addr \<or> x = addr + len \<Longrightarrow> cuts (runs st (Some t)) x (g_user_vmas st4) = 0"
      "\<And>x vmas. x = addr \<or> x = addr + len \<Longrightarrow> mm_table st4 (t_mm t) = Some vmas \<Longrightarrow> cuts (\<lambda>_. True) x vmas = 0"
      "\<And>f. f \<noteq> 0 \<Longrightarrow> file_refs st4 f - holders f (g_user_vmas st4) - mm_held f (t_mm t) st4 =
         file_refs st f - holders f (g_user_vmas st) - mm_held f (t_mm t) st"
      by (rule unmap_cuts [OF ok t(2) True]) (rule that; assumption)
    have e: "st' = unmap_clear t addr (addr + len) st4" "rc = 0" using S(1) u' by simp_all
    note C = unmap_clear_spec [of st4 t addr "addr + len", OF S(2) t(2) S(6) [folded S(3)] S(7), folded e(1), unfolded S(3,4,5)]
    show ?thesis using C S(8) e(2) by simp
  qed
qed

lemma demo_unmap_rc: "snd (user_vma_unmap_range 1 0x401000 0x1000 demo_vmas) = 0"
  by (simp add: user_vma_unmap_range_def unmap_in_mm_def user_vma_unmap_capacity_nolock_def cuts_def
      free_entries_def user_vma_split_runner_at_nolock_def user_vma_split_mm_at_nolock_def vma_eval
      add64_def sub64_def upt_rec)

theorem user_vma_unmap_exact_witness:
  "vview (g_user_vmas (fst (user_vma_unmap_range 1 0x401000 0x1000 demo_vmas))) 0x401800 = {} \<and>
   vview (g_user_vmas (fst (user_vma_unmap_range 1 0x401000 0x1000 demo_vmas))) 0x402800 = {(1, 3, 1, 7, 0xa800)}"
  using user_vma_unmap_exact [OF demo_vmas_ok, where addr = "0x401000" and len = "0x1000", OF _ prod.collapse [symmetric]] demo_unmap_rc
  by (simp add: vview_vone vone_def vhas_def vma_eval add64_def)

section \<open>Cutting the area of one thread\<close>

text \<open>C34. \<open>user_vma_split_at_nolock\<close>, which \<open>user_vma_set_prot\<close> and the unmapping of a thread without an
  address space use, loses the file of the right half whenever the area's entry comes before the
  first free one: it looks the right half up by its address before it has shortened the left one, so
  it finds the left one. The right half has no file, the left half gets the right half's offset, and
  one reference to the file is taken that no entry holds.\<close>

theorem user_vma_split_loses_file:
  assumes i: "user_vma_find_containing_nolock tid x tbl = Some i" and v: "v = tbl ! i" "vma_ok v" "x \<noteq> vaddr v"
    and f: "vfile v = f" "f \<noteq> 0"
    and j: "findi (\<lambda>v. \<not> vused v) tbl = Some j" "i < j"
    and new: "\<forall>u \<in> set tbl. \<not> (vused u \<and> vtid u = tid \<and> vaddr u = x)"
  shows "\<exists>tbl' refs'. user_vma_split_at_nolock tid x (tbl, refs) = ((tbl', refs'), 0) \<and>
    vaddr (tbl' ! j) = x \<and> vlen (tbl' ! j) = vaddr v + vlen v - x \<and> vfile (tbl' ! j) = 0 \<and>
    vaddr (tbl' ! i) = vaddr v \<and> vlen (tbl' ! i) = x - vaddr v \<and> vfile (tbl' ! i) = f \<and>
    vfile_off (tbl' ! i) = vfile_off v + (x - vaddr v) \<and>
    refs' f = refs f + 1 \<and> holders f tbl' = holders f tbl"
proof -
  have I: "i < length tbl" "vused v" "vtid v = tid" "vhas v x"
    and first: "\<And>k. k < i \<Longrightarrow> \<not> (vused (tbl ! k) \<and> vtid (tbl ! k) = tid \<and> vhas (tbl ! k) x)"
    using i v(1) by (auto simp: user_vma_find_containing_nolock_def findi_Some)
  note J = findi_SomeD [OF j(1)]
  have b: "vend v = vaddr v + vlen v" "vaddr v < x" "x < vaddr v + vlen v" "vaddr v + vlen v < 2 ^ 64"
    "vfile_off v + vlen v < 2 ^ 64"
    using vend_ok [OF v(2) I(2)] I(2,4) v(2,3) by (auto simp: vhas_def vma_ok_def)
  define ll where "ll = x - vaddr v"
  define rl where "rl = vaddr v + vlen v - x"
  have l: "sub64 x (vaddr v) = ll" "sub64 (vlen v) ll = rl" "add64 (vfile_off v) ll = vfile_off v + ll"
    using b by (auto simp: ll_def rl_def sub64_id add64_id)
  define t1 where "t1 = tbl[j := new_vma tid x rl (vprot v) (vkind v)]"
  have "findi (\<lambda>u. vused u \<and> vtid u = tid \<and> vaddr u = x \<and> vlen u = rl \<and> vkind u = vkind v) tbl = None"
    using new by (auto simp: findi_None)
  then have a: "user_vma_add_nolock tid x rl (vprot v) (vkind v) tbl = (t1, 0)"
    using j by (simp add: user_vma_add_nolock_def t1_def)
  have ti: "t1 ! i = v" "length t1 = length tbl" using j(2) v(1) by (simp_all add: t1_def)
  have "user_vma_find_containing_nolock tid x t1 = Some i"
    unfolding user_vma_find_containing_nolock_def findi_Some
    using I first j(2) ti by (auto simp: t1_def)
  then have s: "user_vma_split_at_nolock tid x (tbl, refs) =
      ((t1[i := v\<lparr>vfile := f, vfile_off := vfile_off v + ll, vlen := ll\<rparr>], fs_file_get f refs), 0)"
    using i v(1,3) b l a f ti I(1) by (simp add: user_vma_split_at_nolock_def Let_def not_le)
  have "holders f t1 = holders f tbl"
    using filter_update_len [of j tbl "\<lambda>u. vused u \<and> vfile u = f" "new_vma tid x rl (vprot v) (vkind v)"] J f(2)
    by (simp add: holders_def t1_def new_vma_def)
  moreover have "holders f (t1[i := v\<lparr>vfile := f, vfile_off := vfile_off v + ll, vlen := ll\<rparr>]) = holders f t1"
    using filter_update_len [of i t1 "\<lambda>u. vused u \<and> vfile u = f" "v\<lparr>vfile := f, vfile_off := vfile_off v + ll, vlen := ll\<rparr>"]
      I f ti by (simp add: holders_def)
  ultimately show ?thesis
    unfolding s using J j(2) I(1) f(2) by (auto simp: t1_def new_vma_def ll_def rl_def fs_file_get_def)
qed

theorem user_vma_split_loses_file_witness:
  "vfile (fst (fst (user_vma_split_at_nolock 1 0x401000 ([demo_vma, vma_zero, vma_zero], (\<lambda>_. 0)))) ! 1) = 0"
proof -
  have "user_vma_find_containing_nolock 1 0x401000 [demo_vma, vma_zero, vma_zero] = Some 0"
    "findi (\<lambda>v. \<not> vused v) [demo_vma, vma_zero, vma_zero] = Some 1" "vma_ok demo_vma"
    "0x401000 \<noteq> vaddr demo_vma" "vfile demo_vma = 7"
    "\<forall>u \<in> set [demo_vma, vma_zero, vma_zero]. \<not> (vused u \<and> vtid u = 1 \<and> vaddr u = 0x401000)"
    by (simp_all add: user_vma_find_containing_nolock_def vhas_def vma_ok_def vma_eval add64_def)
  note h = this
  show ?thesis
    using user_vma_split_loses_file [OF h(1) _ h(3,4,5) _ h(2) _ h(6), of "\<lambda>_. 0"] by auto
qed

end
