(* ===== verification/Futex.thy ===== *)
theory Futex
  imports LibcString
begin

text \<open>
  Futexes, \<open>syscall/futex/futex.c\<close>: a hash table of nodes, one per address that threads wait on, each
  with a queue of waiters. Nodes and waiters are blocks of the kernel heap, named by their addresses;
  a chain of blocks is the list of its addresses, so \<open>futex_table h\<close> is the bucket's chain and
  \<open>n_waiters\<close> a node's queue. The results of \<open>kmalloc\<close> are arguments (0 is NULL).

  Each function runs from taking the lock to releasing it. A wait is therefore several steps:
  \<open>futex_wait_enqueue\<close> publishes the waiter, \<open>futex_wait_round\<close> is one round of the loop, which ends the
  wait or blocks the thread, and \<open>futex_wait_finish\<close> takes the waiter off. What user memory holds, the
  time and pending signals are arguments.
\<close>

section \<open>State\<close>

definition FUTEX_BUCKETS :: nat where "FUTEX_BUCKETS = 256"
definition EPERM :: int where "EPERM = 1"
definition EINTR :: int where "EINTR = 4"
definition EAGAIN :: int where "EAGAIN = 11"
definition ENOMEM :: int where "ENOMEM = 12"
definition EFAULT :: int where "EFAULT = 14"
definition EINVAL :: int where "EINVAL = 22"
definition ENOSYS :: int where "ENOSYS = 38"
definition ETIMEDOUT :: int where "ETIMEDOUT = 110"
definition FUTEX_VA_LIMIT :: nat where "FUTEX_VA_LIMIT = 0x100000000"

record futex_waiter =
  w_tid :: int
  w_bitset :: u32
  w_woken :: bool
  w_node :: addr

record futex_node =
  n_key :: addr
  n_owner :: addr
  n_waiters :: "addr list"

text \<open>\<open>active_waiter\<close> is the field \<open>active_futex_waiter\<close> of the thread with a given id; \<open>gone\<close> is whether
  there is no such thread or it is terminated, and \<open>ready\<close> whether it is not blocked.\<close>

record futex_state =
  futex_table :: "nat \<Rightarrow> addr list"
  fnode :: "addr \<Rightarrow> futex_node option"
  fwaiter :: "addr \<Rightarrow> futex_waiter option"
  active_waiter :: "int \<Rightarrow> addr"
  gone :: "int \<Rightarrow> bool"
  ready :: "int \<Rightarrow> bool"

definition futex_hash :: "addr \<Rightarrow> addr \<Rightarrow> nat" where
  "futex_hash key owner = unat ((drop_bit 3 (of_nat key :: 64 word) XOR drop_bit 4 (of_nat owner)) AND 255)"

definition node_hash :: "futex_node \<Rightarrow> nat" where
  "node_hash n = futex_hash (n_key n) (n_owner n)"

definition set_node :: "addr \<Rightarrow> futex_node \<Rightarrow> futex_state \<Rightarrow> futex_state" where
  "set_node a n st = st\<lparr>fnode := (fnode st)(a \<mapsto> n)\<rparr>"

definition set_waiter :: "addr \<Rightarrow> futex_waiter \<Rightarrow> futex_state \<Rightarrow> futex_state" where
  "set_waiter w x st = st\<lparr>fwaiter := (fwaiter st)(w \<mapsto> x)\<rparr>"

definition node_is :: "addr \<Rightarrow> addr \<Rightarrow> futex_state \<Rightarrow> addr \<Rightarrow> bool" where
  "node_is key owner st a \<longleftrightarrow>
     (case fnode st a of None \<Rightarrow> False | Some n \<Rightarrow> n_key n = key \<and> n_owner n = owner)"

text \<open>The node found, 0 for none. \<open>p\<close> is the block for a new node.\<close>

definition futex_find_node :: "addr \<Rightarrow> addr \<Rightarrow> bool \<Rightarrow> addr \<Rightarrow> futex_state \<Rightarrow> futex_state \<times> addr" where
  "futex_find_node key owner create p st =
     (let h = futex_hash key owner
      in case List.find (node_is key owner st) (futex_table st h) of
           Some a \<Rightarrow> (st, a)
         | None \<Rightarrow>
             if \<not> create \<or> p = 0 then (st, 0)
             else (set_node p \<lparr>n_key = key, n_owner = owner, n_waiters = []\<rparr>
                     (st\<lparr>futex_table := (futex_table st)(h := p # futex_table st h)\<rparr>), p))"

definition futex_drop_empty :: "addr \<Rightarrow> futex_state \<Rightarrow> futex_state" where
  "futex_drop_empty a st =
     (case fnode st a of
        None \<Rightarrow> st
      | Some n \<Rightarrow>
          if a = 0 \<or> n_waiters n \<noteq> [] then st
          else if a \<in> set (futex_table st (node_hash n))
          then st\<lparr>futex_table := (futex_table st)(node_hash n := remove1 a (futex_table st (node_hash n))),
                  fnode := (fnode st)(a := None)\<rparr>
          else st)"

definition futex_unlink_waiter :: "addr \<Rightarrow> futex_state \<Rightarrow> futex_state" where
  "futex_unlink_waiter w st =
     (case fwaiter st w of
        None \<Rightarrow> st
      | Some x \<Rightarrow>
          if w_node x = 0 then st
          else
            (let st = (case fnode st (w_node x) of
                         None \<Rightarrow> st
                       | Some n \<Rightarrow> set_node (w_node x) (n\<lparr>n_waiters := remove1 w (n_waiters n)\<rparr>) st)
             in set_waiter w (x\<lparr>w_node := 0\<rparr>) st))"

definition waiter_node :: "addr \<Rightarrow> futex_state \<Rightarrow> addr" where \<comment> \<open>\<open>w->node\<close>\<close>
  "waiter_node w st = (case fwaiter st w of None \<Rightarrow> 0 | Some x \<Rightarrow> w_node x)"

text \<open>Taking a waiter off and freeing it, as \<open>futex_cancel_thread\<close> and the end of a wait do.\<close>

definition futex_take_off :: "addr \<Rightarrow> int \<Rightarrow> futex_state \<Rightarrow> futex_state" where
  "futex_take_off w tid st =
     (let node = waiter_node w st;
          st = futex_drop_empty node (futex_unlink_waiter w st)
      in st\<lparr>active_waiter := (active_waiter st)(tid := 0), fwaiter := (fwaiter st)(w := None)\<rparr>)"

definition futex_cancel_thread :: "int \<Rightarrow> futex_state \<Rightarrow> futex_state" where
  "futex_cancel_thread tid st =
     (if active_waiter st tid = 0 then st else futex_take_off (active_waiter st tid) tid st)"

section \<open>Keys and time\<close>

text \<open>\<open>leaf\<close> is what \<open>mm_user_leaf_pa\<close> finds for the address.\<close>

definition futex_key :: "addr \<Rightarrow> (addr \<Rightarrow> addr option) \<Rightarrow> addr \<Rightarrow> bool \<Rightarrow> int + (addr \<times> addr)" where
  "futex_key mm leaf address priv =
     (if (of_nat address :: 64 word) AND 3 \<noteq> 0 then Inl (- EINVAL)
      else if address < 0x1000 \<or> address > FUTEX_VA_LIMIT - 4 \<or> mm = 0 then Inl (- EFAULT)
      else if priv then Inr (address, mm)
      else case leaf address of None \<Rightarrow> Inl (- EFAULT) | Some pa \<Rightarrow> Inr (pa, 0))"

definition read_u32_user :: "addr \<Rightarrow> (addr \<Rightarrow> u32 option) \<Rightarrow> addr \<Rightarrow> int + u32" where
  "read_u32_user mm mem uaddr =
     (if add64 uaddr 4 > FUTEX_VA_LIMIT then Inl (- EFAULT)
      else if mm = 0 then Inl (- EFAULT)
      else case mem uaddr of None \<Rightarrow> Inl (- EFAULT) | Some v \<Rightarrow> Inr v)"

text \<open>The deadline of a wait: a time to wait for from \<open>now\<close>, or an absolute time. \<open>ts\<close> is \<open>None\<close> when
  user memory could not be read.\<close>

definition futex_deadline :: "bool \<Rightarrow> (int \<times> int) option \<Rightarrow> nat \<Rightarrow> int + nat" where
  "futex_deadline relative ts now =
     (case ts of
        None \<Rightarrow> Inl (- EFAULT)
      | Some (sec, ns) \<Rightarrow>
          if sec < 0 \<or> ns < 0 \<or> ns \<ge> 1000000000 \<or> nat sec > (2 ^ 64 - 1 - nat ns) div 1000000000
          then Inl (- EINVAL)
          else
            (let deadline = add64 (mul64 (nat sec) 1000000000) (nat ns)
             in Inr (if relative
                     then (if deadline > 2 ^ 64 - 1 - now then 2 ^ 64 - 1 else deadline + now)
                     else deadline)))"

section \<open>Waiting\<close>

text \<open>\<open>w\<close> is the new waiter's block, already filled with zeros, \<open>p\<close> the block for a new node.\<close>

definition futex_wait_enqueue ::
    "int \<Rightarrow> addr \<Rightarrow> addr \<Rightarrow> u32 \<Rightarrow> int + u32 \<Rightarrow> u32 \<Rightarrow> addr \<Rightarrow> addr \<Rightarrow> futex_state \<Rightarrow> futex_state \<times> int" where
  "futex_wait_enqueue tid key owner bitset rd val w p st =
     (if w = 0 then (st, - ENOMEM)
      else case rd of
        Inl e \<Rightarrow> (st, e)
      | Inr v \<Rightarrow>
          if v \<noteq> val then (st, - EAGAIN)
          else
            (let (st, node) = futex_find_node key owner True p st
             in if node = 0 then (st, - ENOMEM)
                else
                  (case fnode st node of
                     None \<Rightarrow> (st, - ENOMEM)
                   | Some n \<Rightarrow>
                       ((set_node node (n\<lparr>n_waiters := w # n_waiters n\<rparr>)
                          (set_waiter w \<lparr>w_tid = tid, w_bitset = bitset, w_woken = False, w_node = node\<rparr> st))
                         \<lparr>active_waiter := (active_waiter st)(tid := w)\<rparr>, 0))))"

text \<open>One round of the loop: \<open>Some r\<close> ends the wait with result \<open>r\<close>; \<open>None\<close> blocks the thread.\<close>

definition futex_wait_round :: "addr \<Rightarrow> int \<Rightarrow> bool \<Rightarrow> (nat \<times> nat) option \<Rightarrow> futex_state \<Rightarrow> futex_state \<times> int option" where
  "futex_wait_round w tid signals timing st =
     (if (case fwaiter st w of None \<Rightarrow> False | Some x \<Rightarrow> w_woken x) then (st, Some 0)
      else if signals then (st, Some (- EINTR))
      else case timing of
        Some (now, deadline) \<Rightarrow>
          if now \<ge> deadline then (st, Some (- ETIMEDOUT))
          else (st\<lparr>ready := (ready st)(tid := False)\<rparr>, None)
      | None \<Rightarrow> (st\<lparr>ready := (ready st)(tid := False)\<rparr>, None))"

definition futex_block_ms :: "nat \<Rightarrow> nat \<Rightarrow> nat" where \<comment> \<open>how long a round blocks at most\<close>
  "futex_block_ms now deadline =
     (let remaining = sub64 deadline now;
          ms = remaining div 1000000 + (if remaining mod 1000000 \<noteq> 0 then 1 else 0)
      in if ms > 0x7fffffff then 0x7fffffff else ms)"

definition futex_wait_finish :: "addr \<Rightarrow> int \<Rightarrow> futex_state \<Rightarrow> futex_state" where
  "futex_wait_finish w tid st = futex_take_off w tid st"

section \<open>Waking and requeueing\<close>

fun wake_loop :: "addr list \<Rightarrow> int \<Rightarrow> u32 \<Rightarrow> futex_state \<Rightarrow> int \<Rightarrow> futex_state \<times> int" where
  "wake_loop [] count bitset st woke = (st, woke)"
| "wake_loop (w # ws) count bitset st woke =
     (if \<not> woke < count then (st, woke)
      else case fwaiter st w of
        None \<Rightarrow> wake_loop ws count bitset st woke
      | Some x \<Rightarrow>
          if w_bitset x AND bitset = 0 then wake_loop ws count bitset st woke
          else
            (let st = futex_unlink_waiter w st;
                 st = set_waiter w (x\<lparr>w_node := 0, w_woken := True\<rparr>) st
             in if \<not> gone st (w_tid x) \<and> active_waiter st (w_tid x) = w
                then wake_loop ws count bitset (st\<lparr>ready := (ready st)(w_tid x := True)\<rparr>) (woke + 1)
                else wake_loop ws count bitset st woke))"

definition futex_wake_locked :: "addr \<Rightarrow> int \<Rightarrow> u32 \<Rightarrow> futex_state \<Rightarrow> futex_state \<times> int" where
  "futex_wake_locked node count bitset st =
     (case fnode st node of
        None \<Rightarrow> (st, 0)
      | Some n \<Rightarrow> wake_loop (if node = 0 then [] else n_waiters n) count bitset st 0)"

definition futex_wake :: "addr \<Rightarrow> addr \<Rightarrow> int \<Rightarrow> u32 \<Rightarrow> futex_state \<Rightarrow> futex_state \<times> int" where
  "futex_wake key owner val bitset st =
     (if val < 0 \<or> bitset = 0 then (st, - EINVAL)
      else
        (let (st, node) = futex_find_node key owner False 0 st;
             (st, woke) = futex_wake_locked node val bitset st
         in (futex_drop_empty node st, woke)))"

text \<open>Moving waiters from the head of one queue to the head of another.\<close>

primrec requeue_loop :: "nat \<Rightarrow> addr \<Rightarrow> addr \<Rightarrow> futex_state \<Rightarrow> futex_state \<times> int" where
  "requeue_loop 0 src dst st = (st, 0)"
| "requeue_loop (Suc k) src dst st =
     (case (fnode st src, fnode st dst) of
        (Some n, Some m) \<Rightarrow>
          (case n_waiters n of
             [] \<Rightarrow> (st, 0)
           | w # ws \<Rightarrow>
               (case fwaiter st w of
                  None \<Rightarrow> (st, 0)
                | Some x \<Rightarrow>
                    (let st = set_node src (n\<lparr>n_waiters := ws\<rparr>) st;
                         st = set_waiter w (x\<lparr>w_node := dst\<rparr>) st;
                         st = set_node dst (m\<lparr>n_waiters := w # n_waiters m\<rparr>) st;
                         (st, moved) = requeue_loop k src dst st
                     in (st, moved + 1))))
      | _ \<Rightarrow> (st, 0))"

definition futex_requeue ::
    "addr \<times> addr \<Rightarrow> int + (addr \<times> addr) \<Rightarrow> int \<Rightarrow> int \<Rightarrow> (int + u32) option \<Rightarrow> u32 \<Rightarrow> addr \<Rightarrow> futex_state \<Rightarrow>
     futex_state \<times> int" where
  "futex_requeue k1 k2 nr_wake nr_requeue rd val3 p st =
     (if nr_wake < 0 \<or> nr_requeue < 0 then (st, - EINVAL)
      else case k2 of
        Inl e \<Rightarrow> (st, e)
      | Inr k2 \<Rightarrow>
          if k1 = k2 then (st, - EINVAL)
          else if (case rd of Some (Inl _) \<Rightarrow> True | _ \<Rightarrow> False) then (st, - EFAULT)
          else if (case rd of Some (Inr v) \<Rightarrow> v \<noteq> val3 | _ \<Rightarrow> False) then (st, - EAGAIN)
          else
            (let (st, src) = futex_find_node (fst k1) (snd k1) False 0 st;
                 (st, woke) = futex_wake_locked src nr_wake (- 1) st
             in if src \<noteq> 0 \<and> (case fnode st src of None \<Rightarrow> False | Some n \<Rightarrow> n_waiters n \<noteq> []) \<and> nr_requeue \<noteq> 0 then
                  (let (st, dst) = futex_find_node (fst k2) (snd k2) True p st
                   in if dst = 0 then (st, if woke \<noteq> 0 then woke else - ENOMEM)
                      else (let (st, requeued) = requeue_loop (nat nr_requeue) src dst st
                            in (futex_drop_empty src st, woke + requeued)))
                else (futex_drop_empty src st, woke)))"

section \<open>The system call\<close>

record futex_args =
  f_uaddr :: addr
  f_op :: int
  f_val :: int
  f_timeout :: addr
  f_uaddr2 :: addr
  f_val3 :: int

text \<open>The caller and its surroundings: \<open>None\<close> for no current thread; its thread id and address space,
  the physical pages, user memory, the time-out read from user memory, the clock and the two blocks
  that \<open>kmalloc\<close> may return.\<close>

record futex_env =
  e_cur :: "(int \<times> addr) option"
  e_leaf :: "addr \<Rightarrow> addr option"
  e_mem :: "addr \<Rightarrow> u32 option"
  e_ts :: "(int \<times> int) option"
  e_now :: nat
  e_wblk :: addr
  e_nblk :: addr

text \<open>A call returns, or leaves the caller waiting on a waiter with a deadline.\<close>

datatype futex_result = Returns int | Waits addr "nat option"

definition futex_wait :: "futex_args \<Rightarrow> futex_env \<Rightarrow> int \<Rightarrow> addr \<Rightarrow> u32 \<Rightarrow> bool \<Rightarrow> addr \<times> addr \<Rightarrow> futex_state \<Rightarrow>
    futex_state \<times> futex_result" where
  "futex_wait a e tid mm bitset relative k st =
     (if bitset = 0 then (st, Returns (- EINVAL))
      else
        (let go = (\<lambda>deadline.
               let (st, r) = futex_wait_enqueue (if tid \<noteq> 0 then tid else 1) (fst k) (snd k) bitset
                     (read_u32_user mm (e_mem e) (f_uaddr a)) (word_of_int (f_val a)) (e_wblk e) (e_nblk e) st
               in (st, if r = 0 then Waits (e_wblk e) deadline else Returns r))
         in if f_timeout a = 0 then go None
            else case futex_deadline relative (e_ts e) (e_now e) of
              Inl err \<Rightarrow> (st, Returns err)
            | Inr d \<Rightarrow> go (Some d)))"

definition futex_syscall :: "futex_args \<Rightarrow> futex_env \<Rightarrow> futex_state \<Rightarrow> futex_state \<times> futex_result" where
  "futex_syscall a e st =
     (let ret = (\<lambda>(st, r). (st, Returns r));
          val2 = s32 (int (f_timeout a));
          cmd = f_op a AND NOT 384;
          priv = (f_op a AND 128 \<noteq> 0); realtime = (f_op a AND 256 \<noteq> 0)
      in case e_cur e of
           None \<Rightarrow> (st, Returns (- EPERM))
         | Some (tid, mm) \<Rightarrow>
             if cmd \<notin> {0, 1, 3, 4, 9, 10} then (st, Returns (- ENOSYS))
             else if realtime \<and> cmd \<noteq> 9 then (st, Returns (- ENOSYS))
             else case futex_key mm (e_leaf e) (f_uaddr a) priv of
               Inl err \<Rightarrow> (st, Returns err)
             | Inr k \<Rightarrow>
                 if cmd = 0 then futex_wait a e tid mm (- 1) True k st
                 else if cmd = 9 then futex_wait a e tid mm (word_of_int (f_val3 a)) False k st
                 else if cmd = 1 then ret (futex_wake (fst k) (snd k) (f_val a) (- 1) st)
                 else if cmd = 10 then ret (futex_wake (fst k) (snd k) (f_val a) (word_of_int (f_val3 a)) st)
                 else ret (futex_requeue k (futex_key mm (e_leaf e) (f_uaddr2 a) priv) (f_val a) val2
                   (if cmd = 4 then Some (read_u32_user mm (e_mem e) (f_uaddr a)) else None)
                   (word_of_int (f_val3 a)) (e_nblk e) st))"

end
