(* ===== verification/Futex_Thms.thy ===== *)
theory Futex_Thms
  imports Futex
begin

text \<open>
  The futex table is well formed in every reachable state: the nodes are exactly the members of
  their buckets, one per key; every waiter is in at most one queue, the one its \<open>node\<close> field names;
  every waiter is the active one of its thread. The invariant comes in three parts, each about the
  fields it depends on, so that an operation disturbs only the parts it touches.
\<close>

section \<open>The invariant\<close>

definition keys :: "futex_state \<Rightarrow> addr \<Rightarrow> (addr \<times> addr) option" where
  "keys st a = map_option (\<lambda>n. (n_key n, n_owner n)) (fnode st a)"

definition queue :: "futex_state \<Rightarrow> addr \<Rightarrow> addr list option" where
  "queue st a = map_option n_waiters (fnode st a)"

definition place :: "futex_state \<Rightarrow> addr \<Rightarrow> addr option" where
  "place st w = map_option w_node (fwaiter st w)"

definition table_ok :: "(nat \<Rightarrow> addr list) \<Rightarrow> (addr \<Rightarrow> (addr \<times> addr) option) \<Rightarrow> bool" where
  "table_ok T K \<longleftrightarrow> (\<forall>h. distinct (T h) \<and> set (T h) = {a. \<exists>k. K a = Some k \<and> futex_hash (fst k) (snd k) = h}) \<and>
     K 0 = None \<and> inj_on K (dom K)"

definition inq :: "(addr \<Rightarrow> addr list option) \<Rightarrow> addr \<Rightarrow> addr \<Rightarrow> bool" where
  "inq Q a w \<longleftrightarrow> (case Q a of None \<Rightarrow> False | Some ws \<Rightarrow> w \<in> set ws)"

definition queues_ok :: "(addr \<Rightarrow> addr list option) \<Rightarrow> (addr \<Rightarrow> addr option) \<Rightarrow> bool" where
  "queues_ok Q W \<longleftrightarrow> Q 0 = None \<and> W 0 = None \<and> (\<forall>a ws. Q a = Some ws \<longrightarrow> distinct ws) \<and>
     (\<forall>a w. a \<noteq> 0 \<longrightarrow> W w = Some a \<longleftrightarrow> inq Q a w)"

definition tids :: "futex_state \<Rightarrow> addr \<Rightarrow> int option" where
  "tids st w = map_option w_tid (fwaiter st w)"

definition acts_ok :: "(int \<Rightarrow> addr) \<Rightarrow> (addr \<Rightarrow> int option) \<Rightarrow> bool" where
  "acts_ok A T \<longleftrightarrow> T 0 = None \<and> (\<forall>w t. w \<noteq> 0 \<longrightarrow> A t = w \<longleftrightarrow> T w = Some t)"

definition woken_ok :: "futex_state \<Rightarrow> bool" where
  "woken_ok st \<longleftrightarrow> (\<forall>w x. fwaiter st w = Some x \<longrightarrow> (w_woken x \<longrightarrow> w_node x = 0) \<and> w_bitset x \<noteq> 0)"

definition futex_ok :: "futex_state \<Rightarrow> bool" where
  "futex_ok st \<longleftrightarrow> table_ok (futex_table st) (keys st) \<and> queues_ok (queue st) (place st) \<and>
     acts_ok (active_waiter st) (tids st) \<and> woken_ok st"

definition no_empty :: "futex_state \<Rightarrow> bool" where
  "no_empty st \<longleftrightarrow> (\<forall>a. queue st a \<noteq> Some [])"

lemma futex_okD:
  assumes "futex_ok st"
  shows "table_ok (futex_table st) (keys st)" "queues_ok (queue st) (place st)"
    "acts_ok (active_waiter st) (tids st)" "woken_ok st" "fnode st 0 = None" "fwaiter st 0 = None"
  using assms by (auto simp: futex_ok_def table_ok_def queues_ok_def keys_def place_def)

section \<open>Queues and places\<close>

lemma queues_okD:
  assumes "queues_ok Q W"
  shows "Q 0 = None" "W 0 = None" "Q a = Some ws \<Longrightarrow> distinct ws" "Q a = Some ws \<Longrightarrow> a \<noteq> 0"
    "Q a = Some ws \<Longrightarrow> W w = Some a \<longleftrightarrow> w \<in> set ws" "a \<noteq> 0 \<Longrightarrow> W w = Some a \<longleftrightarrow> inq Q a w"
proof -
  show 4: "Q a = Some ws \<Longrightarrow> a \<noteq> 0" using assms by (auto simp: queues_ok_def intro!: gr0I)
  show "a \<noteq> 0 \<Longrightarrow> W w = Some a \<longleftrightarrow> inq Q a w" using assms by (simp add: queues_ok_def)
  then show "Q a = Some ws \<Longrightarrow> W w = Some a \<longleftrightarrow> w \<in> set ws" using 4 by (simp add: inq_def)
qed (use assms in \<open>auto simp: queues_ok_def\<close>)

lemma queues_okI:
  assumes "Q 0 = None" "W 0 = None" "\<And>a ws. Q a = Some ws \<Longrightarrow> distinct ws"
    "\<And>a w. a \<noteq> 0 \<Longrightarrow> W w = Some a \<longleftrightarrow> inq Q a w"
  shows "queues_ok Q W"
  using assms by (auto simp: queues_ok_def)

lemma inq_upd: "inq (Q(a := q)) b w = (if b = a then case q of None \<Rightarrow> False | Some ws \<Rightarrow> w \<in> set ws else inq Q b w)"
  by (simp add: inq_def)

lemma queues_unlink:
  assumes "queues_ok Q W" "W w = Some a" "a \<noteq> 0" "Q a = Some ws"
  shows "queues_ok (Q(a \<mapsto> remove1 w ws)) (W(w \<mapsto> 0))"
proof (rule queues_okI)
  note D = queues_okD [OF assms(1)]
  have d: "distinct ws" using D(3) assms(4) .
  show "(Q(a \<mapsto> remove1 w ws)) 0 = None" "(W(w \<mapsto> 0)) 0 = None" using D(1,2) assms(2,3) by (auto intro!: gr0I)
  show "distinct vs" if "(Q(a \<mapsto> remove1 w ws)) b = Some vs" for b vs
    using that d D(3) by (auto split: if_splits)
  show "(W(w \<mapsto> 0)) v = Some b \<longleftrightarrow> inq (Q(a \<mapsto> remove1 w ws)) b v" if "b \<noteq> 0" for b v
    using D(5) [OF assms(4), of v] D(6) [OF that, of v] assms(2) d that by (auto simp: inq_upd)
qed

lemma queues_push:
  assumes "queues_ok Q W" "Q a = Some ws" "w \<noteq> 0" "W w = None \<or> W w = Some 0"
  shows "queues_ok (Q(a \<mapsto> w # ws)) (W(w \<mapsto> a))"
proof (rule queues_okI)
  note D = queues_okD [OF assms(1)]
  have a: "a \<noteq> 0" and d: "distinct ws" using D(3,4) assms(2) by blast+
  have w: "w \<notin> set ws" using D(5) [OF assms(2), of w] assms(4) a by auto
  show "(Q(a \<mapsto> w # ws)) 0 = None" "(W(w \<mapsto> a)) 0 = None" using D(1,2) a assms(3) by auto
  show "distinct vs" if "(Q(a \<mapsto> w # ws)) b = Some vs" for b vs
    using that d w D(3) by (auto split: if_splits)
  show "(W(w \<mapsto> a)) v = Some b \<longleftrightarrow> inq (Q(a \<mapsto> w # ws)) b v" if "b \<noteq> 0" for b v
    using D(5) [OF assms(2), of v] D(6) [OF that, of v] assms(4) that by (auto simp: inq_upd)
qed

lemma queues_drop:
  assumes "queues_ok Q W" "Q a = Some []"
  shows "queues_ok (Q(a := None)) W"
  by (rule queues_okI) (use queues_okD [OF assms(1)] assms(2) in \<open>auto simp: inq_upd split: if_splits\<close>)

lemma queues_new:
  assumes "queues_ok Q W" "a \<noteq> 0" "Q a = None"
  shows "queues_ok (Q(a \<mapsto> [])) W"
proof (rule queues_okI)
  note D = queues_okD [OF assms(1)]
  show "W v = Some b \<longleftrightarrow> inq (Q(a \<mapsto> [])) b v" if "b \<noteq> 0" for b v
    using D(6) [OF that] assms(3) by (auto simp: inq_upd inq_def)
qed (use queues_okD [OF assms(1)] assms(2) in \<open>auto split: if_splits\<close>)

lemma queues_forget:
  assumes "queues_ok Q W" "W w = Some 0"
  shows "queues_ok Q (W(w := None))"
proof (rule queues_okI)
  note D = queues_okD [OF assms(1)]
  show "(W(w := None)) v = Some b \<longleftrightarrow> inq Q b v" if "b \<noteq> 0" for b v
    using D(6) [OF that, of v] assms(2) that by auto
qed (use queues_okD [OF assms(1)] in auto)

lemma acts_add:
  assumes "acts_ok A T" "w \<noteq> 0" "T w = None" "A t = 0"
  shows "acts_ok (A(t := w)) (T(w \<mapsto> t))"
proof -
  have "T v \<noteq> Some t" if "v \<noteq> 0" for v using assms(1,4) that unfolding acts_ok_def by metis
  then show ?thesis using assms by (auto simp: acts_ok_def)
qed

lemma acts_del:
  assumes "acts_ok A T" "T w = Some t"
  shows "acts_ok (A(t := 0)) (T(w := None))"
proof -
  have "T v \<noteq> Some t" if "v \<noteq> w" for v using assms that unfolding acts_ok_def by (metis option.distinct(1))
  then show ?thesis using assms by (auto simp: acts_ok_def)
qed

section \<open>The table\<close>

lemma table_new:
  assumes "table_ok T K" "K a = None" "a \<noteq> 0" "\<forall>b. K b \<noteq> Some (k, ow)"
  shows "table_ok (T(futex_hash k ow := a # T (futex_hash k ow))) (K(a \<mapsto> (k, ow)))"
proof -
  have n: "a \<notin> set (T h)" for h using assms by (auto simp: table_ok_def)
  have "inj_on (K(a \<mapsto> (k, ow))) (dom (K(a \<mapsto> (k, ow))))"
    using assms by (auto simp: table_ok_def inj_on_def)
  then show ?thesis using assms n by (auto simp: table_ok_def)
qed

lemma table_drop:
  assumes "table_ok T K" "K a = Some (k, ow)"
  shows "table_ok (T(futex_hash k ow := remove1 a (T (futex_hash k ow)))) (K(a := None))"
proof -
  have "inj_on (K(a := None)) (dom (K(a := None)))"
    using assms(1) by (auto simp: table_ok_def inj_on_def)
  moreover have "set (remove1 a (T h)) = set (T h) - {a}" for h
    using assms(1) by (simp add: table_ok_def)
  ultimately show ?thesis using assms by (auto simp: table_ok_def)
qed

lemma keys_Some: "keys st a = Some k \<longleftrightarrow> (\<exists>n. fnode st a = Some n \<and> k = (n_key n, n_owner n))"
  by (auto simp: keys_def)

lemma table_okD:
  assumes "table_ok T K"
  shows "K 0 = None" "K a = Some k \<Longrightarrow> K b = Some k \<Longrightarrow> a = b" "a \<in> set (T h) \<longleftrightarrow> (\<exists>k. K a = Some k \<and> futex_hash (fst k) (snd k) = h)"
  using assms inj_onD [of K "dom K" a b] by (auto simp: table_ok_def)

text \<open>Looking a key up finds its node if there is one, and makes one if asked to.\<close>

lemma find_node_cases:
  assumes ok: "futex_ok st" and f: "futex_find_node key owner create p st = (st', a)"
  shows "(keys st a = Some (key, owner) \<and> st' = st \<and> a \<noteq> 0) \<or>
    (\<forall>b. keys st b \<noteq> Some (key, owner)) \<and>
      (if create \<and> p \<noteq> 0
       then a = p \<and> st' = set_node p \<lparr>n_key = key, n_owner = owner, n_waiters = []\<rparr>
         (st\<lparr>futex_table := (futex_table st)(futex_hash key owner := p # futex_table st (futex_hash key owner))\<rparr>)
       else a = 0 \<and> st' = st)"
proof -
  let ?h = "futex_hash key owner"
  note T = futex_okD(1) [OF ok]
  have nd: "node_is key owner st b \<longleftrightarrow> keys st b = Some (key, owner)" for b
    by (auto simp: node_is_def keys_def split: option.split)
  show ?thesis
  proof (cases "List.find (node_is key owner st) (futex_table st ?h)")
    case None
    then have "\<forall>b \<in> set (futex_table st ?h). keys st b \<noteq> Some (key, owner)" by (auto simp: find_None_iff nd)
    moreover have "b \<in> set (futex_table st ?h)" if "keys st b = Some (key, owner)" for b
      using that table_okD(3) [OF T] by auto
    ultimately have "\<forall>b. keys st b \<noteq> Some (key, owner)" by blast
    then show ?thesis using f None by (auto simp: futex_find_node_def Let_def split: if_splits)
  next
    case (Some b)
    then have k: "keys st b = Some (key, owner)" by (auto simp: find_Some_iff nd)
    then have "b \<noteq> 0" using table_okD(1) [OF T] by (cases "b = 0") auto
    then show ?thesis using f Some k by (simp add: futex_find_node_def Let_def)
  qed
qed

section \<open>The operations on one waiter or node\<close>

lemma set_views [simp]:
  "futex_table (set_node a n st) = futex_table st" "fwaiter (set_node a n st) = fwaiter st"
  "active_waiter (set_node a n st) = active_waiter st" "fnode (set_node a n st) = (fnode st)(a \<mapsto> n)"
  "futex_table (set_waiter w x st) = futex_table st" "fnode (set_waiter w x st) = fnode st"
  "active_waiter (set_waiter w x st) = active_waiter st" "fwaiter (set_waiter w x st) = (fwaiter st)(w \<mapsto> x)"
  "gone (set_node a n st) = gone st" "ready (set_node a n st) = ready st"
  "gone (set_waiter w x st) = gone st" "ready (set_waiter w x st) = ready st"
  by (simp_all add: set_node_def set_waiter_def)

lemma maps_upd:
  "keys (set_node a n st) = (keys st)(a \<mapsto> (n_key n, n_owner n))" "queue (set_node a n st) = (queue st)(a \<mapsto> n_waiters n)"
  "place (set_node a n st) = place st" "keys (set_waiter w x st) = keys st" "queue (set_waiter w x st) = queue st"
  "place (set_waiter w x st) = (place st)(w \<mapsto> w_node x)" "tids (set_node a n st) = tids st"
  "tids (set_waiter w x st) = (tids st)(w \<mapsto> w_tid x)"
  by (auto simp: keys_def queue_def place_def tids_def fun_eq_iff)

text \<open>Where a waiter is queued, its node is there.\<close>

lemma waiter_queued:
  assumes ok: "futex_ok st" and x: "fwaiter st w = Some x" "w_node x \<noteq> 0"
  obtains n where "fnode st (w_node x) = Some n" "w \<in> set (n_waiters n)"
proof -
  have "place st w = Some (w_node x)" using x by (simp add: place_def)
  then have "inq (queue st) (w_node x) w" using queues_okD(6) [OF futex_okD(2) [OF ok] x(2)] by simp
  then show thesis using that by (auto simp: inq_def queue_def split: option.splits)
qed

lemma unlink_eq:
  assumes ok: "futex_ok st" and x: "fwaiter st w = Some x" "w_node x \<noteq> 0" and n: "fnode st (w_node x) = Some n"
  shows "futex_unlink_waiter w st =
    set_waiter w (x\<lparr>w_node := 0\<rparr>) (set_node (w_node x) (n\<lparr>n_waiters := remove1 w (n_waiters n)\<rparr>) st)"
  using assms by (simp add: futex_unlink_waiter_def Let_def)

text \<open>Marking a queued waiter woken, as \<open>futex_wake_locked\<close> does, or only unlinking it.\<close>

lemma unlink_ok:
  assumes ok: "futex_ok st" and x: "fwaiter st w = Some x" "w_node x \<noteq> 0"
    and y: "w_tid y = w_tid x" "w_node y = 0" "w_bitset y = w_bitset x"
  shows "futex_ok (set_waiter w y (futex_unlink_waiter w st))"
    "keys (set_waiter w y (futex_unlink_waiter w st)) = keys st"
    "queue (set_waiter w y (futex_unlink_waiter w st)) =
       (queue st)(w_node x := map_option (remove1 w) (queue st (w_node x)))"
    "place (set_waiter w y (futex_unlink_waiter w st)) = (place st)(w \<mapsto> 0)"
proof -
  obtain n where n: "fnode st (w_node x) = Some n" "w \<in> set (n_waiters n)" by (rule waiter_queued [OF ok x])
  note e = unlink_eq [OF ok x n(1)]
  have k: "(keys st)(w_node x \<mapsto> (n_key n, n_owner n)) = keys st" using n by (auto simp: keys_def)
  show kk: "keys (set_waiter w y (futex_unlink_waiter w st)) = keys st" by (simp add: e maps_upd k)
  show q: "queue (set_waiter w y (futex_unlink_waiter w st)) =
       (queue st)(w_node x := map_option (remove1 w) (queue st (w_node x)))"
    using n by (simp add: e maps_upd queue_def)
  show p: "place (set_waiter w y (futex_unlink_waiter w st)) = (place st)(w \<mapsto> 0)"
    using y by (simp add: e maps_upd)
  have "queues_ok ((queue st)(w_node x \<mapsto> remove1 w (n_waiters n))) ((place st)(w \<mapsto> 0))"
    using x n by (intro queues_unlink [OF futex_okD(2) [OF ok]]) (simp_all add: place_def queue_def)
  moreover have "tids (set_waiter w y (futex_unlink_waiter w st)) = tids st"
    using x y by (auto simp: e maps_upd tids_def)
  moreover have "woken_ok (set_waiter w y (futex_unlink_waiter w st))"
    using futex_okD(4) [OF ok] x y unfolding e woken_ok_def by (auto split: if_splits)
  ultimately show "futex_ok (set_waiter w y (futex_unlink_waiter w st))"
    using futex_okD(1,3) [OF ok] n unfolding futex_ok_def kk q p by (simp add: e queue_def)
qed

lemma drop_ok:
  assumes ok: "futex_ok st"
  shows "futex_ok (futex_drop_empty a st)" "place (futex_drop_empty a st) = place st"
    "fwaiter (futex_drop_empty a st) = fwaiter st" "active_waiter (futex_drop_empty a st) = active_waiter st"
    "queue (futex_drop_empty a st) = (queue st)(a := (if queue st a = Some [] then None else queue st a))"
    "keys (futex_drop_empty a st) = (keys st)(a := (if queue st a = Some [] then None else keys st a))"
    "gone (futex_drop_empty a st) = gone st" "ready (futex_drop_empty a st) = ready st"
proof -
  let ?s = "futex_drop_empty a st"
  show f: "fwaiter ?s = fwaiter st" "active_waiter ?s = active_waiter st" "gone ?s = gone st" "ready ?s = ready st"
    by (simp_all add: futex_drop_empty_def split: option.split)
  show p: "place ?s = place st" by (simp add: place_def fun_eq_iff f)
  have t: "tids ?s = tids st" by (simp add: tids_def fun_eq_iff f)
  have w: "acts_ok (active_waiter ?s) (tids ?s)" "woken_ok ?s"
    using futex_okD(3,4) [OF ok] unfolding t f by (simp_all add: woken_ok_def f)
  have "futex_ok ?s \<and> queue ?s = (queue st)(a := (if queue st a = Some [] then None else queue st a)) \<and>
    keys ?s = (keys st)(a := (if queue st a = Some [] then None else keys st a))"
  proof (cases "queue st a = Some []")
    case True
    then obtain n where n: "fnode st a = Some n" "n_waiters n = []" by (auto simp: queue_def)
    have k: "keys st a = Some (n_key n, n_owner n)" using n by (simp add: keys_def)
    have a: "a \<noteq> 0" using n futex_okD(5) [OF ok] by (cases "a = 0") auto
    have "a \<in> set (futex_table st (node_hash n))"
      using k table_okD(3) [OF futex_okD(1) [OF ok]] by (auto simp: node_hash_def)
    then have e: "?s = st\<lparr>futex_table := (futex_table st)(node_hash n := remove1 a (futex_table st (node_hash n))),
        fnode := (fnode st)(a := None)\<rparr>"
      using n a by (simp add: futex_drop_empty_def)
    have q: "queue ?s = (queue st)(a := None)" "keys ?s = (keys st)(a := None)"
      by (auto simp: e queue_def keys_def)
    have "table_ok (futex_table ?s) (keys ?s)"
      unfolding q(2) using table_drop [OF futex_okD(1) [OF ok] k] by (simp add: e node_hash_def)
    then show ?thesis using queues_drop [OF futex_okD(2) [OF ok] True] w True q p by (simp add: futex_ok_def)
  next
    case False
    then have "?s = st" by (auto simp: futex_drop_empty_def queue_def split: option.split)
    then show ?thesis using False ok by simp
  qed
  then show "futex_ok ?s" "queue ?s = (queue st)(a := (if queue st a = Some [] then None else queue st a))"
    "keys ?s = (keys st)(a := (if queue st a = Some [] then None else keys st a))"
    by blast+
qed

text \<open>Taking a waiter off its queue and freeing it.\<close>

lemma take_off_ok:
  assumes ok: "futex_ok st" and ne: "no_empty st" and x: "fwaiter st w = Some x"
  shows "futex_ok (futex_take_off w (w_tid x) st)" "no_empty (futex_take_off w (w_tid x) st)"
proof -
  define st1 where "st1 = futex_unlink_waiter w st"
  define st2 where "st2 = futex_drop_empty (w_node x) st1"
  let ?s = "futex_take_off w (w_tid x) st"
  have e: "?s = st2\<lparr>active_waiter := (active_waiter st2)(w_tid x := 0), fwaiter := (fwaiter st2)(w := None)\<rparr>"
    using x by (simp add: futex_take_off_def waiter_node_def Let_def st1_def st2_def)
  have 1: "futex_ok st1 \<and> place st1 w = Some 0 \<and> fwaiter st1 w = Some (x\<lparr>w_node := 0\<rparr>) \<and>
    active_waiter st1 = active_waiter st \<and> (\<forall>a. a \<noteq> w_node x \<longrightarrow> queue st1 a = queue st a) \<and>
    (w_node x = 0 \<longrightarrow> st1 = st)"
  proof (cases "w_node x = 0")
    case True
    then have "st1 = st" "x\<lparr>w_node := 0\<rparr> = x" using x by (simp_all add: st1_def futex_unlink_waiter_def)
    then show ?thesis using ok x True by (simp add: place_def)
  next
    case False
    obtain n where n: "fnode st (w_node x) = Some n" by (rule waiter_queued [OF ok x False])
    have s: "set_waiter w (x\<lparr>w_node := 0\<rparr>) st1 = st1"
      by (simp add: st1_def unlink_eq [OF ok x False n] set_waiter_def)
    note U = unlink_ok [OF ok x False, of "x\<lparr>w_node := 0\<rparr>", folded st1_def, unfolded s]
    show ?thesis using U False by (simp add: st1_def unlink_eq [OF ok x False n])
  qed
  note D = drop_ok [OF conjunct1 [OF 1], of "w_node x", folded st2_def]
  have "queues_ok (queue ?s) (place ?s)"
  proof -
    have "place ?s = (place st2)(w := None)" "queue ?s = queue st2" by (auto simp: e place_def queue_def)
    moreover have "place st2 w = Some 0" using 1 D(2) by simp
    ultimately show ?thesis using queues_forget [OF futex_okD(2) [OF D(1)]] by simp
  qed
  moreover have "acts_ok (active_waiter ?s) (tids ?s)"
  proof -
    have "tids st2 w = Some (w_tid x)" using 1 D(3) by (simp add: tids_def)
    moreover have "tids ?s = (tids st2)(w := None)" by (auto simp: e tids_def)
    ultimately show ?thesis using acts_del [OF futex_okD(3) [OF D(1)]] by (simp add: e)
  qed
  moreover have "woken_ok ?s" using futex_okD(4) [OF D(1)] by (auto simp: e woken_ok_def)
  moreover have "table_ok (futex_table ?s) (keys ?s)"
  proof -
    have "keys ?s = keys st2" "futex_table ?s = futex_table st2" by (simp_all add: e keys_def fun_eq_iff)
    then show ?thesis using futex_okD(1) [OF D(1)] by simp
  qed
  ultimately show "futex_ok ?s" by (simp add: futex_ok_def)
  have "queue ?s = queue st2" by (simp add: e queue_def fun_eq_iff)
  then show "no_empty ?s" using ne 1 D(5) by (auto simp: no_empty_def)
qed

section \<open>Publishing a waiter\<close>

text \<open>A node that was found or made: the other queues are as before.\<close>

lemma find_node_ok:
  assumes ok: "futex_ok st" and p: "p \<noteq> 0 \<longrightarrow> fnode st p = None"
    and f: "futex_find_node key owner create p st = (st', a)"
  shows "futex_ok st'" "place st' = place st" "tids st' = tids st" "fwaiter st' = fwaiter st"
    "active_waiter st' = active_waiter st" "gone st' = gone st" "ready st' = ready st"
    "a \<noteq> 0 \<Longrightarrow> keys st' a = Some (key, owner)" "b \<noteq> a \<Longrightarrow> queue st' b = queue st b" "b \<noteq> a \<Longrightarrow> keys st' b = keys st b"
    "a \<noteq> 0 \<Longrightarrow> queue st' a = Some (case queue st a of None \<Rightarrow> [] | Some ws \<Rightarrow> ws)"
    "a = 0 \<Longrightarrow> st' = st \<and> (create \<longrightarrow> p = 0)"
    "a = 0 \<Longrightarrow> keys st b \<noteq> Some (key, owner)"
proof -
  consider (old) "keys st a = Some (key, owner)" "st' = st" "a \<noteq> 0"
    | (new) "\<forall>b. keys st b \<noteq> Some (key, owner)" "create" "a = p" "p \<noteq> 0"
        "st' = set_node p \<lparr>n_key = key, n_owner = owner, n_waiters = []\<rparr>
         (st\<lparr>futex_table := (futex_table st)(futex_hash key owner := p # futex_table st (futex_hash key owner))\<rparr>)"
    | (none) "\<forall>b. keys st b \<noteq> Some (key, owner)" "a = 0" "st' = st" "create \<longrightarrow> p = 0"
    using find_node_cases [OF ok f] by (auto split: if_splits)
  note C = this
  define st1 where "st1 = st\<lparr>futex_table := (futex_table st)(futex_hash key owner := p # futex_table st (futex_hash key owner))\<rparr>"
  have v: "keys st1 = keys st" "queue st1 = queue st" "place st1 = place st" "tids st1 = tids st"
    "fwaiter st1 = fwaiter st" "active_waiter st1 = active_waiter st" "gone st1 = gone st" "ready st1 = ready st"
    by (simp_all add: st1_def keys_def queue_def place_def tids_def fun_eq_iff)
  show "futex_ok st'"
  proof (cases rule: C)
    case new
    then have kp: "keys st p = None" "queue st p = None" using p by (simp_all add: keys_def queue_def)
    have "table_ok (futex_table st') (keys st')"
      unfolding new(5) using table_new [OF futex_okD(1) [OF ok] kp(1) new(4,1)]
      by (simp add: maps_upd v [unfolded st1_def])
    moreover have "queues_ok (queue st') (place st')"
      unfolding new(5) using queues_new [OF futex_okD(2) [OF ok] new(4) kp(2)] by (simp add: maps_upd v [unfolded st1_def])
    ultimately show ?thesis
      using futex_okD(3,4) [OF ok] by (simp add: futex_ok_def new(5) maps_upd v [unfolded st1_def] woken_ok_def)
  qed (use ok in simp_all)
  show "place st' = place st" "tids st' = tids st" "fwaiter st' = fwaiter st"
    "active_waiter st' = active_waiter st" "gone st' = gone st" "ready st' = ready st"
    by (cases rule: C; simp add: maps_upd v [unfolded st1_def])+
  show "a \<noteq> 0 \<Longrightarrow> keys st' a = Some (key, owner)" "b \<noteq> a \<Longrightarrow> queue st' b = queue st b" "b \<noteq> a \<Longrightarrow> keys st' b = keys st b"
    by (cases rule: C; simp add: maps_upd v [unfolded st1_def])+
  show "a = 0 \<Longrightarrow> st' = st \<and> (create \<longrightarrow> p = 0)" "a = 0 \<Longrightarrow> keys st b \<noteq> Some (key, owner)"
    by (cases rule: C; simp)+
  show "queue st' a = Some (case queue st a of None \<Rightarrow> [] | Some ws \<Rightarrow> ws)" if "a \<noteq> 0"
    by (cases rule: C) (use that p in \<open>auto simp: maps_upd v [unfolded st1_def] queue_def keys_def split: option.split\<close>)
qed

lemma keys_queue: "keys st a = None \<longleftrightarrow> queue st a = None"
  by (simp add: keys_def queue_def)

lemma enqueue_spec:
  assumes ok: "futex_ok st" and ne: "no_empty st" and idle: "active_waiter st tid = 0"
    and w: "w \<noteq> 0 \<longrightarrow> fwaiter st w = None" and p: "p \<noteq> 0 \<longrightarrow> fnode st p = None" and rd: "rd \<noteq> Inl 0" and bs: "bitset \<noteq> 0"
    and e: "futex_wait_enqueue tid key owner bitset rd val w p st = (st', r)"
  shows "r \<noteq> 0 \<and> st' = st \<or>
    r = 0 \<and> rd = Inr val \<and> futex_ok st' \<and> no_empty st' \<and> active_waiter st' = (active_waiter st)(tid := w) \<and>
      gone st' = gone st \<and>
      (\<exists>a. keys st' a = Some (key, owner) \<and> queue st' a = Some (w # (case queue st a of None \<Rightarrow> [] | Some ws \<Rightarrow> ws)) \<and>
        fwaiter st' = (fwaiter st)(w \<mapsto> \<lparr>w_tid = tid, w_bitset = bitset, w_woken = False, w_node = a\<rparr>) \<and>
        (\<forall>b. b \<noteq> a \<longrightarrow> queue st' b = queue st b \<and> keys st' b = keys st b))"
proof (cases "w \<noteq> 0 \<and> rd = Inr val \<and> snd (futex_find_node key owner True p st) \<noteq> 0")
  case False
  have "st1 = st" if "futex_find_node key owner True p st = (st1, 0)" for st1
    using find_node_ok(12) [OF ok p that] by simp
  then show ?thesis using e rd False
    by (auto simp: futex_wait_enqueue_def EAGAIN_def ENOMEM_def split: if_splits sum.splits prod.splits)
next
  case True
  then have w0: "w \<noteq> 0" by simp
  obtain st1 a where f: "futex_find_node key owner True p st = (st1, a)" by fastforce
  note F = find_node_ok [OF ok p f]
  have a: "a \<noteq> 0" using True f by simp
  obtain n where n: "fnode st1 a = Some n" "n_key n = key" "n_owner n = owner" using F(8) [OF a] by (auto simp: keys_Some)
  have q1: "queue st1 a = Some (n_waiters n)" using n by (simp add: queue_def)
  define x where "x = \<lparr>w_tid = tid, w_bitset = bitset, w_woken = False, w_node = a\<rparr>"
  have e': "st' = (set_node a (n\<lparr>n_waiters := w # n_waiters n\<rparr>) (set_waiter w x st1))
      \<lparr>active_waiter := (active_waiter st1)(tid := w)\<rparr>" "r = 0"
    using e True f a n(1) by (simp_all add: futex_wait_enqueue_def x_def)
  have k: "keys st' = keys st1" "queue st' = (queue st1)(a \<mapsto> w # n_waiters n)" "place st' = (place st1)(w \<mapsto> a)"
    "tids st' = (tids st1)(w \<mapsto> tid)" "futex_table st' = futex_table st1" "fwaiter st' = (fwaiter st1)(w \<mapsto> x)"
    "gone st' = gone st1" "active_waiter st' = (active_waiter st1)(tid := w)"
    using n by (auto simp: e'(1) keys_def queue_def place_def tids_def x_def fun_eq_iff)
  have "queues_ok (queue st') (place st')"
    unfolding k(2,3) by (rule queues_push [OF futex_okD(2) [OF F(1)] q1 w0]) (use w w0 F(2) in \<open>simp add: place_def\<close>)
  moreover have "acts_ok (active_waiter st') (tids st')"
    unfolding k(4,8) by (rule acts_add [OF futex_okD(3) [OF F(1)] w0]) (use w w0 F(3,5) idle in \<open>simp_all add: tids_def\<close>)
  moreover have "woken_ok st'" using futex_okD(4) [OF F(1)] bs by (auto simp: woken_ok_def k(6) x_def)
  ultimately have ok': "futex_ok st'" using futex_okD(1) [OF F(1)] by (simp add: futex_ok_def k(1,5))
  have "no_empty st'" using ne F(9) by (auto simp: no_empty_def k(2))
  moreover have "keys st' a = Some (key, owner)" using F(8) [OF a] by (simp add: k(1))
  moreover have "queue st' a = Some (w # (case queue st a of None \<Rightarrow> [] | Some ws \<Rightarrow> ws))"
    using F(11) [OF a] q1 by (simp add: k(2))
  moreover have "\<forall>b. b \<noteq> a \<longrightarrow> queue st' b = queue st b \<and> keys st' b = keys st b"
    using F(9,10) by (simp add: k(1,2))
  ultimately show ?thesis using ok' True F(4,5,6) e'(2) by (auto simp: k(6,7,8) x_def)
qed

section \<open>Waking\<close>

definition matches :: "futex_state \<Rightarrow> u32 \<Rightarrow> addr \<Rightarrow> bool" where
  "matches st b w \<longleftrightarrow> (case fwaiter st w of None \<Rightarrow> False | Some x \<Rightarrow> w_bitset x AND b \<noteq> 0)"

definition wake_up :: "futex_waiter \<Rightarrow> futex_waiter" where
  "wake_up x = x\<lparr>w_node := 0, w_woken := True\<rparr>"

text \<open>Waking one queued waiter.\<close>

lemma wake_one:
  assumes ok: "futex_ok st" and q: "queue st a = Some L" "w \<in> set L"
  obtains x st1 where "fwaiter st w = Some x" "w_node x = a"
    "st1 = set_waiter w (wake_up x) (futex_unlink_waiter w st)"
    "futex_ok st1" "keys st1 = keys st" "queue st1 = (queue st)(a \<mapsto> remove1 w L)"
    "fwaiter st1 = (fwaiter st)(w \<mapsto> wake_up x)" "active_waiter st1 = active_waiter st" "gone st1 = gone st"
    "ready st1 = ready st" "tids st1 = tids st"
proof -
  note Q = futex_okD(2) [OF ok]
  have a: "a \<noteq> 0" using queues_okD(4) [OF Q q(1)] .
  have "place st w = Some a" using queues_okD(5) [OF Q q(1)] q(2) by simp
  then obtain x where x: "fwaiter st w = Some x" "w_node x = a" by (auto simp: place_def)
  have x0: "w_node x \<noteq> 0" using x a by simp
  obtain n where n: "fnode st (w_node x) = Some n" by (rule waiter_queued [OF ok x(1) x0])
  have u: "futex_unlink_waiter w st =
    set_waiter w (x\<lparr>w_node := 0\<rparr>) (set_node (w_node x) (n\<lparr>n_waiters := remove1 w (n_waiters n)\<rparr>) st)"
    by (rule unlink_eq [OF ok x(1) x0 n])
  define st1 where "st1 = set_waiter w (wake_up x) (futex_unlink_waiter w st)"
  have U: "futex_ok st1" "keys st1 = keys st" "queue st1 = (queue st)(w_node x := map_option (remove1 w) (queue st (w_node x)))"
    using unlink_ok [OF ok x(1) x0, of "wake_up x"] by (simp_all add: st1_def wake_up_def)
  have v: "fwaiter st1 = (fwaiter st)(w \<mapsto> wake_up x)" "active_waiter st1 = active_waiter st" "gone st1 = gone st"
    "ready st1 = ready st"
    by (simp_all add: st1_def u)
  moreover have "tids st1 = tids st" using x by (auto simp: tids_def v wake_up_def)
  ultimately show thesis using that [OF x st1_def U(1,2)] U(3) x q by simp
qed

lemma ready_views [simp]: "keys (st\<lparr>ready := r\<rparr>) = keys st" "place (st\<lparr>ready := r\<rparr>) = place st"
  "queue (st\<lparr>ready := r\<rparr>) = queue st" "tids (st\<lparr>ready := r\<rparr>) = tids st" "matches (st\<lparr>ready := r\<rparr>) = matches st"
  by (simp_all add: keys_def queue_def place_def tids_def matches_def fun_eq_iff)

lemma futex_ok_ready [simp]: "futex_ok (st\<lparr>ready := r\<rparr>) = futex_ok st"
  by (simp add: futex_ok_def woken_ok_def)

text \<open>The loop, whoever the waiters are: it keeps the invariant and touches only one queue.\<close>

lemma wake_loop_ok:
  assumes "futex_ok st" "queue st a = Some L" "set ws \<subseteq> set L" "distinct ws"
    and "wake_loop ws count b st woke = (st', r)"
  shows "futex_ok st' \<and> keys st' = keys st \<and> (\<forall>c. c \<noteq> a \<longrightarrow> queue st' c = queue st c) \<and>
    (\<exists>L'. queue st' a = Some L' \<and> set L' \<subseteq> set L) \<and> active_waiter st' = active_waiter st \<and> tids st' = tids st \<and>
    gone st' = gone st"
  using assms
proof (induction ws arbitrary: st L woke)
  case (Cons w ws)
  obtain x st1 where 1: "fwaiter st w = Some x" "w_node x = a"
    "st1 = set_waiter w (wake_up x) (futex_unlink_waiter w st)"
    "futex_ok st1" "keys st1 = keys st" "queue st1 = (queue st)(a \<mapsto> remove1 w L)"
    "fwaiter st1 = (fwaiter st)(w \<mapsto> wake_up x)" "active_waiter st1 = active_waiter st" "gone st1 = gone st"
    "ready st1 = ready st" "tids st1 = tids st"
    by (rule wake_one [OF Cons.prems(1,2)]) (use Cons.prems(3) in auto)
  have d: "distinct L" using queues_okD(3) [OF futex_okD(2) [OF Cons.prems(1)] Cons.prems(2)] .
  show ?case
  proof (cases "woke < count \<and> w_bitset x AND b \<noteq> 0")
    case False
    then have "wake_loop (w # ws) count b st woke = (st, woke) \<or>
        wake_loop (w # ws) count b st woke = wake_loop ws count b st woke"
      using 1(1) by auto
    then show ?thesis using Cons.IH [OF Cons.prems(1,2)] Cons.prems by auto
  next
    case True
    define st2 where "st2 = (if \<not> gone st1 (w_tid x) \<and> active_waiter st1 (w_tid x) = w
        then st1\<lparr>ready := (ready st1)(w_tid x := True)\<rparr> else st1)"
    define woke2 where "woke2 = (if \<not> gone st1 (w_tid x) \<and> active_waiter st1 (w_tid x) = w then woke + 1 else woke)"
    have e: "wake_loop (w # ws) count b st woke = wake_loop ws count b st2 woke2"
      using True 1(1,3) by (simp add: Let_def st2_def woke2_def wake_up_def)
    have 2: "futex_ok st2" "keys st2 = keys st" "queue st2 = (queue st)(a \<mapsto> remove1 w L)"
      "active_waiter st2 = active_waiter st" "tids st2 = tids st" "gone st2 = gone st"
      using 1 by (auto simp: st2_def)
    have "set ws \<subseteq> set (remove1 w L)" using Cons.prems(3,4) d by auto
    then show ?thesis
      using Cons.IH [of st2 "remove1 w L" woke2] 2 Cons.prems(4,5) e d by fastforce
  qed
qed auto

text \<open>When no thread in the queue is gone, the loop wakes exactly the first waiters that match.\<close>

lemma wake_loop_exact:
  assumes "futex_ok st" "queue st a = Some L" "set ws \<subseteq> set L" "distinct ws" "woke \<le> count"
    and "\<forall>w \<in> set ws. \<forall>t. tids st w = Some t \<longrightarrow> \<not> gone st t"
    and "wake_loop ws count b st woke = (st', r)"
  defines "taken \<equiv> take (nat (count - woke)) (filter (matches st b) ws)"
  shows "r = woke + int (length taken) \<and> queue st' a = Some (filter (\<lambda>w. w \<notin> set taken) L) \<and>
    (\<forall>w. fwaiter st' w = (if w \<in> set taken then map_option wake_up (fwaiter st w) else fwaiter st w)) \<and>
    (\<forall>t. ready st' t \<longleftrightarrow> ready st t \<or> (\<exists>w \<in> set taken. tids st w = Some t))"
  using assms(1-7) unfolding taken_def
proof (induction ws arbitrary: st L woke)
  case (Cons w ws)
  obtain x st1 where 1: "fwaiter st w = Some x" "w_node x = a"
    "st1 = set_waiter w (wake_up x) (futex_unlink_waiter w st)"
    "futex_ok st1" "keys st1 = keys st" "queue st1 = (queue st)(a \<mapsto> remove1 w L)"
    "fwaiter st1 = (fwaiter st)(w \<mapsto> wake_up x)" "active_waiter st1 = active_waiter st" "gone st1 = gone st"
    "ready st1 = ready st" "tids st1 = tids st"
    by (rule wake_one [OF Cons.prems(1,2)]) (use Cons.prems(3) in auto)
  have d: "distinct L" using queues_okD(3) [OF futex_okD(2) [OF Cons.prems(1)] Cons.prems(2)] .
  have m: "matches st b w \<longleftrightarrow> w_bitset x AND b \<noteq> 0" using 1(1) by (simp add: matches_def)
  show ?case
  proof (cases "woke < count")
    case False
    then show ?thesis using Cons.prems(2,7) by simp
  next
    case lt: True
    show ?thesis
    proof (cases "matches st b w")
      case False
      then have "wake_loop ws count b st woke = (st', r)" using Cons.prems(7) lt 1(1) m by simp
      then show ?thesis using Cons.IH [OF Cons.prems(1,2)] Cons.prems False by simp
    next
      case True
      define st2 where "st2 = st1\<lparr>ready := (ready st1)(w_tid x := True)\<rparr>"
      have t: "tids st w = Some (w_tid x)" using 1(1) by (simp add: tids_def)
      have w0: "w \<noteq> 0" using 1(1) futex_okD(6) [OF Cons.prems(1)] by (cases "w = 0") auto
      have act: "active_waiter st (w_tid x) = w"
        using futex_okD(3) [OF Cons.prems(1)] t w0 by (simp add: acts_ok_def)
      have "\<not> gone st (w_tid x)" using Cons.prems(6) t by simp
      then have e: "wake_loop ws count b st2 (woke + 1) = (st', r)"
        using Cons.prems(7) lt True m 1(1,3,8,9) act by (simp add: Let_def st2_def wake_up_def)
      have 2: "futex_ok st2" "queue st2 a = Some (remove1 w L)" "tids st2 = tids st" "gone st2 = gone st"
        "fwaiter st2 = (fwaiter st)(w \<mapsto> wake_up x)" "ready st2 = (ready st)(w_tid x := True)"
        using 1 by (auto simp: st2_def)
      have mm: "filter (matches st2 b) ws = filter (matches st b) ws"
        using Cons.prems(4) by (intro filter_cong) (auto simp: matches_def 2(5))
      define tk where "tk = take (nat (count - (woke + 1))) (filter (matches st b) ws)"
      have tk: "take (nat (count - woke)) (filter (matches st b) (w # ws)) = w # tk"
      proof -
        have "nat (count - woke) = Suc (nat (count - (woke + 1)))" using lt by simp
        then show ?thesis using True by (simp add: tk_def)
      qed
      have sub: "set tk \<subseteq> set ws" by (auto simp: tk_def dest: in_set_takeD)
      have pre: "set ws \<subseteq> set (remove1 w L)" "distinct ws" "woke + 1 \<le> count"
        "\<forall>v \<in> set ws. \<forall>t. tids st2 v = Some t \<longrightarrow> \<not> gone st2 t"
        using Cons.prems(3,4,6) d lt by (auto simp: 2(3,4))
      have IH: "r = woke + 1 + int (length tk) \<and> queue st' a = Some (filter (\<lambda>v. v \<notin> set tk) (remove1 w L)) \<and>
        (\<forall>v. fwaiter st' v = (if v \<in> set tk then map_option wake_up (fwaiter st2 v) else fwaiter st2 v)) \<and>
        (\<forall>t. ready st' t \<longleftrightarrow> ready st2 t \<or> (\<exists>v \<in> set tk. tids st2 v = Some t))"
        using Cons.IH [OF 2(1,2) pre e] unfolding mm tk_def [symmetric] .
      have "filter (\<lambda>v. v \<notin> set tk) (remove1 w L) = filter (\<lambda>v. v \<notin> set (w # tk)) L"
        using d by (auto simp: distinct_remove1_removeAll removeAll_filter_not_eq intro!: filter_cong)
      moreover have "w \<notin> set tk" using sub Cons.prems(4) by auto
      ultimately show ?thesis using IH unfolding tk by (auto simp: 2(3,5,6) t 1(1))
    qed
  qed
qed simp

section \<open>The queue of a key\<close>

text \<open>What \<open>futex_find_node\<close> leads to.\<close>

definition fqueue :: "addr \<times> addr \<Rightarrow> futex_state \<Rightarrow> addr list" where
  "fqueue k st =
     (case List.find (node_is (fst k) (snd k) st) (futex_table st (futex_hash (fst k) (snd k))) of
        None \<Rightarrow> [] | Some a \<Rightarrow> (case queue st a of None \<Rightarrow> [] | Some ws \<Rightarrow> ws))"

lemma fqueue_at:
  assumes "futex_ok st" "keys st a = Some k" "queue st a = Some ws"
  shows "fqueue k st = ws"
proof -
  obtain b where f: "futex_find_node (fst k) (snd k) False 0 st = (st, b)"
    using find_node_ok(12) [OF assms(1), of 0 "fst k" "snd k" False] find_node_cases [OF assms(1), of "fst k" "snd k" False 0]
    by (metis surj_pair)
  then have "keys st b = Some k" "b \<noteq> 0" using find_node_cases [OF assms(1) f] assms(2) by auto
  then have "b = a" using table_okD(2) [OF futex_okD(1) [OF assms(1)]] assms(2) by blast
  then show ?thesis using f assms(3) \<open>b \<noteq> 0\<close>
    by (auto simp: fqueue_def futex_find_node_def Let_def split: option.splits)
qed

lemma fqueue_none:
  assumes "futex_ok st" "\<forall>a. keys st a \<noteq> Some k"
  shows "fqueue k st = []"
proof -
  have nd: "node_is (fst k) (snd k) st b \<longleftrightarrow> keys st b = Some k" for b
    by (auto simp: node_is_def keys_def split: option.split)
  have "List.find (node_is (fst k) (snd k) st) (futex_table st (futex_hash (fst k) (snd k))) = None"
    using assms(2) by (simp add: find_None_iff nd)
  then show ?thesis by (simp add: fqueue_def)
qed

lemma fqueue_cases:
  assumes "futex_ok st"
  obtains a where "keys st a = Some k" "queue st a = Some (fqueue k st)" | "\<forall>a. keys st a \<noteq> Some k" "fqueue k st = []"
proof (cases "\<exists>a. keys st a = Some k")
  case True
  then obtain a where a: "keys st a = Some k" by blast
  then obtain ws where "queue st a = Some ws" using keys_queue [of st a] by fastforce
  then show thesis using that(1) a fqueue_at [OF assms a] by simp
next
  case False
  then show thesis using that(2) fqueue_none [OF assms] by blast
qed

text \<open>The queues depend only on the keys and the nodes' queues.\<close>

lemma fqueue_cong:
  assumes "futex_ok st" "futex_ok st'" "\<And>a. keys st a = Some k \<longleftrightarrow> keys st' a = Some k"
    "\<And>a. keys st a = Some k \<Longrightarrow> queue st' a = queue st a"
  shows "fqueue k st' = fqueue k st"
proof (cases rule: fqueue_cases [OF assms(1), of k])
  case (1 a)
  then show ?thesis using fqueue_at [OF assms(2)] assms(3,4) by simp
next
  case 2
  then show ?thesis using fqueue_none [OF assms(2)] assms(3) by simp
qed

text \<open>Dropping an empty node does not show.\<close>

lemma fqueue_drop:
  assumes "futex_ok st"
  shows "fqueue k (futex_drop_empty a st) = fqueue k st"
proof (cases "keys st a = Some k \<and> queue st a = Some []")
  case False
  note D = drop_ok [OF assms, of a]
  show ?thesis by (rule fqueue_cong [OF assms D(1)]) (use False in \<open>auto simp: D(5,6) split: if_splits\<close>)
next
  case True
  note D = drop_ok [OF assms, of a]
  have "\<forall>b. keys (futex_drop_empty a st) b \<noteq> Some k"
    using True table_okD(2) [OF futex_okD(1) [OF assms], of a k] by (auto simp: D(6))
  then show ?thesis using fqueue_none [OF D(1)] fqueue_at [OF assms, of a k "[]"] True by simp
qed

end
