(* ===== verification/Futex_Props.thy ===== *)
theory Futex_Props
  imports Futex_Thms
begin

text \<open>
  The properties of futexes: well-formedness in every reachable state, what waking and requeueing do
  to the queues, and that a published waiter cannot miss a wake-up.
\<close>

section \<open>Waking\<close>

lemma find_node_False:
  assumes "futex_ok st"
  obtains a where "futex_find_node (fst k) (snd k) False 0 st = (st, a)"
    "a \<noteq> 0 \<longrightarrow> keys st a = Some k" "a = 0 \<longrightarrow> (\<forall>b. keys st b \<noteq> Some k)"
proof -
  obtain st' a where f: "futex_find_node (fst k) (snd k) False 0 st = (st', a)" by fastforce
  then show thesis using that find_node_cases [OF assms f] by auto
qed

lemma wake_locked_run:
  assumes ok: "futex_ok st" and k: "keys st a = Some k" and a: "a \<noteq> 0"
    and w: "futex_wake_locked a count b st = (st', r)"
  shows "queue st a = Some (fqueue k st) \<and> wake_loop (fqueue k st) count b st 0 = (st', r) \<and> distinct (fqueue k st)"
proof -
  obtain n where n: "fnode st a = Some n" using k by (auto simp: keys_def)
  then have q: "queue st a = Some (n_waiters n)" by (simp add: queue_def)
  then have "fqueue k st = n_waiters n" using fqueue_at [OF ok k] by simp
  then show ?thesis using w n a q queues_okD(3) [OF futex_okD(2) [OF ok] q] by (simp add: futex_wake_locked_def)
qed

lemma fqueue_same:
  assumes ok: "futex_ok st" "futex_ok st'" and k: "keys st' = keys st" "keys st a = Some k" "k' \<noteq> k"
    and q: "\<forall>c. c \<noteq> a \<longrightarrow> queue st' c = queue st c"
  shows "fqueue k' st' = fqueue k' st"
  by (rule fqueue_cong [OF ok]) (use k q in \<open>auto, metis option.inject\<close>)

lemma wake_locked_exact:
  assumes ok: "futex_ok st" and k: "keys st a = Some k" and a: "a \<noteq> 0" and c: "0 \<le> count"
    and alive: "\<forall>w \<in> set (fqueue k st). \<forall>t. tids st w = Some t \<longrightarrow> \<not> gone st t"
    and w: "futex_wake_locked a count b st = (st', r)"
  defines "taken \<equiv> take (nat count) (filter (matches st b) (fqueue k st))"
  shows "futex_ok st'" "keys st' = keys st" "r = int (length taken)"
    "fqueue k st' = filter (\<lambda>w. w \<notin> set taken) (fqueue k st)" "k' \<noteq> k \<Longrightarrow> fqueue k' st' = fqueue k' st"
    "fwaiter st' v = (if v \<in> set taken then map_option wake_up (fwaiter st v) else fwaiter st v)"
    "ready st' t \<longleftrightarrow> ready st t \<or> (\<exists>w \<in> set taken. tids st w = Some t)"
    "queue st' a = Some (fqueue k st')" "tids st' = tids st" "gone st' = gone st" "active_waiter st' = active_waiter st"
proof -
  have R: "queue st a = Some (fqueue k st)" "wake_loop (fqueue k st) count b st 0 = (st', r)" "distinct (fqueue k st)"
    using wake_locked_run [OF ok k a w] by simp_all
  note O = wake_loop_ok [OF ok R(1) order_refl R(3,2)]
  note E = wake_loop_exact [OF ok R(1) order_refl R(3) c alive R(2)]
  show o: "futex_ok st'" "keys st' = keys st" "tids st' = tids st" "gone st' = gone st" "active_waiter st' = active_waiter st"
    using O by simp_all
  show "r = int (length taken)" using E by (simp add: taken_def)
  have q: "queue st' a = Some (filter (\<lambda>w. w \<notin> set taken) (fqueue k st))" using E by (simp add: taken_def)
  then show f: "fqueue k st' = filter (\<lambda>w. w \<notin> set taken) (fqueue k st)" using fqueue_at [OF o(1)] o(2) k by simp
  show "queue st' a = Some (fqueue k st')" using q f by simp
  show "fwaiter st' v = (if v \<in> set taken then map_option wake_up (fwaiter st v) else fwaiter st v)"
    "ready st' t \<longleftrightarrow> ready st t \<or> (\<exists>w \<in> set taken. tids st w = Some t)"
    using E by (simp_all add: taken_def)
  show "fqueue k' st' = fqueue k' st" if "k' \<noteq> k"
    using fqueue_same [OF ok o(1,2) k that] O by simp
qed

text \<open>C36. When no thread waiting on the key has ended, \<open>FUTEX_WAKE\<close> wakes the first \<open>val\<close> waiters whose bit
  set meets the given one, or all of them if there are fewer, and returns how many. Exactly they
  leave the queue; each of their threads is made ready, and its next look at the waiter ends the
  wait with 0. No other queue changes.\<close>

theorem futex_wake_exact:
  assumes ok: "futex_ok st" and v: "0 \<le> val" "b \<noteq> 0"
    and alive: "\<forall>w \<in> set (fqueue (key, owner) st). \<forall>t. tids st w = Some t \<longrightarrow> \<not> gone st t"
    and w: "futex_wake key owner val b st = (st', r)"
  defines "taken \<equiv> take (nat val) (filter (matches st b) (fqueue (key, owner) st))"
  shows "r = int (length taken) \<and> fqueue (key, owner) st' = filter (\<lambda>w. w \<notin> set taken) (fqueue (key, owner) st) \<and>
    (\<forall>k. k \<noteq> (key, owner) \<longrightarrow> fqueue k st' = fqueue k st) \<and>
    (\<forall>w \<in> set taken. \<exists>x. fwaiter st w = Some x \<and> ready st' (w_tid x) \<and>
       (\<forall>signals timing. futex_wait_round w (w_tid x) signals timing st' = (st', Some 0)))"
proof -
  obtain a where f: "futex_find_node (fst (key, owner)) (snd (key, owner)) False 0 st = (st, a)"
    "a \<noteq> 0 \<longrightarrow> keys st a = Some (key, owner)" "a = 0 \<longrightarrow> (\<forall>b. keys st b \<noteq> Some (key, owner))"
    by (rule find_node_False [OF ok])
  obtain st1 r1 where l: "futex_wake_locked a val b st = (st1, r1)" by fastforce
  have e: "st' = futex_drop_empty a st1" "r = r1" using w v f(1) l by (simp_all add: futex_wake_def)
  show ?thesis
  proof (cases "a = 0")
    case True
    then have "st1 = st" "r1 = 0" using l futex_okD(5) [OF ok] by (simp_all add: futex_wake_locked_def)
    moreover have "fqueue (key, owner) st = []" using fqueue_none [OF ok] f(3) True by blast
    ultimately show ?thesis using e True fqueue_drop [OF ok] by (simp add: taken_def)
  next
    case False
    note E = wake_locked_exact [OF ok f(2) [rule_format, OF False] False v(1) alive l, folded taken_def]
    note D = drop_ok [OF E(1), of a, folded e(1)]
    have "\<exists>x. fwaiter st w = Some x \<and> ready st' (w_tid x) \<and>
       (\<forall>signals timing. futex_wait_round w (w_tid x) signals timing st' = (st', Some 0))" if "w \<in> set taken" for w
    proof -
      have "matches st b w" using that by (auto simp: taken_def dest: in_set_takeD)
      then obtain x where x: "fwaiter st w = Some x" by (auto simp: matches_def split: option.splits)
      have "ready st' (w_tid x)" using E(7) [of "w_tid x"] that x by (auto simp: D(8) tids_def)
      moreover have "fwaiter st' w = Some (wake_up x)" using E(6) [of w] that x by (simp add: D(3))
      ultimately show ?thesis using x by (simp add: futex_wait_round_def wake_up_def)
    qed
    then show ?thesis using E(3-5) e(2) fqueue_drop [OF E(1), of _ a, folded e(1)] by simp
  qed
qed

section \<open>Requeueing\<close>

lemma move_one:
  assumes ok: "futex_ok st" and n: "fnode st src = Some n" "n_waiters n = w # ws" and m: "fnode st dst = Some m"
    and d: "src \<noteq> dst"
  obtains x where "fwaiter st w = Some x" "w_node x = src"
    "futex_ok (set_node dst (m\<lparr>n_waiters := w # n_waiters m\<rparr>) (set_waiter w (x\<lparr>w_node := dst\<rparr>)
       (set_node src (n\<lparr>n_waiters := ws\<rparr>) st)))"
proof -
  note Q = futex_okD(2) [OF ok]
  have q: "queue st src = Some (w # ws)" "queue st dst = Some (n_waiters m)" using n m by (simp_all add: queue_def)
  have s0: "src \<noteq> 0" "dst \<noteq> 0" using queues_okD(4) [OF Q] q by blast+
  have p: "place st w = Some src" using queues_okD(5) [OF Q q(1)] by simp
  then obtain x where x: "fwaiter st w = Some x" "w_node x = src" by (auto simp: place_def)
  have w0: "w \<noteq> 0" using x(1) futex_okD(6) [OF ok] by (cases "w = 0") auto
  let ?s = "set_node dst (m\<lparr>n_waiters := w # n_waiters m\<rparr>) (set_waiter w (x\<lparr>w_node := dst\<rparr>)
       (set_node src (n\<lparr>n_waiters := ws\<rparr>) st))"
  have "queues_ok ((queue st)(src \<mapsto> remove1 w (w # ws))) ((place st)(w \<mapsto> 0))"
    by (rule queues_unlink [OF Q p s0(1) q(1)])
  then have "queues_ok (((queue st)(src \<mapsto> ws))(dst \<mapsto> w # n_waiters m)) (((place st)(w \<mapsto> 0))(w \<mapsto> dst))"
    by (intro queues_push) (use q d w0 in auto)
  then have "queues_ok (queue ?s) (place ?s)" by (simp add: maps_upd)
  moreover have "keys ?s = keys st" using n m d by (auto simp: maps_upd keys_def fun_eq_iff)
  moreover have "tids ?s = tids st" using x by (auto simp: maps_upd tids_def fun_eq_iff)
  moreover have "woken_ok ?s" using futex_okD(4) [OF ok] x s0(1) by (auto simp: woken_ok_def split: if_splits)
  ultimately have "futex_ok ?s" using futex_okD(1,3) [OF ok] by (simp add: futex_ok_def)
  then show thesis using that x by blast
qed

lemma requeue_loop_spec:
  assumes "futex_ok st" "queue st src = Some L" "queue st dst = Some D" "src \<noteq> dst"
    and "requeue_loop k src dst st = (st', r)"
  shows "futex_ok st' \<and> keys st' = keys st \<and>
    queue st' = (queue st)(src \<mapsto> drop k L, dst \<mapsto> rev (take k L) @ D) \<and> r = int (min k (length L)) \<and>
    active_waiter st' = active_waiter st \<and> tids st' = tids st \<and> gone st' = gone st \<and> ready st' = ready st"
  using assms
proof (induction k arbitrary: st st' L D r)
  case 0
  then show ?case by (auto simp: fun_eq_iff)
next
  case (Suc k)
  obtain n m where n: "fnode st src = Some n" "n_waiters n = L" and m: "fnode st dst = Some m" "n_waiters m = D"
    using Suc.prems(2,3) by (auto simp: queue_def)
  show ?case
  proof (cases L)
    case Nil
    then show ?thesis using Suc.prems n m by (auto simp: fun_eq_iff)
  next
    case (Cons w ws)
    obtain x where x: "fwaiter st w = Some x" "w_node x = src"
      and ok: "futex_ok (set_node dst (m\<lparr>n_waiters := w # n_waiters m\<rparr>) (set_waiter w (x\<lparr>w_node := dst\<rparr>)
         (set_node src (n\<lparr>n_waiters := ws\<rparr>) st)))" (is "futex_ok ?s")
      by (rule move_one [OF Suc.prems(1) n(1) _ m(1) Suc.prems(4)]) (use n(2) Cons in simp)
    obtain st2 r2 where l: "requeue_loop k src dst ?s = (st2, r2)" by fastforce
    have e: "st' = st2" "r = r2 + 1" using Suc.prems(5) n m Cons x l by simp_all
    have v: "queue ?s = (queue st)(src \<mapsto> ws, dst \<mapsto> w # D)" "keys ?s = keys st" "tids ?s = tids st"
      using n m x Suc.prems(4) by (auto simp: maps_upd keys_def tids_def fun_eq_iff)
    then have "queue ?s src = Some ws" "queue ?s dst = Some (w # D)" using Suc.prems(4) by auto
    from Suc.IH [OF ok this Suc.prems(4) l] show ?thesis
      using e v Cons Suc.prems(4) by (auto simp: fun_eq_iff)
  qed
qed

lemma matches_all:
  assumes "futex_ok st" "queue st a = Some L"
  shows "filter (matches st (- 1)) L = L"
proof (rule filter_True, rule ballI)
  fix w assume "w \<in> set L"
  then have "place st w = Some a" using queues_okD(5) [OF futex_okD(2) [OF assms(1)] assms(2)] by simp
  then show "matches st (- 1) w" using futex_okD(4) [OF assms(1)] by (auto simp: place_def matches_def woken_ok_def)
qed

lemma filter_take: "distinct xs \<Longrightarrow> filter (\<lambda>x. x \<notin> set (take n xs)) xs = drop n xs"
proof (induction xs arbitrary: n)
  case (Cons x xs)
  have "filter (\<lambda>y. y \<noteq> x \<and> y \<notin> A) xs = filter (\<lambda>y. y \<notin> A) xs" for A
    using Cons.prems by (intro filter_cong) auto
  then show ?case using Cons by (cases n) auto
qed simp

text \<open>The destination of a requeue.\<close>

lemma find_create:
  assumes ok: "futex_ok st" and p: "p \<noteq> 0 \<longrightarrow> fnode st p = None"
    and f: "futex_find_node (fst k) (snd k) True p st = (st', d)" and d: "d \<noteq> 0"
  shows "futex_ok st'" "keys st' d = Some k" "queue st' d = Some (fqueue k st)"
    "keys st b = Some k' \<Longrightarrow> k' \<noteq> k \<Longrightarrow> b \<noteq> d" "b \<noteq> d \<Longrightarrow> keys st' b = keys st b" "b \<noteq> d \<Longrightarrow> queue st' b = queue st b"
proof -
  note F = find_node_ok [OF ok p f]
  show "futex_ok st'" "keys st' d = Some k" "b \<noteq> d \<Longrightarrow> keys st' b = keys st b" "b \<noteq> d \<Longrightarrow> queue st' b = queue st b"
    using F(1,9,10) F(8) [OF d] by simp_all
  consider "keys st d = Some k" | "\<forall>b. keys st b \<noteq> Some k" "d = p" "p \<noteq> 0"
    using find_node_cases [OF ok f] d by (auto split: if_splits)
  note C = this
  show "b \<noteq> d" if "keys st b = Some k'" "k' \<noteq> k" using C that p by cases (auto simp: keys_def)
  show "queue st' d = Some (fqueue k st)"
    using C
  proof cases
    case 1
    then show ?thesis using F(11) [OF d] fqueue_at [OF ok 1] keys_queue [of st d] by (auto split: option.splits)
  next
    case 2
    then show ?thesis using F(11) [OF d] fqueue_none [OF ok] p by (simp add: queue_def)
  qed
qed

lemma requeue_tail:
  assumes ok: "futex_ok st" and k: "keys st a = Some k1" "k1 \<noteq> k2" and q: "queue st a = Some rest"
    and p: "p \<noteq> 0 \<longrightarrow> fnode st p = None"
    and f: "futex_find_node (fst k2) (snd k2) True p st = (st2, d)" "d \<noteq> 0"
    and l: "requeue_loop m a d st2 = (st3, r)"
  defines "st' \<equiv> futex_drop_empty a st3"
  shows "futex_ok st'" "fqueue k1 st' = drop m rest" "fqueue k2 st' = rev (take m rest) @ fqueue k2 st"
    "k \<noteq> k1 \<Longrightarrow> k \<noteq> k2 \<Longrightarrow> fqueue k st' = fqueue k st" "r = int (min m (length rest))"
    "\<forall>c. c \<noteq> a \<longrightarrow> queue st c \<noteq> Some [] \<Longrightarrow> rest \<noteq> [] \<Longrightarrow> 0 < m \<Longrightarrow> no_empty st'"
proof -
  note F = find_create [OF ok p f]
  have ad: "a \<noteq> d" using F(4) k by blast
  note R = requeue_loop_spec [OF F(1) _ F(3) ad l, of rest]
  have R: "futex_ok st3" "keys st3 = keys st2" "queue st3 = (queue st2)(a \<mapsto> drop m rest, d \<mapsto> rev (take m rest) @ fqueue k2 st)"
    "r = int (min m (length rest))"
    using R F(6) [OF ad] q by simp_all
  show "futex_ok st'" "r = int (min m (length rest))" using drop_ok(1) [OF R(1)] R(4) by (simp_all add: st'_def)
  have e: "fqueue k st' = fqueue k st3" for k using fqueue_drop [OF R(1)] by (simp add: st'_def)
  show "fqueue k1 st' = drop m rest" "fqueue k2 st' = rev (take m rest) @ fqueue k2 st"
    using fqueue_at [OF R(1), of a] fqueue_at [OF R(1), of d] R(2,3) F(2) F(5) [OF ad] k ad by (simp_all add: e)
  show "fqueue k st' = fqueue k st" if kk: "k \<noteq> k1" "k \<noteq> k2"
    unfolding e
  proof (rule fqueue_cong [OF ok R(1)])
    fix c
    show s: "keys st c = Some k \<longleftrightarrow> keys st3 c = Some k" using F(2,5) F(4) [of c k] R(2) kk by (cases "c = d") auto
    assume c: "keys st c = Some k"
    then have "c \<noteq> d" "c \<noteq> a" using F(4) kk k(1) by auto
    then show "queue st3 c = queue st c" using R(3) F(6) by simp
  qed
  show "no_empty st'" if "\<forall>c. c \<noteq> a \<longrightarrow> queue st c \<noteq> Some []" "rest \<noteq> []" "0 < m"
    using that F(6) R(3) ad by (auto simp: no_empty_def st'_def drop_ok(5) [OF R(1)])
qed


section \<open>Every reachable state\<close>

text \<open>One step of the system, each under the lock: a thread that is not waiting calls
  \<open>futex_syscall\<close>, with fresh blocks from the heap; a waiting thread looks at its waiter, or ends its wait;
  a thread is cancelled, as when it exits; and the scheduler changes which threads have ended or are ready.\<close>

definition caller_tid :: "int \<Rightarrow> int" where
  "caller_tid tid = (if tid \<noteq> 0 then tid else 1)"

inductive futex_step :: "futex_state \<Rightarrow> futex_state \<Rightarrow> bool" where
  syscall: "futex_step st (fst (futex_syscall a e st))"
    if "\<forall>tid mm. e_cur e = Some (tid, mm) \<longrightarrow> active_waiter st (caller_tid tid) = 0"
      "e_wblk e \<noteq> 0 \<longrightarrow> fwaiter st (e_wblk e) = None" "e_nblk e \<noteq> 0 \<longrightarrow> fnode st (e_nblk e) = None"
| round: "futex_step st (fst (futex_wait_round w tid signals timing st))"
| finish: "futex_step st (futex_wait_finish w tid st)" if "active_waiter st tid = w" "w \<noteq> 0"
| cancel: "futex_step st (futex_cancel_thread tid st)"
| threads: "futex_step st (st\<lparr>gone := g, ready := r\<rparr>)"

definition futex_init :: futex_state where
  "futex_init = \<lparr>futex_table = (\<lambda>_. []), fnode = (\<lambda>_. None), fwaiter = (\<lambda>_. None),
     active_waiter = (\<lambda>_. 0), gone = (\<lambda>_. False), ready = (\<lambda>_. True)\<rparr>"

definition futex_wf :: "futex_state \<Rightarrow> bool" where
  "futex_wf st \<longleftrightarrow> futex_ok st \<and> no_empty st"

lemma futex_init_wf: "futex_wf futex_init"
  by (auto simp: futex_wf_def futex_ok_def no_empty_def futex_init_def table_ok_def queues_ok_def acts_ok_def woken_ok_def
      keys_def queue_def place_def tids_def inq_def inj_on_def)

lemma no_empty_ready [simp]: "no_empty (st\<lparr>ready := r\<rparr>) = no_empty st" by (simp add: no_empty_def)

lemma wake_locked_ok:
  assumes ok: "futex_ok st" and k: "keys st a = Some k" and a: "a \<noteq> 0"
    and w: "futex_wake_locked a count b st = (st', r)"
  shows "futex_ok st'" "keys st' = keys st" "c \<noteq> a \<Longrightarrow> queue st' c = queue st c"
  using wake_locked_run [OF assms] wake_loop_ok [OF ok, of a "fqueue k st" "fqueue k st" count b 0 st' r] by simp_all

lemma drop_no_empty:
  assumes "futex_ok st" "\<forall>c. c \<noteq> a \<longrightarrow> queue st c \<noteq> Some []"
  shows "futex_wf (futex_drop_empty a st)"
  using assms drop_ok(1,5) [OF assms(1), of a] by (auto simp: futex_wf_def no_empty_def)

lemma futex_wake_wf:
  assumes "futex_wf st"
  shows "futex_wf (fst (futex_wake key owner val b st))"
proof (cases "val < 0 \<or> b = 0")
  case True
  then show ?thesis using assms by (simp add: futex_wake_def)
next
  case v: False
  have ok: "futex_ok st" "no_empty st" using assms by (simp_all add: futex_wf_def)
  obtain a where f: "futex_find_node (fst (key, owner)) (snd (key, owner)) False 0 st = (st, a)"
    "a \<noteq> 0 \<longrightarrow> keys st a = Some (key, owner)" "a = 0 \<longrightarrow> (\<forall>b. keys st b \<noteq> Some (key, owner))"
    by (rule find_node_False [OF ok(1)])
  obtain st1 r1 where l: "futex_wake_locked a val b st = (st1, r1)" by fastforce
  have e: "fst (futex_wake key owner val b st) = futex_drop_empty a st1" using v f(1) l by (simp add: futex_wake_def)
  show ?thesis
  proof (cases "a = 0")
    case True
    then have "st1 = st" using l futex_okD(5) [OF ok(1)] by (simp add: futex_wake_locked_def)
    then show ?thesis using ok drop_no_empty [OF ok(1)] by (simp add: e no_empty_def)
  next
    case False
    then show ?thesis using wake_locked_ok [OF ok(1) _ False l] f(2) ok(2)
      by (auto simp: e no_empty_def simp del: split_paired_All intro!: drop_no_empty)
  qed
qed

lemma futex_requeue_wf:
  assumes wf: "futex_wf st" and p: "p \<noteq> 0 \<longrightarrow> fnode st p = None"
  shows "futex_wf (fst (futex_requeue k1 k2 nw nq rd val3 p st))"
proof (cases "\<exists>k. k2 = Inr k \<and> k1 \<noteq> k \<and> 0 \<le> nw \<and> 0 \<le> nq \<and> (\<forall>e. rd \<noteq> Some (Inl e)) \<and> (\<forall>v. rd = Some (Inr v) \<longrightarrow> v = val3)")
  case False
  then show ?thesis using wf by (auto simp: futex_requeue_def split: sum.split option.split)
next
  case True
  then obtain k where k: "k2 = Inr k" "k1 \<noteq> k" "0 \<le> nw" "0 \<le> nq" "\<forall>e. rd \<noteq> Some (Inl e)" "\<forall>v. rd = Some (Inr v) \<longrightarrow> v = val3"
    by blast
  have rd: "\<not> (case rd of Some (Inl _) \<Rightarrow> True | _ \<Rightarrow> False)" "\<not> (case rd of Some (Inr v) \<Rightarrow> v \<noteq> val3 | _ \<Rightarrow> False)"
    using k(5,6) by (auto split: option.split sum.split)
  have ok: "futex_ok st" "no_empty st" using wf by (simp_all add: futex_wf_def)
  obtain a where f: "futex_find_node (fst k1) (snd k1) False 0 st = (st, a)"
    "a \<noteq> 0 \<longrightarrow> keys st a = Some k1" "a = 0 \<longrightarrow> (\<forall>b. keys st b \<noteq> Some k1)"
    by (rule find_node_False [OF ok(1)])
  obtain st1 r1 where l: "futex_wake_locked a nw (- 1) st = (st1, r1)" by fastforce
  note R = futex_requeue_def
  show ?thesis
  proof (cases "a = 0")
    case True
    then have "st1 = st" using l futex_okD(5) [OF ok(1)] by (simp add: futex_wake_locked_def)
    then show ?thesis using k(1-4) rd f(1) l ok True drop_no_empty [OF ok(1), of 0] by (simp add: R no_empty_def)
  next
    case False
    then have ka: "keys st a = Some k1" using f(2) by blast
    note E = wake_locked_ok [OF ok(1) ka False l]
    have ne: "\<forall>c. c \<noteq> a \<longrightarrow> queue st1 c \<noteq> Some []" using E(3) ok(2) by (simp add: no_empty_def)
    have k1: "keys st1 a = Some k1" and p1: "p \<noteq> 0 \<longrightarrow> fnode st1 p = None"
      using ka E(2) p keys_def [of st1 p] keys_def [of st p] by auto
    obtain n1 where n1: "fnode st1 a = Some n1" using k1 by (auto simp: keys_Some)
    have q1: "queue st1 a = Some (n_waiters n1)" using n1 by (simp add: queue_def)
    obtain st2 d where g: "futex_find_node (fst k) (snd k) True p st1 = (st2, d)" by fastforce
    obtain st3 r3 where m: "requeue_loop (nat nq) a d st2 = (st3, r3)" by fastforce
    consider "n_waiters n1 = [] \<or> nq = 0" | "n_waiters n1 \<noteq> []" "nq \<noteq> 0" "d = 0" | "n_waiters n1 \<noteq> []" "nq \<noteq> 0" "d \<noteq> 0" by blast
    then show ?thesis
    proof cases
      case 1
      then have "fst (futex_requeue k1 k2 nw nq rd val3 p st) = futex_drop_empty a st1"
        using k(1-4) rd f(1) l n1 False by (auto simp: R)
      then show ?thesis using drop_no_empty [OF E(1) ne] by simp
    next
      case 2
      then have "fst (futex_requeue k1 k2 nw nq rd val3 p st) = st1"
        using k(1-4) rd f(1) l n1 False g find_node_ok(12) [OF E(1) p1 g] by (simp add: R)
      moreover have "no_empty st1" using ne q1 2(1) unfolding no_empty_def by (metis option.inject)
      ultimately show ?thesis using E(1) by (simp add: futex_wf_def)
    next
      case 3
      then have "fst (futex_requeue k1 k2 nw nq rd val3 p st) = futex_drop_empty a st3"
        using k(1-4) rd f(1) l n1 False g m by (simp add: R)
      then show ?thesis using requeue_tail(1,6) [OF E(1) k1 k(2) q1 p1 g 3(3) m] ne 3(1,2) k(4) by (simp add: futex_wf_def)
    qed
  qed
qed

lemma read_u32_user_error: "read_u32_user mm mem u \<noteq> Inl 0"
  by (simp add: read_u32_user_def EFAULT_def split: option.split)

lemma futex_enqueue_wf:
  assumes "futex_wf st" "active_waiter st tid = 0" "w \<noteq> 0 \<longrightarrow> fwaiter st w = None" "p \<noteq> 0 \<longrightarrow> fnode st p = None"
    "rd \<noteq> Inl 0" "b \<noteq> 0"
  shows "futex_wf (fst (futex_wait_enqueue tid key owner b rd val w p st))"
proof -
  obtain st' r where e: "futex_wait_enqueue tid key owner b rd val w p st = (st', r)" by fastforce
  have "futex_ok st" "no_empty st" using assms(1) by (simp_all add: futex_wf_def)
  from enqueue_spec [OF this assms(2-6) e] show ?thesis using assms(1) by (auto simp: e futex_wf_def)
qed

lemma futex_wait_wf:
  assumes "futex_wf st" "active_waiter st (caller_tid tid) = 0" "e_wblk e \<noteq> 0 \<longrightarrow> fwaiter st (e_wblk e) = None"
    "e_nblk e \<noteq> 0 \<longrightarrow> fnode st (e_nblk e) = None"
  shows "futex_wf (fst (futex_wait a e tid mm b relative k st))"
proof (cases "b = 0")
  case False
  note E = futex_enqueue_wf [OF assms(1,2,3,4) read_u32_user_error [of mm "e_mem e" "f_uaddr a"] False,
      of "fst k" "snd k" "word_of_int (f_val a)"]
  then show ?thesis using assms(1)
    by (auto simp: futex_wait_def caller_tid_def Let_def split: sum.split prod.split)
qed (use assms(1) in \<open>simp add: futex_wait_def\<close>)

lemma futex_syscall_wf:
  assumes "futex_wf st" "\<forall>tid mm. e_cur e = Some (tid, mm) \<longrightarrow> active_waiter st (caller_tid tid) = 0"
    "e_wblk e \<noteq> 0 \<longrightarrow> fwaiter st (e_wblk e) = None" "e_nblk e \<noteq> 0 \<longrightarrow> fnode st (e_nblk e) = None"
  shows "futex_wf (fst (futex_syscall a e st))"
proof (cases "e_cur e")
  case None
  then show ?thesis using assms(1) by (simp add: futex_syscall_def)
next
  case (Some tm)
  obtain tid mm where t: "e_cur e = Some (tid, mm)" using Some by (cases tm) auto
  then have act: "active_waiter st (caller_tid tid) = 0" using assms(2) by blast
  have ret: "fst (case r of (st, r) \<Rightarrow> (st, Returns r)) = fst r" for r :: "futex_state \<times> int" by (cases r) simp
  show ?thesis
    using assms(1) futex_wait_wf [OF assms(1) act assms(3,4)] futex_wake_wf [OF assms(1)] futex_requeue_wf [OF assms(1,4)]
    by (auto simp: futex_syscall_def t Let_def ret split: sum.split)
qed

lemma take_off_wf:
  assumes "futex_wf st" "active_waiter st tid = w" "w \<noteq> 0"
  shows "futex_wf (futex_take_off w tid st)"
proof -
  have ok: "futex_ok st" "no_empty st" using assms(1) by (simp_all add: futex_wf_def)
  have "tids st w = Some tid" using futex_okD(3) [OF ok(1)] assms(2,3) by (auto simp: acts_ok_def)
  then obtain x where "fwaiter st w = Some x" "w_tid x = tid" by (auto simp: tids_def)
  then show ?thesis using take_off_ok [OF ok] by (auto simp: futex_wf_def)
qed

lemma futex_step_wf: "futex_step st st' \<Longrightarrow> futex_wf st \<Longrightarrow> futex_wf st'"
proof (induction rule: futex_step.induct)
  case (syscall e st a)
  then show ?case using futex_syscall_wf by blast
next
  case (round st w tid signals timing)
  then show ?case by (auto simp: futex_wait_round_def futex_wf_def split: option.split)
next
  case (finish st tid w)
  then show ?case using take_off_wf by (simp add: futex_wait_finish_def)
next
  case (cancel st tid)
  then show ?case using take_off_wf by (simp add: futex_cancel_thread_def)
next
  case (threads st r g)
  have "keys (st\<lparr>gone := g, ready := r\<rparr>) = keys st" "queue (st\<lparr>gone := g, ready := r\<rparr>) = queue st"
    "place (st\<lparr>gone := g, ready := r\<rparr>) = place st" "tids (st\<lparr>gone := g, ready := r\<rparr>) = tids st"
    by (simp_all add: keys_def queue_def place_def tids_def fun_eq_iff)
  then show ?case using threads by (simp add: futex_wf_def futex_ok_def woken_ok_def no_empty_def)
qed

text \<open>C35. Whatever threads call, in whatever order, the futex table stays well formed: every node is once in
  the bucket its key hashes to and no two nodes have one key; a waiter is in exactly the queue of the node it
  points to, and in none when it points to none, as it does once woken; a thread points to a waiter just when the
  waiter names the thread; and no node is left without waiters.\<close>

theorem futex_reachable_wf:
  assumes "futex_step\<^sup>*\<^sup>* futex_init st"
  shows "table_ok (futex_table st) (keys st) \<and> queues_ok (queue st) (place st) \<and> acts_ok (active_waiter st) (tids st) \<and>
    woken_ok st \<and> no_empty st"
proof -
  have "futex_wf st" using assms
    by (induction rule: rtranclp_induct) (auto simp: futex_init_wf intro: futex_step_wf)
  then show ?thesis by (simp add: futex_wf_def futex_ok_def)
qed

section \<open>Examples\<close>

text \<open>Threads 5 and 6 wait, in that order, for the word at \<open>0x2000\<close> of the address space \<open>0x9000\<close>.\<close>

definition futex_two :: futex_state where
  "futex_two =
     (let st = fst (futex_wait_enqueue 5 0x2000 0x9000 (- 1) (Inr 7) 7 0x100 0x300 futex_init)
      in fst (futex_wait_enqueue 6 0x2000 0x9000 2 (Inr 7) 7 0x200 0x400 st))"

lemma futex_hash_two: "futex_hash 0x2000 0x9000 = 0"
  by (simp add: futex_hash_def) 

lemma futex_two_eq: "futex_two =
    \<lparr>futex_table = (\<lambda>_. [])(0 := [0x300]), fnode = [0x300 \<mapsto> \<lparr>n_key = 0x2000, n_owner = 0x9000, n_waiters = [0x200, 0x100]\<rparr>],
      fwaiter = [0x100 \<mapsto> \<lparr>w_tid = 5, w_bitset = - 1, w_woken = False, w_node = 0x300\<rparr>,
        0x200 \<mapsto> \<lparr>w_tid = 6, w_bitset = 2, w_woken = False, w_node = 0x300\<rparr>],
      active_waiter = (\<lambda>_. 0)(5 := 0x100, 6 := 0x200), gone = (\<lambda>_. False), ready = (\<lambda>_. True)\<rparr>"
  by (simp add: futex_two_def futex_wait_enqueue_def futex_find_node_def futex_init_def futex_hash_two set_node_def
      set_waiter_def node_is_def)

lemma futex_two_wf: "futex_wf futex_two"
  unfolding futex_two_def Let_def
  by (intro futex_enqueue_wf futex_init_wf)
    (simp_all add: futex_wait_enqueue_def futex_find_node_def futex_init_def set_node_def set_waiter_def)

lemma futex_two_queue: "fqueue (0x2000, 0x9000) futex_two = [0x200, 0x100]" "fqueue (0x2000, 0x9010) futex_two = []"
  by (simp_all add: fqueue_def futex_two_eq futex_hash_two node_is_def queue_def)

text \<open>Waking one thread for bit 0 passes over thread 6, which waits for bit 1, and wakes thread 5.\<close>

theorem futex_wake_exact_witness:
  "snd (futex_wake 0x2000 0x9000 1 1 futex_two) = 1 \<and>
    fqueue (0x2000, 0x9000) (fst (futex_wake 0x2000 0x9000 1 1 futex_two)) = [0x200]"
proof -
  have ok: "futex_ok futex_two" using futex_two_wf by (simp add: futex_wf_def)
  have m: "matches futex_two 1 0x100" "\<not> matches futex_two 1 0x200" "gone futex_two = (\<lambda>_. False)"
    by (simp_all add: matches_def futex_two_eq)
  show ?thesis
    using futex_wake_exact [OF ok, of 1 1 "0x2000" "0x9000" "fst (futex_wake 0x2000 0x9000 1 1 futex_two)"
        "snd (futex_wake 0x2000 0x9000 1 1 futex_two)"]
    by (simp add: futex_two_queue m)
qed


text \<open>Thread 5 calls \<open>futex_syscall\<close> to wait.\<close>

definition futex_call :: "futex_state \<Rightarrow> futex_state \<times> futex_result" where
  "futex_call = futex_syscall \<lparr>f_uaddr = 0x2000, f_op = 128, f_val = 7, f_timeout = 0, f_uaddr2 = 0, f_val3 = 0\<rparr>
     \<lparr>e_cur = Some (5, 0x9000), e_leaf = (\<lambda>_. None), e_mem = (\<lambda>_. Some 7), e_ts = None, e_now = 0,
       e_wblk = 0x100, e_nblk = 0x300\<rparr>"

lemma futex_call_waits: "snd (futex_call futex_init) = Waits 0x100 None"
  by (simp add: futex_call_def futex_syscall_def futex_wait_def futex_key_def FUTEX_VA_LIMIT_def read_u32_user_def add64_def
      futex_wait_enqueue_def futex_find_node_def futex_init_def set_node_def set_waiter_def)

theorem futex_reachable_wf_witness:
  "futex_step\<^sup>*\<^sup>* futex_init (fst (futex_call futex_init)) \<and> snd (futex_call futex_init) = Waits 0x100 None \<and>
    woken_ok (fst (futex_call futex_init)) \<and> no_empty (fst (futex_call futex_init))"
proof -
  have "futex_step futex_init (fst (futex_call futex_init))"
    unfolding futex_call_def by (rule syscall) (simp_all add: futex_init_def)
  then have s: "futex_step\<^sup>*\<^sup>* futex_init (fst (futex_call futex_init))" by (rule r_into_rtranclp)
  show ?thesis using s futex_reachable_wf [OF s] futex_call_waits by simp
qed

end
