(* ===== verification/Ramfs.thy ===== *)
theory Ramfs
  imports LibcString
begin

text \<open>
  The in-memory file system, \<open>fs/virt/ramfs.c\<close>: a tree of nodes, each a block of the kernel heap named
  by its address (0 is NULL). The list of a directory's children is the list of their addresses. A
  string is the list of its bytes up to the terminating zero, so \<open>strlen\<close> is \<open>length\<close> and \<open>strcmp\<close> is
  equality; pointers to strings are not NULL. Each operation runs to its end without interruption;
  locks and trace output are left out.

  The outcomes of \<open>kmalloc\<close>, the clock and the caller are the record \<open>ramfs_env\<close>. Calls of
  \<open>pagecache_invalidate\<close> are listed in the state. A node that was freed is not in the map \<open>rnode\<close>.
\<close>

section \<open>State\<close>

type_synonym cpath = "byte list"

definition SLASH :: byte where "SLASH = 47"
definition S_IFMT :: u32 where "S_IFMT = 0xF000"
definition S_IFDIR :: u32 where "S_IFDIR = 0x4000"
definition S_IFREG :: u32 where "S_IFREG = 0x8000"
definition S_IFLNK :: u32 where "S_IFLNK = 0xA000"
definition S_IFCHR :: u32 where "S_IFCHR = 0x2000"
definition RAMFS_WHITEOUT_UID :: u32 where "RAMFS_WHITEOUT_UID = 0xffff"

record ramfs_xattr =
  xa_name :: cpath
  xa_value :: "byte list"

text \<open>\<open>rn_data\<close> is the buffer \<open>data\<close> points to, \<open>rn_link\<close> the field \<open>link_target\<close>.\<close>

record ramfs_node =
  rn_name :: cpath
  rn_is_dir :: bool
  rn_data :: "byte list option"
  rn_borrowed :: bool
  rn_size :: nat
  rn_cap :: nat
  rn_ino :: nat
  rn_mode :: u32
  rn_uid :: u32
  rn_gid :: u32
  rn_nlink :: nat
  rn_open :: nat
  rn_atime :: int
  rn_mtime :: int
  rn_ctime :: int
  rn_xattrs :: "ramfs_xattr list"
  rn_parent :: addr
  rn_children :: "addr list"
  rn_link :: addr
  rn_gen :: nat

text \<open>An open file with its handle; \<open>f_node\<close> is \<open>node\<close> of the handle in \<open>driver_private\<close>.\<close>

record ramfs_file =
  f_path :: cpath
  f_size :: nat
  f_is_dir :: bool
  f_kind_known :: bool
  f_is_symlink :: bool
  f_backing_id :: nat
  f_backing_gen :: nat
  f_node :: addr

record ramfs_state =
  ramfs_root :: addr
  ramfs_next_inode :: nat
  rnode :: "addr \<Rightarrow> ramfs_node option"
  rfile :: "addr \<Rightarrow> ramfs_file option"
  pc_calls :: "(nat \<times> nat) list"

record ramfs_cred_t =
  c_euid :: u32
  c_egid :: u32
  c_groups :: "u32 list"
  c_umask :: u32

text \<open>The current user thread and the current thread; the clock; whether the allocations of path
  buffers succeed, by the rounds that are left; the block of a new node and whether its name and its
  data could be allocated; the block of a new \<open>fs_file\<close> and whether its path and handle could be allocated.\<close>

record ramfs_env =
  re_user :: "ramfs_cred_t option"
  re_cur :: "ramfs_cred_t option"
  re_now :: int
  re_look :: "nat \<Rightarrow> bool"
  re_tmp :: bool
  re_node :: addr
  re_name :: bool
  re_data :: bool
  re_file :: addr
  re_path :: bool
  re_handle :: bool

definition upd_node :: "addr \<Rightarrow> (ramfs_node \<Rightarrow> ramfs_node) \<Rightarrow> ramfs_state \<Rightarrow> ramfs_state" where
  "upd_node a f st = st\<lparr>rnode := (rnode st)(a := map_option f (rnode st a))\<rparr>"

definition add32 :: "nat \<Rightarrow> nat \<Rightarrow> nat" where
  "add32 a b = (a + b) mod 2 ^ 32"

definition PAGECACHE_ID_RAMFS :: "nat \<Rightarrow> nat" where
  "PAGECACHE_ID_RAMFS ino = unat (0x7200000000000000 OR (of_nat ino :: 64 word))"

definition pagecache_invalidate :: "nat \<Rightarrow> nat \<Rightarrow> ramfs_state \<Rightarrow> ramfs_state" where
  "pagecache_invalidate k gen st = st\<lparr>pc_calls := pc_calls st @ [(k, gen)]\<rparr>"

section \<open>Owners and permissions\<close>

definition ramfs_cred :: "ramfs_env \<Rightarrow> ramfs_cred_t option" where
  "ramfs_cred e = (case re_user e of Some t \<Rightarrow> Some t | None \<Rightarrow> re_cur e)"

definition ramfs_set_create_owner :: "ramfs_env \<Rightarrow> ramfs_node \<Rightarrow> ramfs_node" where
  "ramfs_set_create_owner e n =
     (case ramfs_cred e of None \<Rightarrow> n | Some ct \<Rightarrow> n\<lparr>rn_uid := c_euid ct, rn_gid := c_egid ct\<rparr>)"

definition ramfs_apply_umask_mode :: "ramfs_env \<Rightarrow> u32 \<Rightarrow> ramfs_node \<Rightarrow> ramfs_node" where
  "ramfs_apply_umask_mode e base_perm n =
     (case re_user e of
        None \<Rightarrow> n
      | Some _ \<Rightarrow>
          (let um = (case ramfs_cred e of Some ct \<Rightarrow> c_umask ct AND 0xFFF | None \<Rightarrow> 0x12)
           in n\<lparr>rn_mode := (rn_mode n AND S_IFMT) OR (base_perm AND 0xFFF AND NOT um)\<rparr>))"

definition AXON_NGROUPS_MAX :: nat where "AXON_NGROUPS_MAX = 32"

definition ramfs_in_group :: "ramfs_cred_t \<Rightarrow> u32 \<Rightarrow> bool" where
  "ramfs_in_group ct gid \<longleftrightarrow> c_egid ct = gid \<or> gid \<in> set (take AXON_NGROUPS_MAX (c_groups ct))"

definition ramfs_dir_writable :: "ramfs_node \<Rightarrow> ramfs_cred_t option \<Rightarrow> bool" where
  "ramfs_dir_writable dir ct =
     (case ct of
        None \<Rightarrow> True
      | Some c \<Rightarrow>
          if c_euid c = 0 then True
          else if c_euid c = rn_uid dir \<and> rn_mode dir AND 0x80 \<noteq> 0 then True
          else if ramfs_in_group c (rn_gid dir) \<and> rn_mode dir AND 0x10 \<noteq> 0 then True
          else rn_mode dir AND 2 \<noteq> 0)"

definition ramfs_may_unlink_node :: "ramfs_node \<Rightarrow> ramfs_node \<Rightarrow> ramfs_cred_t option \<Rightarrow> bool" where
  "ramfs_may_unlink_node parent n ct =
     (if \<not> ramfs_dir_writable parent ct then False
      else case ct of
        None \<Rightarrow> True
      | Some c \<Rightarrow> \<not> (rn_mode parent AND 0x200 \<noteq> 0 \<and> c_euid c \<noteq> 0 \<and> c_euid c \<noteq> rn_uid n \<and> c_euid c \<noteq> rn_uid parent))"

section \<open>Nodes\<close>

text \<open>The address of the new node, 0 for none.\<close>

definition blank_node :: ramfs_node where
  "blank_node = \<lparr>rn_name = [], rn_is_dir = False, rn_data = None, rn_borrowed = False, rn_size = 0, rn_cap = 0,
     rn_ino = 0, rn_mode = 0, rn_uid = 0, rn_gid = 0, rn_nlink = 0, rn_open = 0, rn_atime = 0, rn_mtime = 0,
     rn_ctime = 0, rn_xattrs = [], rn_parent = 0, rn_children = [], rn_link = 0, rn_gen = 0\<rparr>"

definition ramfs_alloc_node :: "ramfs_env \<Rightarrow> cpath \<Rightarrow> bool \<Rightarrow> ramfs_state \<Rightarrow> ramfs_state \<times> addr" where
  "ramfs_alloc_node e name is_dir st =
     (if re_node e = 0 \<or> \<not> re_name e then (st, 0)
      else
        (st\<lparr>ramfs_next_inode := add32 (ramfs_next_inode st) 1,
            rnode := (rnode st)(re_node e \<mapsto> blank_node\<lparr>rn_name := name, rn_is_dir := is_dir,
              rn_ino := ramfs_next_inode st, rn_mode := (if is_dir then S_IFDIR OR 0x1ED else S_IFREG OR 0x1A4),
              rn_nlink := (if is_dir then 2 else 1), rn_gen := 1,
              rn_atime := re_now e, rn_mtime := re_now e, rn_ctime := re_now e\<rparr>)\<rparr>, re_node e))"

definition ramfs_resolve_link :: "ramfs_state \<Rightarrow> addr \<Rightarrow> addr" where
  "ramfs_resolve_link st n =
     (case rnode st n of None \<Rightarrow> n | Some x \<Rightarrow> if rn_link x \<noteq> 0 then rn_link x else n)"

definition ramfs_file_set_backing :: "ramfs_node \<Rightarrow> ramfs_file \<Rightarrow> ramfs_file" where
  "ramfs_file_set_backing n f = f\<lparr>f_backing_id := PAGECACHE_ID_RAMFS (rn_ino n), f_backing_gen := rn_gen n\<rparr>"

definition ramfs_current_generation :: "ramfs_state \<Rightarrow> ramfs_file \<Rightarrow> nat" where
  "ramfs_current_generation st f = (case rnode st (f_node f) of None \<Rightarrow> f_backing_gen f | Some n \<Rightarrow> rn_gen n)"

definition ramfs_inode_changed :: "int \<Rightarrow> addr \<Rightarrow> ramfs_state \<Rightarrow> ramfs_state" where
  "ramfs_inode_changed now a st =
     (case rnode st a of
        None \<Rightarrow> st
      | Some n \<Rightarrow>
          pagecache_invalidate (PAGECACHE_ID_RAMFS (rn_ino n)) (add64 (rn_gen n) 1)
            (upd_node a (\<lambda>n. n\<lparr>rn_mtime := now, rn_ctime := now, rn_gen := add64 (rn_gen n) 1\<rparr>) st))"

definition ramfs_free_data_owned :: "ramfs_node \<Rightarrow> ramfs_node" where
  "ramfs_free_data_owned n =
     (if rn_data n = None then n else n\<lparr>rn_data := None, rn_borrowed := False, rn_cap := 0\<rparr>)"

definition ramfs_free_xattrs :: "ramfs_node \<Rightarrow> ramfs_node" where
  "ramfs_free_xattrs n = n\<lparr>rn_xattrs := []\<rparr>"

definition forget_node :: "addr \<Rightarrow> ramfs_state \<Rightarrow> ramfs_state" where
  "forget_node a st = st\<lparr>rnode := (rnode st)(a := None)\<rparr>"

text \<open>At most \<open>65536\<close> entries of a directory are looked at.\<close>

definition GUARD :: nat where "GUARD = 65536"

definition ramfs_unlink_from_parent :: "addr \<Rightarrow> ramfs_state \<Rightarrow> ramfs_state" where
  "ramfs_unlink_from_parent a st =
     (case rnode st a of
        None \<Rightarrow> st
      | Some n \<Rightarrow>
          if rn_parent n = 0 then st
          else case rnode st (rn_parent n) of
            None \<Rightarrow> st
          | Some p \<Rightarrow>
              if a \<in> set (take GUARD (rn_children p))
              then upd_node a (\<lambda>n. n\<lparr>rn_parent := 0\<rparr>)
                     (upd_node (rn_parent n) (\<lambda>p. p\<lparr>rn_children := remove1 a (rn_children p)\<rparr>) st)
              else st)"

definition ramfs_maybe_free_inode :: "addr \<Rightarrow> ramfs_state \<Rightarrow> ramfs_state" where
  "ramfs_maybe_free_inode a st =
     (case rnode st a of
        None \<Rightarrow> st
      | Some n \<Rightarrow>
          if rn_is_dir n then st
          else if rn_nlink n > 0 \<or> rn_open n > 0 then st
          else
            (let st = (if rn_parent n \<noteq> 0 then ramfs_unlink_from_parent a st else st)
             in forget_node a (pagecache_invalidate (PAGECACHE_ID_RAMFS (rn_ino n)) 0 st)))"

definition ramfs_free_node_shallow :: "addr \<Rightarrow> ramfs_state \<Rightarrow> ramfs_state" where
  "ramfs_free_node_shallow a st = forget_node a st"

text \<open>The buffer of a node that is to be changed is made a block of the heap. \<open>is_heap\<close> is what
  \<open>heap_ptr_is_kmalloc\<close> says of it, \<open>mem\<close> whether the copy can be allocated; \<open>behind\<close> is the memory behind the
  buffer, which is copied where the file is longer than the buffer.\<close>

definition ramfs_materialize_node_locked :: "bool \<Rightarrow> (nat \<Rightarrow> byte) \<Rightarrow> ramfs_node \<Rightarrow> ramfs_node \<times> int" where
  "ramfs_materialize_node_locked mem behind n =
     (if rn_is_dir n \<or> \<not> rn_borrowed n then (n, 0)
      else case rn_data n of
        None \<Rightarrow> (n\<lparr>rn_data := None, rn_borrowed := False, rn_cap := 0\<rparr>, 0)
      | Some d \<Rightarrow>
          if rn_size n = 0 then (n\<lparr>rn_data := None, rn_borrowed := False, rn_cap := 0\<rparr>, 0)
          else if \<not> mem then (n, - 12)
          else (n\<lparr>rn_data := Some (map (\<lambda>i. if i < length d then d ! i else behind i) [0..<rn_size n]),
                  rn_borrowed := False, rn_cap := rn_size n\<rparr>, 0))"

definition ramfs_ensure_heap_data_locked :: "bool \<Rightarrow> bool \<Rightarrow> (nat \<Rightarrow> byte) \<Rightarrow> ramfs_node \<Rightarrow> ramfs_node \<times> int" where
  "ramfs_ensure_heap_data_locked is_heap mem behind n =
     (if rn_is_dir n then (n, 0)
      else if rn_borrowed n then ramfs_materialize_node_locked mem behind n
      else if rn_data n = None then (n, 0)
      else if is_heap then (n, 0)
      else if rn_size n = 0 then (n\<lparr>rn_data := None, rn_cap := 0\<rparr>, 0)
      else ramfs_materialize_node_locked mem behind (n\<lparr>rn_borrowed := True\<rparr>))"

section \<open>Paths\<close>

definition named :: "ramfs_state \<Rightarrow> cpath \<Rightarrow> addr \<Rightarrow> bool" where
  "named st name c \<longleftrightarrow> (case rnode st c of None \<Rightarrow> False | Some x \<Rightarrow> rn_name x = name)"

definition ramfs_find_child :: "ramfs_state \<Rightarrow> addr \<Rightarrow> cpath \<Rightarrow> addr" where
  "ramfs_find_child st parent name =
     (case rnode st parent of
        None \<Rightarrow> 0
      | Some p \<Rightarrow> (case List.find (named st name) (take GUARD (rn_children p)) of None \<Rightarrow> 0 | Some c \<Rightarrow> c))"

text \<open>The next component and what follows it; \<open>None\<close> at the end of the path.\<close>

definition ramfs_next_component :: "cpath \<Rightarrow> nat \<Rightarrow> (cpath \<times> cpath) option" where
  "ramfs_next_component p out_cap =
     (let s = dropWhile (\<lambda>c. c = SLASH) p
      in if s = [] then None
         else Some (take (out_cap - 1) (takeWhile (\<lambda>c. c \<noteq> SLASH) s), dropWhile (\<lambda>c. c \<noteq> SLASH) s))"

text \<open>The names from a node up to the root, at most \<open>k\<close> of them, and the node reached.\<close>

primrec build_parts :: "nat \<Rightarrow> ramfs_state \<Rightarrow> addr \<Rightarrow> cpath list \<times> addr" where
  "build_parts 0 st cur = ([], cur)"
| "build_parts (Suc k) st cur =
     (if cur = 0 \<or> cur = ramfs_root st then ([], cur)
      else case rnode st cur of
        None \<Rightarrow> ([], 0)
      | Some n \<Rightarrow> (let (ps, top) = build_parts k st (rn_parent n) in (rn_name n # ps, top)))"

text \<open>Writing the parts from the root down into a buffer of \<open>bufsz\<close> bytes.\<close>

fun write_parts :: "nat \<Rightarrow> cpath list \<Rightarrow> cpath \<Rightarrow> cpath option" where
  "write_parts bufsz [] buf = Some buf"
| "write_parts bufsz (p # ps) buf =
     (if p = [] then write_parts bufsz ps buf
      else if length buf + length p + 1 \<ge> bufsz then None
      else write_parts bufsz ps (buf @ p @ (if ps \<noteq> [] then [SLASH] else [])))"

definition ramfs_build_path :: "ramfs_state \<Rightarrow> addr \<Rightarrow> nat \<Rightarrow> cpath option" where
  "ramfs_build_path st node bufsz =
     (if bufsz = 0 \<or> node = 0 then None
      else if node = ramfs_root st then (if bufsz < 2 then None else Some [SLASH])
      else
        (let (parts, cur) = build_parts 64 st node
         in if cur = 0 then None
            else if 1 \<ge> bufsz then None
            else write_parts bufsz (rev parts) [SLASH]))"

text \<open>Walking a path from a node: the node at its end, no node, or a path to start again with.\<close>

datatype walk_result = At addr | Missing | Again cpath

definition is_symlink :: "ramfs_node \<Rightarrow> bool" where
  "is_symlink n \<longleftrightarrow> rn_mode n AND S_IFLNK = S_IFLNK"

definition link_text :: "ramfs_node \<Rightarrow> cpath option" where \<comment> \<open>the string in \<open>data\<close>\<close>
  "link_text n = map_option (takeWhile (\<lambda>c. c \<noteq> 0)) (rn_data n)"

text \<open>The path to go on with at a symbolic link: its target and the rest of the path.\<close>

definition follow_link :: "ramfs_state \<Rightarrow> ramfs_node \<Rightarrow> cpath \<Rightarrow> cpath option" where
  "follow_link st child p =
     (case link_text child of
        None \<Rightarrow> None
      | Some target \<Rightarrow>
          (let rest = dropWhile (\<lambda>c. c = SLASH) p;
               parent = (if rn_parent child \<noteq> 0 then rn_parent child else ramfs_root st);
               tail = (if rest \<noteq> [] then [SLASH] @ rest else [])
           in if target \<noteq> [] \<and> hd target = SLASH then Some (target @ tail)
              else case ramfs_build_path st parent 2048 of
                None \<Rightarrow> None
              | Some pb \<Rightarrow>
                  Some ((if length pb > 1 \<and> last pb = SLASH then butlast pb else pb) @ [SLASH] @ target @ tail)))"

lemma next_component_shorter:
  assumes "ramfs_next_component p k = Some (c, q)"
  shows "length q < length p"
proof -
  let ?s = "dropWhile (\<lambda>c. c = SLASH) p"
  have s: "?s \<noteq> []" and q: "q = dropWhile (\<lambda>c. c \<noteq> SLASH) ?s"
    using assms by (auto simp: ramfs_next_component_def Let_def split: if_splits)
  have "hd ?s \<noteq> SLASH" using hd_dropWhile [OF s] by simp
  then have "q = dropWhile (\<lambda>c. c \<noteq> SLASH) (tl ?s)" using s q by (cases ?s) auto
  then have "length q \<le> length (tl ?s)" by (simp only: length_dropWhile_le)
  also have "\<dots> < length ?s" using s by (cases ?s) auto
  also have "\<dots> \<le> length p" by (simp only: length_dropWhile_le)
  finally show ?thesis .
qed

text \<open>The inner loop of \<open>ramfs_lookup\<close>, and of \<open>ramfs_lookup_nofollow_impl\<close>, which does not follow a
  symbolic link at the end of the path.\<close>

function ramfs_walk :: "bool \<Rightarrow> ramfs_state \<Rightarrow> addr \<Rightarrow> cpath \<Rightarrow> walk_result" where
  "ramfs_walk nofollow st cur p =
     (case ramfs_next_component p 256 of
        None \<Rightarrow> At cur
      | Some (name, p) \<Rightarrow>
          (case rnode st cur of
             None \<Rightarrow> At 0
           | Some n \<Rightarrow>
               if \<not> rn_is_dir n then Missing
               else if name = [46] then ramfs_walk nofollow st cur p
               else if name = [46, 46] then
                 ramfs_walk nofollow st (if rn_parent n \<noteq> 0 then rn_parent n else ramfs_root st) p
               else
                 (let child = ramfs_find_child st cur name
                  in case rnode st child of
                       None \<Rightarrow> Missing
                     | Some c \<Rightarrow>
                         if is_symlink c then
                           if nofollow \<and> ramfs_next_component p 2 = None then At child
                           else (case follow_link st c p of None \<Rightarrow> Missing | Some q \<Rightarrow> Again q)
                         else ramfs_walk nofollow st child p)))"
  by pat_completeness auto
termination
  by (relation "measure (\<lambda>(_, _, _, p). length p)") (auto dest: next_component_shorter)

declare ramfs_walk.simps [simp del]

text \<open>The outer loop, with the number of rounds left.\<close>

primrec lookup_rounds :: "bool \<Rightarrow> (nat \<Rightarrow> bool) \<Rightarrow> ramfs_state \<Rightarrow> nat \<Rightarrow> cpath \<Rightarrow> addr" where
  "lookup_rounds nofollow mem st 0 p = 0"
| "lookup_rounds nofollow mem st (Suc k) p =
     (case ramfs_walk nofollow st (ramfs_root st) p of
        At c \<Rightarrow> (if nofollow then c else ramfs_resolve_link st c)
      | Missing \<Rightarrow> 0
      | Again q \<Rightarrow> if mem k then lookup_rounds nofollow mem st k q else 0)"

definition ramfs_lookup_gen :: "bool \<Rightarrow> (nat \<Rightarrow> bool) \<Rightarrow> ramfs_state \<Rightarrow> cpath \<Rightarrow> addr" where
  "ramfs_lookup_gen nofollow mem st path =
     (if path = [SLASH] then ramfs_root st
      else if path = [] \<or> hd path \<noteq> SLASH then 0
      else if \<not> mem 16 then 0
      else lookup_rounds nofollow mem st 16 path)"

definition ramfs_lookup_nofollow :: "(nat \<Rightarrow> bool) \<Rightarrow> ramfs_state \<Rightarrow> cpath \<Rightarrow> addr" where
  "ramfs_lookup_nofollow mem st path = ramfs_lookup_gen True mem st path"

definition ramfs_lookup :: "(nat \<Rightarrow> bool) \<Rightarrow> ramfs_state \<Rightarrow> cpath \<Rightarrow> addr" where
  "ramfs_lookup mem st path = ramfs_lookup_gen False mem st path"

text \<open>An absolute path as the path of the parent and the last name (\<open>strrchr\<close>).\<close>

definition split_path :: "cpath \<Rightarrow> cpath \<times> cpath" where
  "split_path path =
     (let name = rev (takeWhile (\<lambda>c. c \<noteq> SLASH) (rev path));
          parent = take (length path - length name - 1) path
      in (if parent = [] then [SLASH] else parent, name))"

definition absolute :: "cpath \<Rightarrow> bool" where
  "absolute path \<longleftrightarrow> path \<noteq> [] \<and> hd path = SLASH"

definition add_child :: "addr \<Rightarrow> addr \<Rightarrow> ramfs_state \<Rightarrow> ramfs_state" where
  "add_child parent n st =
     upd_node parent (\<lambda>p. p\<lparr>rn_children := n # rn_children p\<rparr>) (upd_node n (\<lambda>x. x\<lparr>rn_parent := parent\<rparr>) st)"

text \<open>Taking a node that was just added out again and freeing it.\<close>

definition rollback_child :: "addr \<Rightarrow> addr \<Rightarrow> ramfs_state \<Rightarrow> ramfs_state" where
  "rollback_child parent n st =
     ramfs_free_node_shallow n (upd_node parent (\<lambda>p. p\<lparr>rn_children := remove1 n (rn_children p)\<rparr>) st)"

definition is_dir_at :: "ramfs_state \<Rightarrow> addr \<Rightarrow> bool" where
  "is_dir_at st a \<longleftrightarrow> (case rnode st a of None \<Rightarrow> False | Some n \<Rightarrow> rn_is_dir n)"

section \<open>Making names\<close>

text \<open>What \<open>ramfs_create\<close>, \<open>ramfs_mkdir\<close>, \<open>ramfs_symlink\<close> do first: the parent directory and the new
  name, or an error.\<close>

definition find_parent :: "ramfs_env \<Rightarrow> ramfs_state \<Rightarrow> cpath \<Rightarrow> int + (addr \<times> cpath)" where
  "find_parent e st path =
     (if \<not> absolute path then Inl (- 1)
      else if \<not> re_tmp e then Inl (- 2)
      else
        (let (parent_path, name) = split_path path
         in if name = [] then Inl (- 3)
            else
              (let parent = ramfs_lookup (re_look e) st parent_path
               in if rnode st parent = None then Inl (- 2)
                  else if \<not> is_dir_at st parent then Inl (- 3)
                  else if ramfs_find_child st parent name \<noteq> 0 then Inl (- 4)
                  else Inr (parent, name))))"

definition ramfs_symlink :: "ramfs_env \<Rightarrow> cpath \<Rightarrow> cpath \<Rightarrow> ramfs_state \<Rightarrow> ramfs_state \<times> int" where
  "ramfs_symlink e path target st =
     (case find_parent e st path of
        Inl r \<Rightarrow> (st, r)
      | Inr (parent, name) \<Rightarrow>
          (let (st, n) = ramfs_alloc_node e name False st
           in if n = 0 then (st, - 5)
              else
                (let st = add_child parent n st;
                     st = upd_node n (\<lambda>x. x\<lparr>rn_mode := S_IFLNK OR 0x1FF\<rparr>) st
                 in if \<not> re_data e then (rollback_child parent n st, - 6)
                    else
                      (upd_node n (\<lambda>x. ramfs_set_create_owner e (x\<lparr>rn_data := Some (target @ [0]),
                         rn_size := length target, rn_cap := length target + 1\<rparr>)) st, 0))))"

definition ramfs_link_inode :: "ramfs_env \<Rightarrow> addr \<Rightarrow> cpath \<Rightarrow> ramfs_state \<Rightarrow> ramfs_state \<times> int" where
  "ramfs_link_inode e a newpath st =
     (if \<not> absolute newpath then (st, - 1)
      else case rnode st a of
        None \<Rightarrow> (st, - 1)
      | Some t \<Rightarrow>
          if rn_is_dir t then (st, - 1)
          else
            (let target = (if rn_link t \<noteq> 0 then rn_link t else a);
                 (parent_path, name) = split_path newpath
             in if \<not> re_tmp e then (st, - 5)
                else if name = [] then (st, - 3)
                else
                  (let parent = ramfs_lookup (re_look e) st parent_path
                   in if rnode st parent = None then (st, - 2)
                      else if \<not> is_dir_at st parent then (st, - 3)
                      else if re_node e = 0 \<or> \<not> re_name e then (st, - 5)
                      else if ramfs_find_child st parent name \<noteq> 0 then (st, - 17)
                      else
                        (let l = re_node e;
                             st = st\<lparr>rnode := (rnode st)(l \<mapsto> blank_node\<lparr>rn_name := name, rn_link := target\<rparr>)\<rparr>;
                             st = add_child parent l st
                         in (upd_node target (\<lambda>t. t\<lparr>rn_nlink := add32 (rn_nlink t) 1\<rparr>) st, 0)))))"

definition ramfs_link :: "ramfs_env \<Rightarrow> cpath \<Rightarrow> cpath \<Rightarrow> ramfs_state \<Rightarrow> ramfs_state \<times> int" where
  "ramfs_link e oldpath newpath st =
     (if \<not> absolute oldpath \<or> \<not> absolute newpath then (st, - 1)
      else
        (let target = ramfs_lookup (re_look e) st oldpath
         in if rnode st target = None then (st, - 2) else ramfs_link_inode e target newpath st))"

text \<open>\<open>f\<close> is a file of this file system, or else it is not in \<open>rfile\<close>.\<close>

definition ramfs_link_open_file :: "ramfs_env \<Rightarrow> addr \<Rightarrow> cpath \<Rightarrow> ramfs_state \<Rightarrow> ramfs_state \<times> int" where
  "ramfs_link_open_file e f newpath st =
     (if \<not> absolute newpath then (st, - 1)
      else case rfile st f of
        None \<Rightarrow> (st, - 1)
      | Some x \<Rightarrow>
          if f_is_dir x then (st, - 1)
          else if f_node x = 0 then (st, - 2)
          else ramfs_link_inode e (f_node x) newpath st)"

definition blank_file :: ramfs_file where
  "blank_file = \<lparr>f_path = [], f_size = 0, f_is_dir = False, f_kind_known = False, f_is_symlink = False,
     f_backing_id = 0, f_backing_gen = 0, f_node = 0\<rparr>"

text \<open>Opening a node: the file, its path and its handle are allocated one after the other.\<close>

definition files_ok :: "ramfs_env \<Rightarrow> bool" where
  "files_ok e \<longleftrightarrow> re_file e \<noteq> 0 \<and> re_path e \<and> re_handle e"

definition open_node :: "ramfs_env \<Rightarrow> ramfs_file \<Rightarrow> addr \<Rightarrow> ramfs_state \<Rightarrow> ramfs_state" where
  "open_node e f n st =
     (case rnode st n of
        None \<Rightarrow> st
      | Some x \<Rightarrow>
          (upd_node n (\<lambda>x. x\<lparr>rn_open := add32 (rn_open x) 1\<rparr>) st)
            \<lparr>rfile := (rfile st)(re_file e \<mapsto> ramfs_file_set_backing x (f\<lparr>f_node := n\<rparr>))\<rparr>)"

definition ramfs_create :: "ramfs_env \<Rightarrow> cpath \<Rightarrow> ramfs_state \<Rightarrow> ramfs_state \<times> int" where
  "ramfs_create e path st =
     (case find_parent e st path of
        Inl r \<Rightarrow> (st, r)
      | Inr (parent, name) \<Rightarrow>
          (let (st, n) = ramfs_alloc_node e name False st
           in if n = 0 then (st, - 5)
              else
                (let st = upd_node n (\<lambda>x. ramfs_apply_umask_mode e 0x1B6 (ramfs_set_create_owner e x)) st;
                     st = add_child parent n st
                 in if \<not> files_ok e then (rollback_child parent n st, - 6)
                    else case rnode st n of
                      None \<Rightarrow> (st, - 6)
                    | Some x \<Rightarrow>
                        (open_node e (blank_file\<lparr>f_path := path, f_size := 0, f_is_dir := rn_is_dir x,
                           f_kind_known := True, f_is_symlink := (rn_mode x AND S_IFMT = S_IFLNK)\<rparr>) n st, 0))))"

definition ramfs_mkdir :: "ramfs_env \<Rightarrow> cpath \<Rightarrow> ramfs_state \<Rightarrow> ramfs_state \<times> int" where
  "ramfs_mkdir e path st =
     (let path = (if length path > 1 \<and> last path = SLASH then butlast path else path)
      in case find_parent e st path of
           Inl r \<Rightarrow> (st, r)
         | Inr (parent, name) \<Rightarrow>
             (let (st, n) = ramfs_alloc_node e name True st
              in if n = 0 then (st, - 5)
                 else
                   (let st = upd_node n (\<lambda>x. ramfs_apply_umask_mode e 0x1FF (ramfs_set_create_owner e x)) st
                    in (add_child parent n st, 0))))"

definition ramfs_open :: "ramfs_env \<Rightarrow> cpath \<Rightarrow> ramfs_state \<Rightarrow> ramfs_state \<times> int" where
  "ramfs_open e path st =
     (let n = ramfs_lookup_nofollow (re_look e) st path
      in if rnode st n = None then (st, - 1)
         else
           (let n = ramfs_resolve_link st n
            in case rnode st n of
                 None \<Rightarrow> (st, - 1)
               | Some x \<Rightarrow>
                   if \<not> files_ok e then (st, - 2)
                   else (open_node e (blank_file\<lparr>f_path := path, f_size := rn_size x, f_is_dir := rn_is_dir x\<rparr>) n st, 0)))"

definition ramfs_release :: "addr \<Rightarrow> ramfs_state \<Rightarrow> ramfs_state" where
  "ramfs_release f st =
     (case rfile st f of
        None \<Rightarrow> st
      | Some x \<Rightarrow>
          (let st = (if f_node x \<noteq> 0
                     then ramfs_maybe_free_inode (f_node x)
                            (upd_node (f_node x) (\<lambda>n. if rn_open n > 0 then n\<lparr>rn_open := rn_open n - 1\<rparr> else n) st)
                     else st)
           in st\<lparr>rfile := (rfile st)(f := None)\<rparr>))"

text \<open>\<open>data\<close> is \<open>None\<close> for a null pointer; the file refers to it without copying it.\<close>

definition set_borrowed :: "byte list option \<Rightarrow> nat \<Rightarrow> ramfs_node \<Rightarrow> ramfs_node" where
  "set_borrowed data len n =
     (if data \<noteq> None \<and> len > 0
      then n\<lparr>rn_data := data, rn_borrowed := True, rn_size := len, rn_cap := len\<rparr>
      else n\<lparr>rn_data := None, rn_borrowed := False, rn_size := 0, rn_cap := 0\<rparr>)"

definition ramfs_create_borrowed_file :: "ramfs_env \<Rightarrow> cpath \<Rightarrow> byte list option \<Rightarrow> nat \<Rightarrow> ramfs_state \<Rightarrow>
    ramfs_state \<times> int" where
  "ramfs_create_borrowed_file e path data len st =
     (let (st, rc) = ramfs_create e path st
      in if rc \<noteq> 0 then (st, rc)
         else
           (let n = re_node e
            in if is_dir_at st n then (ramfs_release (re_file e) st, - 1)
               else (ramfs_release (re_file e) (ramfs_inode_changed (re_now e) n
                       (upd_node n (set_borrowed data len) st)), 0)))"

section \<open>Attributes\<close>

definition may_change :: "ramfs_env \<Rightarrow> u32 \<Rightarrow> bool" where
  "may_change e uid \<longleftrightarrow> (case ramfs_cred e of None \<Rightarrow> True | Some ct \<Rightarrow> c_euid ct = 0 \<or> c_euid ct = uid)"

definition set_perm :: "u32 \<Rightarrow> ramfs_node \<Rightarrow> ramfs_node" where
  "set_perm mode n = n\<lparr>rn_mode := (rn_mode n AND S_IFMT) OR (mode AND 0xFFF)\<rparr>"

definition ramfs_chmod :: "ramfs_env \<Rightarrow> cpath \<Rightarrow> u32 \<Rightarrow> ramfs_state \<Rightarrow> ramfs_state \<times> int" where
  "ramfs_chmod e path mode st =
     (let n = ramfs_lookup (re_look e) st path
      in case rnode st n of
           None \<Rightarrow> (st, - 1)
         | Some x \<Rightarrow> if \<not> may_change e (rn_uid x) then (st, - 1) else (upd_node n (set_perm mode) st, 0))"

definition ramfs_fchmod_file :: "ramfs_env \<Rightarrow> addr \<Rightarrow> u32 \<Rightarrow> ramfs_state \<Rightarrow> ramfs_state \<times> int" where
  "ramfs_fchmod_file e f mode st =
     (case rfile st f of
        None \<Rightarrow> (st, - 1)
      | Some x \<Rightarrow>
          (case rnode st (f_node x) of
             None \<Rightarrow> (st, - 1)
           | Some n \<Rightarrow>
               if \<not> may_change e (rn_uid n) then (st, - 1) else (upd_node (f_node x) (set_perm mode) st, 0)))"

text \<open>The change that \<open>ramfs_chown\<close> and \<open>ramfs_lchown\<close> make.\<close>

definition set_owner :: "u32 \<Rightarrow> u32 \<Rightarrow> ramfs_node \<Rightarrow> ramfs_node" where
  "set_owner uid gid n =
     n\<lparr>rn_uid := (if uid \<noteq> - 1 then uid else rn_uid n), rn_gid := (if gid \<noteq> - 1 then gid else rn_gid n),
       rn_mode := rn_mode n AND NOT 0xC00\<rparr>"

definition chown_node :: "ramfs_env \<Rightarrow> u32 \<Rightarrow> u32 \<Rightarrow> addr \<Rightarrow> ramfs_state \<Rightarrow> ramfs_state \<times> int" where
  "chown_node e uid gid n st =
     (if rnode st n = None then (st, - 1)
      else if (case ramfs_cred e of None \<Rightarrow> False | Some ct \<Rightarrow> c_euid ct \<noteq> 0) then (st, - 1)
      else (upd_node n (set_owner uid gid) st, 0))"

definition ramfs_chown :: "ramfs_env \<Rightarrow> cpath \<Rightarrow> u32 \<Rightarrow> u32 \<Rightarrow> ramfs_state \<Rightarrow> ramfs_state \<times> int" where
  "ramfs_chown e path uid gid st = chown_node e uid gid (ramfs_lookup (re_look e) st path) st"

definition ramfs_lchown :: "ramfs_env \<Rightarrow> cpath \<Rightarrow> u32 \<Rightarrow> u32 \<Rightarrow> ramfs_state \<Rightarrow> ramfs_state \<times> int" where
  "ramfs_lchown e path uid gid st = chown_node e uid gid (ramfs_lookup_nofollow (re_look e) st path) st"

record ramfs_stat =
  st_ino :: nat
  st_mode :: u32
  st_nlink :: nat
  st_uid :: u32
  st_gid :: u32
  st_size :: nat
  st_atime :: int
  st_mtime :: int
  st_ctime :: int

definition ramfs_fill_stat :: "addr \<Rightarrow> ramfs_state \<Rightarrow> ramfs_stat option" where
  "ramfs_fill_stat f st =
     (case rfile st f of
        None \<Rightarrow> None
      | Some x \<Rightarrow>
          (case rnode st (f_node x) of
             None \<Rightarrow> None
           | Some n \<Rightarrow> Some \<lparr>st_ino = rn_ino n, st_mode = rn_mode n, st_nlink = rn_nlink n, st_uid = rn_uid n,
               st_gid = rn_gid n, st_size = rn_size n, st_atime = rn_atime n, st_mtime = rn_mtime n, st_ctime = rn_ctime n\<rparr>))"

section \<open>Reading\<close>

text \<open>A directory is read as a sequence of records: inode, record length, name length and type, the
  name, and zeros up to a multiple of four bytes.\<close>

definition EXT2_FT_REG_FILE :: byte where "EXT2_FT_REG_FILE = 1"
definition EXT2_FT_DIR :: byte where "EXT2_FT_DIR = 2"
definition EXT2_FT_SYMLINK :: byte where "EXT2_FT_SYMLINK = 7"

definition rec_len :: "cpath \<Rightarrow> nat" where
  "rec_len name = (let r = (8 + length name + 3) div 4 * 4 in if r < 8 then 8 else r)"

definition dir_record :: "u32 \<Rightarrow> byte \<Rightarrow> cpath \<Rightarrow> byte list" where
  "dir_record inode ftype name =
     enc32 inode @ [of_nat (rec_len name), of_nat (rec_len name div 256), of_nat (length name), ftype] @ name @
     replicate (rec_len name - 8 - length name) 0"

text \<open>One loop over records: \<open>pos\<close> is where the next record starts, \<open>out\<close> what was copied so far.\<close>

primrec emit :: "nat \<Rightarrow> nat \<Rightarrow> byte list list \<Rightarrow> nat \<Rightarrow> byte list \<Rightarrow> nat \<times> byte list" where
  "emit len offset [] pos out = (pos, out)"
| "emit len offset (r # rs) pos out =
     (if pos + length r \<le> offset then emit len offset rs (pos + length r) out
      else if length out \<ge> len then (pos, out)
      else
        (let entry_off = (if offset > pos then offset - pos else 0);
             avail = len - length out;
             tocopy = min (if length r > entry_off then length r - entry_off else 0) avail
         in emit len offset rs (pos + length r) (out @ take tocopy (drop entry_off r))))"

definition child_record :: "ramfs_state \<Rightarrow> addr \<Rightarrow> byte list" where
  "child_record st c =
     (case rnode st c of
        None \<Rightarrow> []
      | Some x \<Rightarrow>
          (case rnode st (ramfs_resolve_link st c) of
             None \<Rightarrow> []
           | Some r \<Rightarrow>
               dir_record (of_nat (rn_ino r))
                 (if is_symlink x then EXT2_FT_SYMLINK else if rn_is_dir r then EXT2_FT_DIR else EXT2_FT_REG_FILE)
                 (rn_name x)))"

text \<open>\<open>mounts\<close> is what \<open>fs_get_mount_children\<close> gives for the path of the file.\<close>

definition mount_names :: "ramfs_state \<Rightarrow> addr \<Rightarrow> cpath list \<Rightarrow> cpath list" where
  "mount_names st n mounts =
     filter (\<lambda>m. m \<noteq> [] \<and> m \<noteq> [46] \<and> m \<noteq> [46, 46] \<and> ramfs_find_child st n m = 0) mounts"

definition read_dir :: "ramfs_state \<Rightarrow> addr \<Rightarrow> ramfs_node \<Rightarrow> bool \<Rightarrow> cpath list \<Rightarrow> nat \<Rightarrow> nat \<Rightarrow> byte list" where
  "read_dir st a n has_path mounts len offset =
     (let (pos, out) = emit len offset [dir_record 1 EXT2_FT_DIR [46], dir_record 1 EXT2_FT_DIR [46, 46]] 0 [];
          (pos, out) = emit len offset (map (child_record st) (rn_children n)) pos out
      in if has_path then snd (emit len offset (map (dir_record 1 EXT2_FT_DIR) (mount_names st a mounts)) pos out)
         else out)"

text \<open>The bytes read, of a file whose size may exceed its buffer.\<close>

definition read_file :: "ramfs_node \<Rightarrow> nat \<Rightarrow> nat \<Rightarrow> byte list" where
  "read_file n len offset =
     (if offset \<ge> rn_size n then []
      else
        (let copy = (if add64 offset len > rn_size n then rn_size n - offset else len)
         in case rn_data n of
              None \<Rightarrow> replicate copy 0
            | Some d \<Rightarrow>
                if offset \<ge> rn_cap n then replicate copy 0
                else
                  (let have' = rn_cap n - offset
                   in if have' \<ge> copy then take copy (drop offset d)
                      else take have' (drop offset d) @ replicate (copy - have') 0)))"

definition ramfs_read :: "ramfs_state \<Rightarrow> addr \<Rightarrow> cpath list \<Rightarrow> nat \<Rightarrow> nat \<Rightarrow> byte list option" where
  "ramfs_read st f mounts len offset =
     (case rfile st f of
        None \<Rightarrow> None
      | Some x \<Rightarrow>
          (case rnode st (f_node x) of
             None \<Rightarrow> None
           | Some n \<Rightarrow>
               Some (if rn_is_dir n then read_dir st (f_node x) n (absolute (f_path x)) mounts len offset
                     else read_file n len offset)))"

section \<open>Changing contents\<close>

text \<open>\<open>fresh i\<close> is what byte \<open>i\<close> of a block holds that was just allocated or just became longer.\<close>

definition krealloc_buf :: "(nat \<Rightarrow> byte) \<Rightarrow> byte list option \<Rightarrow> nat \<Rightarrow> byte list" where
  "krealloc_buf fresh d len =
     (let old = (case d of None \<Rightarrow> [] | Some d \<Rightarrow> d)
      in map (\<lambda>i. if i < length old then old ! i else fresh i) [0..<len])"

record ramfs_mem =
  m_is_heap :: bool
  m_copy :: bool
  m_alloc :: "nat \<Rightarrow> nat \<Rightarrow> bool"
  m_fresh :: "nat \<Rightarrow> byte"
  m_behind :: "nat \<Rightarrow> byte"

definition set_file_size :: "addr \<Rightarrow> nat \<Rightarrow> ramfs_state \<Rightarrow> ramfs_state" where
  "set_file_size f len st = st\<lparr>rfile := (rfile st)(f := map_option (\<lambda>x. x\<lparr>f_size := len\<rparr>) (rfile st f))\<rparr>"

definition set_file_gen :: "addr \<Rightarrow> addr \<Rightarrow> ramfs_state \<Rightarrow> ramfs_state" where
  "set_file_gen f a st =
     (case rnode st a of
        None \<Rightarrow> st
      | Some n \<Rightarrow> st\<lparr>rfile := (rfile st)(f := map_option (\<lambda>x. x\<lparr>f_backing_gen := rn_gen n\<rparr>) (rfile st f))\<rparr>)"

text \<open>A changed node is put back, the file's size follows, and the page cache is told.\<close>

definition commit :: "ramfs_env \<Rightarrow> addr \<Rightarrow> addr \<Rightarrow> ramfs_node \<Rightarrow> ramfs_state \<Rightarrow> ramfs_state" where
  "commit e f a n st =
     set_file_gen f a (ramfs_inode_changed (re_now e) a (set_file_size f (rn_size n) (upd_node a (\<lambda>_. n) st)))"

definition ramfs_ftruncate :: "ramfs_env \<Rightarrow> ramfs_mem \<Rightarrow> addr \<Rightarrow> int \<Rightarrow> ramfs_state \<Rightarrow> ramfs_state \<times> int" where
  "ramfs_ftruncate e m f len st =
     (case rfile st f of
        None \<Rightarrow> (st, - 22)
      | Some x \<Rightarrow>
          if len < 0 then (st, - 22)
          else case rnode st (f_node x) of
            None \<Rightarrow> (st, - 22)
          | Some n \<Rightarrow>
              if rn_is_dir n then (st, - 22)
              else if \<not> may_change e (rn_uid n) then (st, - 22)
              else
                (let newsize = nat len
                 in if newsize = rn_size n then (st, 0)
                    else if newsize = 0 then (commit e f (f_node x) ((ramfs_free_data_owned n)\<lparr>rn_size := 0\<rparr>) st, 0)
                    else if newsize < rn_size n then
                      (let (n, r) = ramfs_ensure_heap_data_locked (m_is_heap m) (m_copy m) (m_behind m) n
                       in if r \<noteq> 0 then (upd_node (f_node x) (\<lambda>_. n) st, - 12)
                          else if \<not> m_alloc m 0 newsize then (upd_node (f_node x) (\<lambda>_. n) st, - 12)
                          else (commit e f (f_node x) (n\<lparr>rn_data := Some (krealloc_buf (m_fresh m) (rn_data n) newsize),
                                  rn_size := newsize, rn_cap := newsize\<rparr>) st, 0))
                    else
                      (set_file_size f newsize (upd_node (f_node x)
                         (\<lambda>n. n\<lparr>rn_size := newsize, rn_mtime := re_now e, rn_ctime := re_now e\<rparr>) st), 0)))"

definition CHUNK :: nat where "CHUNK = 64 * 1024"

text \<open>The loop that finds the new capacity.\<close>

function grow_capacity :: "nat \<Rightarrow> nat \<Rightarrow> nat" where
  "grow_capacity capacity needed_end =
     (if capacity < needed_end then
        (let nxt = add64 capacity (capacity div 2)
         in if nxt \<le> capacity then needed_end else grow_capacity nxt needed_end)
      else capacity)"
  by pat_completeness auto
termination
  by (relation "measure (\<lambda>(c, e). e - c)") auto

declare grow_capacity.simps [simp del]

text \<open>\<open>buf\<close> put over the list \<open>d\<close> at a position.\<close>

definition splice :: "byte list \<Rightarrow> nat \<Rightarrow> byte list \<Rightarrow> byte list" where
  "splice d pos buf = take pos d @ buf @ drop (pos + length buf) d"

text \<open>Making room up to \<open>needed_end\<close>; \<open>None\<close> when there is no memory.\<close>

definition write_room :: "(nat \<Rightarrow> nat \<Rightarrow> bool) \<Rightarrow> nat \<Rightarrow> nat \<Rightarrow> ramfs_node \<Rightarrow> ramfs_node option" where
  "write_room alloc pos needed_end n =
     (if needed_end \<le> rn_cap n then Some n
      else
        (let capacity = grow_capacity (if rn_cap n \<noteq> 0 then rn_cap n else 4096) needed_end;
             old = (case rn_data n of None \<Rightarrow> [] | Some d \<Rightarrow> take (rn_cap n) d);
             got = (if alloc pos capacity then Some capacity
                    else if capacity > needed_end \<and> alloc pos needed_end then Some needed_end
                    else None)
         in case got of
              None \<Rightarrow> None
            | Some c \<Rightarrow> Some (n\<lparr>rn_data := Some (old @ replicate (c - length old) 0), rn_cap := c\<rparr>)))"

text \<open>One chunk.\<close>

definition write_chunk :: "nat \<Rightarrow> byte list \<Rightarrow> ramfs_node \<Rightarrow> ramfs_node" where
  "write_chunk pos chunk n =
     (let needed_end = add64 pos (length chunk);
          n = (if needed_end > rn_size n then
                 (let zto = min needed_end (rn_cap n)
                  in n\<lparr>rn_data := (if rn_size n < rn_cap n \<and> zto > rn_size n
                         then map_option (\<lambda>d. splice d (rn_size n) (replicate (zto - rn_size n) 0)) (rn_data n)
                         else rn_data n),
                       rn_size := needed_end\<rparr>)
               else n)
      in n\<lparr>rn_data := map_option (\<lambda>d. splice d pos chunk) (rn_data n)\<rparr>)"

text \<open>The loop over chunks: the node and 0, or the error.\<close>

function write_loop :: "(nat \<Rightarrow> nat \<Rightarrow> bool) \<Rightarrow> nat \<Rightarrow> byte list \<Rightarrow> ramfs_node \<Rightarrow> ramfs_node \<times> int" where
  "write_loop alloc pos buf n =
     (if buf = [] then (n, 0)
      else
        (let chunk = take CHUNK buf; needed_end = add64 pos (length chunk)
         in if needed_end < pos then (n, - 1)
            else case write_room alloc pos needed_end n of
              None \<Rightarrow> (n, - 12)
            | Some n \<Rightarrow> write_loop alloc needed_end (drop CHUNK buf) (write_chunk pos chunk n)))"
  by pat_completeness auto
termination
  by (relation "measure (\<lambda>(_, _, b, _). length b)") (auto simp: CHUNK_def)

declare write_loop.simps [simp del]

definition ramfs_write :: "ramfs_env \<Rightarrow> ramfs_mem \<Rightarrow> addr \<Rightarrow> byte list \<Rightarrow> nat \<Rightarrow> ramfs_state \<Rightarrow> ramfs_state \<times> int" where
  "ramfs_write e m f buf offset st =
     (case rfile st f of
        None \<Rightarrow> (st, - 1)
      | Some x \<Rightarrow>
          (case rnode st (f_node x) of
             None \<Rightarrow> (st, - 1)
           | Some n \<Rightarrow>
               if rn_is_dir n then (st, - 21)
               else
                 (let (n, r) = ramfs_ensure_heap_data_locked (m_is_heap m) (m_copy m) (m_behind m) n
                  in if r \<noteq> 0 then (upd_node (f_node x) (\<lambda>_. n) st, - 12)
                     else
                       (let (n, r) = write_loop (m_alloc m) offset buf n
                        in if r \<noteq> 0 then (upd_node (f_node x) (\<lambda>_. n) st, r)
                           else (commit e f (f_node x) n st, int (length buf))))))"

section \<open>Removing and renaming\<close>

text \<open>The loop of \<open>ramfs_remove\<close> over a directory's subtree, with its stack of 64 nodes (top first).\<close>

partial_function (option) free_loop :: "addr list \<Rightarrow> ramfs_state \<Rightarrow> ramfs_state option" where
  "free_loop stack st =
     (case stack of
        [] \<Rightarrow> Some st
      | cur # stack \<Rightarrow>
          (case rnode st cur of
             None \<Rightarrow> free_loop stack st
           | Some n \<Rightarrow>
               (let cs = take (64 - length stack) (take GUARD (rn_children n));
                    st = (if \<not> rn_is_dir n \<and> rn_link n = 0
                          then pagecache_invalidate (PAGECACHE_ID_RAMFS (rn_ino n)) 0 st else st)
                in free_loop (rev cs @ stack) (forget_node cur st))))"

definition ramfs_remove :: "ramfs_env \<Rightarrow> cpath \<Rightarrow> ramfs_state \<Rightarrow> (ramfs_state \<times> int) option" where
  "ramfs_remove e path st =
     (if path = [SLASH] then Some (st, - 2)
      else
        (let a = ramfs_lookup_nofollow (re_look e) st path
         in case rnode st a of
              None \<Rightarrow> Some (st, - 3)
            | Some n \<Rightarrow>
                (case rnode st (rn_parent n) of
                   None \<Rightarrow> Some (st, - 4)
                 | Some p \<Rightarrow>
                     if ramfs_cred e \<noteq> None \<and> \<not> ramfs_may_unlink_node p n (ramfs_cred e) then Some (st, - 1)
                     else if rn_link n \<noteq> 0 then
                       (let t = rn_link n;
                            st = forget_node a (ramfs_unlink_from_parent a st);
                            st = upd_node t (\<lambda>t. if rn_nlink t > 0 then t\<lparr>rn_nlink := rn_nlink t - 1\<rparr> else t) st
                        in Some (if (case rnode st t of None \<Rightarrow> False | Some x \<Rightarrow> rn_nlink x = 0)
                                 then ramfs_maybe_free_inode t st else st, 0))
                     else
                       (let st = ramfs_unlink_from_parent a st;
                            st = upd_node a (\<lambda>x. if rn_nlink x > 0 then x\<lparr>rn_nlink := rn_nlink x - 1\<rparr> else x) st
                        in if \<not> rn_is_dir n then Some (ramfs_maybe_free_inode a st, 0)
                           else map_option (\<lambda>st. (st, 0)) (free_loop [a] st)))))"

definition ramfs_rename :: "ramfs_env \<Rightarrow> cpath \<Rightarrow> cpath \<Rightarrow> ramfs_state \<Rightarrow> (ramfs_state \<times> int) option" where
  "ramfs_rename e oldpath newpath st =
     (if \<not> absolute oldpath \<or> \<not> absolute newpath then Some (st, - 1)
      else if oldpath = newpath then Some (st, 0)
      else
        (let old = ramfs_lookup_nofollow (re_look e) st oldpath
         in if rnode st old = None then Some (st, - 2)
            else if \<not> re_tmp e then Some (st, - 5)
            else
              (let (new_parent_path, new_name) = split_path newpath
               in if new_name = [] then Some (st, - 3)
                  else
                    (let new_parent = ramfs_lookup (re_look e) st new_parent_path
                     in if rnode st new_parent = None then Some (st, - 2)
                        else if \<not> is_dir_at st new_parent then Some (st, - 3)
                        else
                          (let existing = ramfs_find_child st new_parent new_name
                           in case (if existing \<noteq> 0 \<and> existing \<noteq> old then ramfs_remove e newpath st else Some (st, 0)) of
                                None \<Rightarrow> None
                              | Some (st, rr) \<Rightarrow>
                                  if rr \<noteq> 0 then Some (st, rr)
                                  else
                                    (let st = ramfs_unlink_from_parent old st
                                     in if \<not> re_name e then Some (upd_node old (\<lambda>n. n\<lparr>rn_name := []\<rparr>) st, - 5)
                                        else Some (add_child new_parent old
                                          (upd_node old (\<lambda>n. n\<lparr>rn_name := new_name\<rparr>) st), 0)))))))"

section \<open>Extended attributes\<close>

definition ENOENT :: int where "ENOENT = 2"
definition ERANGE :: int where "ERANGE = 34"
definition E2BIG :: int where "E2BIG = 7"
definition EEXIST :: int where "EEXIST = 17"
definition ENODATA :: int where "ENODATA = 61"
definition XATTR_NAME_MAX :: nat where "XATTR_NAME_MAX = 255"
definition XATTR_SIZE_MAX :: nat where "XATTR_SIZE_MAX = 65536"
definition XATTR_LIST_MAX :: nat where "XATTR_LIST_MAX = 65536"

definition xattr_inode :: "ramfs_env \<Rightarrow> ramfs_state \<Rightarrow> cpath \<Rightarrow> (addr \<times> ramfs_node) option" where
  "xattr_inode e st path =
     (let n = ramfs_lookup_nofollow (re_look e) st path
      in if rnode st n = None then None
         else (let i = ramfs_resolve_link st n in map_option (Pair i) (rnode st i)))"

definition ramfs_xattr_find :: "ramfs_node \<Rightarrow> cpath \<Rightarrow> ramfs_xattr option" where
  "ramfs_xattr_find inode name = List.find (\<lambda>x. xa_name x = name) (rn_xattrs inode)"

text \<open>The value with its length as result, the length alone for a buffer of length 0, or an error.\<close>

definition ramfs_getxattr :: "ramfs_env \<Rightarrow> cpath \<Rightarrow> cpath \<Rightarrow> nat \<Rightarrow> ramfs_state \<Rightarrow> int \<times> byte list" where
  "ramfs_getxattr e path name len st =
     (case xattr_inode e st path of
        None \<Rightarrow> (- ENOENT, [])
      | Some (_, inode) \<Rightarrow>
          (case ramfs_xattr_find inode name of
             None \<Rightarrow> (- ENODATA, [])
           | Some x \<Rightarrow>
               if len = 0 then (int (length (xa_value x)), [])
               else if len < length (xa_value x) then (- ERANGE, [])
               else (int (length (xa_value x)), xa_value x)))"

definition ramfs_listxattr :: "ramfs_env \<Rightarrow> cpath \<Rightarrow> nat \<Rightarrow> ramfs_state \<Rightarrow> int \<times> byte list" where
  "ramfs_listxattr e path len st =
     (case xattr_inode e st path of
        None \<Rightarrow> (- ENOENT, [])
      | Some (_, inode) \<Rightarrow>
          (let names = concat (map (\<lambda>x. xa_name x @ [0]) (rn_xattrs inode))
           in if length names > XATTR_LIST_MAX then (- E2BIG, [])
              else if len = 0 then (int (length names), [])
              else if len < length names then (- ERANGE, [])
              else (int (length names), names)))"

text \<open>\<open>value\<close> is \<open>None\<close> for a null pointer; \<open>flags\<close> has bit 0 for \<open>XATTR_CREATE\<close>, bit 1 for \<open>XATTR_REPLACE\<close>.\<close>

definition ramfs_setxattr :: "ramfs_env \<Rightarrow> cpath \<Rightarrow> cpath \<Rightarrow> byte list option \<Rightarrow> nat \<Rightarrow> int \<Rightarrow> ramfs_state \<Rightarrow>
    ramfs_state \<times> int" where
  "ramfs_setxattr e path name val len flags st =
     (if len > XATTR_SIZE_MAX then (st, - E2BIG)
      else if val = None \<and> len \<noteq> 0 then (st, - 22)
      else if name = [] \<or> length name > XATTR_NAME_MAX then (st, - 22)
      else case xattr_inode e st path of
        None \<Rightarrow> (st, - ENOENT)
      | Some (i, inode) \<Rightarrow>
          (let bytes = (case val of None \<Rightarrow> [] | Some v \<Rightarrow> take len v)
           in case ramfs_xattr_find inode name of
                Some _ \<Rightarrow>
                  if flags AND 1 \<noteq> 0 then (st, - EEXIST)
                  else if len \<noteq> 0 \<and> \<not> re_data e then (st, - 12)
                  else (upd_node i (\<lambda>n. n\<lparr>rn_xattrs := map (\<lambda>x. if xa_name x = name then x\<lparr>xa_value := bytes\<rparr> else x)
                          (rn_xattrs n), rn_ctime := 0\<rparr>) st, 0)
              | None \<Rightarrow>
                  if flags AND 2 \<noteq> 0 then (st, - ENODATA)
                  else if len \<noteq> 0 \<and> \<not> re_data e then (st, - 12)
                  else if \<not> re_name e then (st, - 12)
                  else if re_node e = 0 then (st, - 12)
                  else (upd_node i (\<lambda>n. n\<lparr>rn_xattrs := \<lparr>xa_name = name, xa_value = bytes\<rparr> # rn_xattrs n,
                          rn_ctime := 0\<rparr>) st, 0)))"

fun drop_first :: "('a \<Rightarrow> bool) \<Rightarrow> 'a list \<Rightarrow> 'a list" where
  "drop_first P [] = []"
| "drop_first P (x # xs) = (if P x then xs else x # drop_first P xs)"

definition ramfs_removexattr :: "ramfs_env \<Rightarrow> cpath \<Rightarrow> cpath \<Rightarrow> ramfs_state \<Rightarrow> ramfs_state \<times> int" where
  "ramfs_removexattr e path name st =
     (case xattr_inode e st path of
        None \<Rightarrow> (st, - ENOENT)
      | Some (i, inode) \<Rightarrow>
          if \<exists>x \<in> set (rn_xattrs inode). xa_name x = name
          then (upd_node i (\<lambda>n. n\<lparr>rn_xattrs := drop_first (\<lambda>x. xa_name x = name) (rn_xattrs n)\<rparr>) st, 0)
          else (st, - ENODATA))"

section \<open>Whiteouts and the root\<close>

definition ramfs_make_whiteout :: "ramfs_env \<Rightarrow> cpath \<Rightarrow> ramfs_state \<Rightarrow> (ramfs_state \<times> int) option" where
  "ramfs_make_whiteout e path st =
     (if \<not> absolute path then Some (st, - 1)
      else case ramfs_remove e path st of
        None \<Rightarrow> None
      | Some (st, _) \<Rightarrow>
          (let (st, rc) = ramfs_create e path st
           in if rc \<noteq> 0 then Some (st, - 1)
              else Some (ramfs_release (re_file e) (upd_node (re_node e)
                (\<lambda>n. ramfs_free_data_owned (n\<lparr>rn_mode := S_IFCHR, rn_uid := RAMFS_WHITEOUT_UID, rn_gid := 0, rn_size := 0\<rparr>)) st), 0)))"

definition ramfs_path_is_whiteout :: "ramfs_env \<Rightarrow> cpath \<Rightarrow> ramfs_state \<Rightarrow> bool" where
  "ramfs_path_is_whiteout e path st =
     (case rnode st (ramfs_lookup_nofollow (re_look e) st path) of
        None \<Rightarrow> False
      | Some n \<Rightarrow> rn_mode n AND S_IFMT = S_IFCHR \<and> rn_uid n = RAMFS_WHITEOUT_UID)"

text \<open>The file system at boot, before the driver is registered with the VFS: the root and \<open>/dev\<close>, whose
  nodes are allocated in turn.\<close>

definition ramfs_boot :: ramfs_state where
  "ramfs_boot = \<lparr>ramfs_root = 0, ramfs_next_inode = 10, rnode = Map.empty, rfile = Map.empty, pc_calls = []\<rparr>"

definition ramfs_register_root :: "ramfs_env \<Rightarrow> ramfs_env \<Rightarrow> ramfs_state \<Rightarrow> ramfs_state \<times> int" where
  "ramfs_register_root e e' st =
     (let (st, r) = ramfs_alloc_node e [] True st; st = st\<lparr>ramfs_root := r\<rparr>
      in if r = 0 then (st, - 1) else (fst (ramfs_mkdir e' [SLASH, 100, 101, 118] st), 0))"

end
