(* ===== verification/Ramfs_Data.thy ===== *)
theory Ramfs_Data
  imports Ramfs
begin

text \<open>
  The contents of a file of \<open>fs/virt/ramfs.c\<close>. A file's size may exceed its buffer and its buffer may
  exceed its size; \<open>contents\<close> is the sequence of bytes the file stands for, and reading, writing and
  truncating are operations on this sequence.
\<close>

section \<open>Contents\<close>

definition byte_at :: "ramfs_node \<Rightarrow> nat \<Rightarrow> byte" where
  "byte_at n i = (case rn_data n of None \<Rightarrow> 0 | Some d \<Rightarrow> if i < length d then d ! i else 0)"

definition contents :: "ramfs_node \<Rightarrow> byte list" where
  "contents n = map (byte_at n) [0..<rn_size n]"

text \<open>The capacity is the length of the buffer, and the buffer holds zeros behind the end of the file.\<close>

definition data_ok :: "ramfs_node \<Rightarrow> bool" where
  "data_ok n \<longleftrightarrow> rn_cap n = (case rn_data n of None \<Rightarrow> 0 | Some d \<Rightarrow> length d) \<and>
     (\<forall>i \<ge> rn_size n. byte_at n i = 0)"

text \<open>Data that is only borrowed reaches to the end of the file.\<close>

definition exact :: "ramfs_node \<Rightarrow> bool" where
  "exact n \<longleftrightarrow> (rn_borrowed n \<longrightarrow> rn_size n \<le> rn_cap n)"

lemma contents_eqI:
  assumes "rn_size n = length c" "\<And>i. i < length c \<Longrightarrow> byte_at n i = c ! i"
  shows "contents n = c"
  using assms by (auto simp: contents_def intro: nth_equalityI)

lemma length_contents [simp]: "length (contents n) = rn_size n"
  by (simp add: contents_def)

lemma nth_contents [simp]: "i < rn_size n \<Longrightarrow> contents n ! i = byte_at n i"
  by (simp add: contents_def)

section \<open>Reading\<close>

lemma read_file_slice:
  assumes "data_ok n" "offset + len < 2 ^ 64"
  shows "read_file n len offset = take len (drop offset (contents n))"
proof (rule nth_equalityI)
  have a: "add64 offset len = offset + len" using assms(2) by (simp add: add64_id)
  show "length (read_file n len offset) = length (take len (drop offset (contents n)))"
    using assms(1) by (auto simp: read_file_def a Let_def data_ok_def split: option.splits)
  fix i
  assume "i < length (read_file n len offset)"
  then show "read_file n len offset ! i = take len (drop offset (contents n)) ! i"
    using assms(1) by (auto simp: read_file_def a Let_def data_ok_def nth_append byte_at_def split: option.splits if_splits)
qed

text \<open>A directory reads as the concatenation of its records, however it is cut into reads.\<close>

definition dir_listing :: "ramfs_state \<Rightarrow> addr \<Rightarrow> ramfs_node \<Rightarrow> bool \<Rightarrow> cpath list \<Rightarrow> byte list" where
  "dir_listing st a n has_path mounts =
     concat ([dir_record 1 EXT2_FT_DIR [46], dir_record 1 EXT2_FT_DIR [46, 46]] @ map (child_record st) (rn_children n) @
       (if has_path then map (dir_record 1 EXT2_FT_DIR) (mount_names st a mounts) else []))"

lemma emit_full: "len \<le> length out \<Longrightarrow> snd (emit len off rs pos out) = out"
  by (induction rs arbitrary: pos) auto

lemma take_full: "len \<le> length (take len (drop off pre)) \<Longrightarrow> take len (drop off (pre @ ys)) = take len (drop off pre)"
  by simp

lemma emit_slice:
  assumes "out = take len (drop off pre)" "pos = length pre \<or> len \<le> length out" "emit len off rs pos out = (pos', out')"
  shows "out' = take len (drop off (pre @ concat rs)) \<and> (pos' = length (pre @ concat rs) \<or> len \<le> length out')"
proof (cases "len \<le> length out")
  case True
  then have "out' = out" using emit_full [OF True, of off rs pos] assms(3) by simp
  moreover have "take len (drop off (pre @ concat rs)) = out" using True unfolding assms(1) by (rule take_full)
  ultimately show ?thesis using True by simp
next
  case False
  then have p: "pos = length pre" using assms(2) by simp
  show ?thesis using assms(1,3) p
  proof (induction rs arbitrary: pos out pre)
    case (Cons r rs)
    show ?case
    proof (cases "pos + length r \<le> off")
      case True
      then have "emit len off rs (pos + length r) out = (pos', out')" "out = take len (drop off (pre @ r))"
        using Cons.prems by simp_all
      from Cons.IH [OF this(2,1)] show ?thesis using Cons.prems(3) by (auto simp del: take_append drop_append)
    next
      case skip: False
      show ?thesis
      proof (cases "len \<le> length out")
        case True
        then have "(pos', out') = (pos, out)" using skip Cons.prems(2) by simp
        moreover have "take len (drop off (pre @ concat (r # rs))) = out"
          using True unfolding Cons.prems(1) by (rule take_full)
        ultimately show ?thesis using True by simp
      next
        case False
        have l: "length out < len" using False by simp
        then have o: "out = drop off pre" using Cons.prems(1) by (simp add: min_def split: if_splits)
        define e where "e = off - pos"
        have "(if off > pos then off - pos else 0) = e" "take (min (if length r > e then length r - e else 0) (len - length out)) (drop e r) =
          take (len - length out) (drop e r)"
          by (auto simp: e_def min_def)
        then have "emit len off rs (pos + length r) (out @ take (len - length out) (drop e r)) = (pos', out')"
          using skip False Cons.prems(2) by (simp add: Let_def)
        moreover have "out @ take (len - length out) (drop e r) = take len (drop off (pre @ r))"
          using l Cons.prems(3) by (simp add: o e_def)
        ultimately show ?thesis using Cons.IH [of "take len (drop off (pre @ r))" "pre @ r" "pos + length r"] Cons.prems(3)
          by (auto simp del: take_append drop_append)
      qed
    qed
  qed simp
qed

lemma read_dir_slice: "read_dir st a n has_path mounts len off = take len (drop off (dir_listing st a n has_path mounts))"
proof -
  let ?r1 = "[dir_record 1 EXT2_FT_DIR [46], dir_record 1 EXT2_FT_DIR [46, 46]]" and ?r2 = "map (child_record st) (rn_children n)"
  let ?r3 = "map (dir_record 1 EXT2_FT_DIR) (mount_names st a mounts)"
  obtain p1 o1 where 1: "emit len off ?r1 0 [] = (p1, o1)" by fastforce
  obtain p2 o2 where 2: "emit len off ?r2 p1 o1 = (p2, o2)" by fastforce
  obtain p3 o3 where 3: "emit len off ?r3 p2 o2 = (p3, o3)" by fastforce
  have E1: "o1 = take len (drop off (concat ?r1)) \<and> (p1 = length (concat ?r1) \<or> len \<le> length o1)"
    using emit_slice [OF _ _ 1, of "[]"] by (auto simp del: take_append drop_append)
  have E2: "o2 = take len (drop off (concat ?r1 @ concat ?r2)) \<and> (p2 = length (concat ?r1 @ concat ?r2) \<or> len \<le> length o2)"
    using emit_slice [OF conjunct1 [OF E1] conjunct2 [OF E1] 2] .
  have E3: "o3 = take len (drop off ((concat ?r1 @ concat ?r2) @ concat ?r3))"
    using emit_slice [OF conjunct1 [OF E2] conjunct2 [OF E2] 3] by (rule conjunct1)
  show ?thesis using 1 2 3 E2 E3 by (cases has_path) (simp_all add: read_dir_def dir_listing_def del: take_append drop_append)
qed

section \<open>Writing\<close>

text \<open>What a write stands for: the bytes replace those from \<open>offset\<close> on, and a gap behind the end is zeros.\<close>

definition write_spec :: "byte list \<Rightarrow> nat \<Rightarrow> byte list \<Rightarrow> byte list" where
  "write_spec c offset buf =
     (if buf = [] then c
      else take offset (c @ replicate (offset - length c) 0) @ buf @ drop (offset + length buf) c)"

lemma length_write_spec: "buf \<noteq> [] \<Longrightarrow> length (write_spec c offset buf) = max (length c) (offset + length buf)"
  by (auto simp: write_spec_def)

lemma nth_write_spec:
  assumes "buf \<noteq> []" "i < max (length c) (offset + length buf)"
  shows "write_spec c offset buf ! i =
    (if offset \<le> i \<and> i < offset + length buf then buf ! (i - offset) else if i < length c then c ! i else 0)"
proof -
  have "min (length c) offset + (offset - length c) = offset" by simp
  then show ?thesis using assms by (auto simp: write_spec_def nth_append)
qed

lemma write_spec_append:
  assumes "b1 \<noteq> []"
  shows "write_spec (write_spec c pos b1) (pos + length b1) b2 = write_spec c pos (b1 @ b2)"
proof (cases "b2 = []")
  case False
  note L = length_write_spec and N = nth_write_spec
  show ?thesis
  proof (rule nth_equalityI)
    show "length (write_spec (write_spec c pos b1) (pos + length b1) b2) = length (write_spec c pos (b1 @ b2))"
      using assms False by (simp add: L)
    fix i
    assume "i < length (write_spec (write_spec c pos b1) (pos + length b1) b2)"
    then show "write_spec (write_spec c pos b1) (pos + length b1) b2 ! i = write_spec c pos (b1 @ b2) ! i"
      using assms False by (auto simp: L N nth_append)
  qed
qed (simp add: write_spec_def [of _ _ "[]"])

lemma grow_capacity_ge: "needed \<le> grow_capacity c needed"
  by (induction c needed rule: grow_capacity.induct) (simp add: grow_capacity.simps Let_def)

lemma write_room_ok:
  assumes ok: "data_ok n" and r: "write_room alloc pos needed n = Some n'" and "0 < needed"
  shows "byte_at n' = byte_at n" "needed \<le> rn_cap n'" "rn_size n' = rn_size n" "rn_data n' \<noteq> None"
    "rn_cap n' = (case rn_data n' of None \<Rightarrow> 0 | Some d \<Rightarrow> length d)" "rn_borrowed n' = rn_borrowed n"
proof -
  let ?old = "case rn_data n of None \<Rightarrow> [] | Some d \<Rightarrow> take (rn_cap n) d"
  have o: "length ?old = rn_cap n" "byte_at n = (\<lambda>i. if i < length ?old then ?old ! i else 0)"
    using ok by (auto simp: data_ok_def byte_at_def fun_eq_iff split: option.splits)
  have "n' = n \<and> needed \<le> rn_cap n \<or>
    (\<exists>c \<ge> needed. rn_cap n < needed \<and> n' = n\<lparr>rn_data := Some (?old @ replicate (c - length ?old) 0), rn_cap := c\<rparr>)"
    using r grow_capacity_ge [of needed "if rn_cap n \<noteq> 0 then rn_cap n else 4096"]
    by (auto simp: write_room_def Let_def split: if_splits)
  then show "byte_at n' = byte_at n" "needed \<le> rn_cap n'" "rn_size n' = rn_size n" "rn_data n' \<noteq> None"
    "rn_cap n' = (case rn_data n' of None \<Rightarrow> 0 | Some d \<Rightarrow> length d)" "rn_borrowed n' = rn_borrowed n"
    using ok o assms(3) by (auto simp: data_ok_def byte_at_def fun_eq_iff nth_append split: option.splits)
qed

lemma nth_splice:
  assumes "pos + length b \<le> length d" "i < length d"
  shows "splice d pos b ! i = (if pos \<le> i \<and> i < pos + length b then b ! (i - pos) else d ! i)"
  using assms by (auto simp: splice_def nth_append)

lemma length_splice [simp]: "pos + length b \<le> length d \<Longrightarrow> length (splice d pos b) = length d"
  by (simp add: splice_def)

text \<open>A chunk for which there is room.\<close>

lemma write_chunk_view:
  assumes "rn_data n = Some d" "rn_cap n = length d" "pos + length b \<le> length d" "pos + length b < 2 ^ 64"
    and z: "\<forall>i \<ge> rn_size n. byte_at n i = 0"
  shows "rn_size (write_chunk pos b n) = max (rn_size n) (pos + length b)"
    "byte_at (write_chunk pos b n) i = (if pos \<le> i \<and> i < pos + length b then b ! (i - pos) else byte_at n i)"
    "rn_cap (write_chunk pos b n) = rn_cap n" "rn_borrowed (write_chunk pos b n) = rn_borrowed n"
    "\<exists>d'. rn_data (write_chunk pos b n) = Some d' \<and> length d' = length d"
proof -
  have a: "add64 pos (length b) = pos + length b" using assms(4) by (simp add: add64_id)
  show "rn_size (write_chunk pos b n) = max (rn_size n) (pos + length b)"
    "rn_cap (write_chunk pos b n) = rn_cap n" "rn_borrowed (write_chunk pos b n) = rn_borrowed n"
    by (simp_all add: write_chunk_def a Let_def)
  define d1 where "d1 = (if pos + length b > rn_size n \<and> rn_size n < rn_cap n
    then splice d (rn_size n) (replicate (min (pos + length b) (rn_cap n) - rn_size n) 0) else d)"
  have w: "rn_data (write_chunk pos b n) = Some (splice d1 pos b)"
    using assms(1,2) by (auto simp: write_chunk_def a Let_def d1_def)
  have d1: "length d1 = length d" "\<And>i. i < length d \<Longrightarrow> d1 ! i = d ! i"
    using z assms(1,2,3) by (auto simp: d1_def nth_splice byte_at_def)
  show "\<exists>d'. rn_data (write_chunk pos b n) = Some d' \<and> length d' = length d" using w d1(1) assms(3) by simp
  show "byte_at (write_chunk pos b n) i = (if pos \<le> i \<and> i < pos + length b then b ! (i - pos) else byte_at n i)"
    using assms(1,3) d1 by (auto simp: byte_at_def w nth_splice)
qed

lemma write_chunk_ok:
  assumes ok: "data_ok n" and b: "\<not> rn_borrowed n" and r: "write_room alloc pos (pos + length c) n = Some n'"
    and c: "c \<noteq> []" "pos + length c < 2 ^ 64"
  shows "data_ok (write_chunk pos c n')" "contents (write_chunk pos c n') = write_spec (contents n) pos c"
    "\<not> rn_borrowed (write_chunk pos c n')"
proof -
  have n0: "0 < pos + length c" using c(1) by simp
  note R = write_room_ok [OF ok r n0]
  obtain d where d: "rn_data n' = Some d" "rn_cap n' = length d" using R(4,5) by auto
  have z: "\<forall>i \<ge> rn_size n'. byte_at n' i = 0" using ok R(1,3) by (simp add: data_ok_def)
  have l: "pos + length c \<le> length d" using R(2) d(2) by simp
  note W = write_chunk_view [OF d l c(2) z]
  show "\<not> rn_borrowed (write_chunk pos c n')" using b R(6) W(4) by simp
  then show "data_ok (write_chunk pos c n')" using W z d by (auto simp: data_ok_def)
  show "contents (write_chunk pos c n') = write_spec (contents n) pos c"
  proof (rule contents_eqI)
    show "rn_size (write_chunk pos c n') = length (write_spec (contents n) pos c)"
      using W(1) R(3) c(1) by (simp add: length_write_spec)
    show "byte_at (write_chunk pos c n') i = write_spec (contents n) pos c ! i"
      if "i < length (write_spec (contents n) pos c)" for i
      using that W(2) R(1,3) z c(1) by (auto simp: length_write_spec nth_write_spec)
  qed
qed

text \<open>The loop over chunks writes a prefix of the buffer, all of it unless there is no memory.\<close>

lemma write_loop_refines:
  assumes "data_ok n" "\<not> rn_borrowed n" "pos + length buf < 2 ^ 64" "write_loop alloc pos buf n = (n', r)"
  shows "data_ok n' \<and> \<not> rn_borrowed n' \<and>
    (\<exists>k. contents n' = write_spec (contents n) pos (take k buf) \<and>
       (r = 0 \<and> k = length buf \<or> r = - 12 \<and> k < length buf \<and> (\<exists>p c. \<not> alloc p c)))"
  using assms
proof (induction alloc pos buf n arbitrary: n' r rule: write_loop.induct)
  case (1 alloc pos buf n)
  show ?case
  proof (cases "buf = []")
    case True
    then show ?thesis using 1(2,3,5) by (simp add: write_loop.simps write_spec_def)
  next
    case False
    let ?c = "take CHUNK buf"
    have c: "?c \<noteq> []" "pos + length ?c < 2 ^ 64" using False 1(4) by (auto simp: CHUNK_def)
    have a: "add64 pos (length ?c) = pos + length ?c" using c(2) by (simp add: add64_id)
    show ?thesis
    proof (cases "write_room alloc pos (pos + length ?c) n")
      case None
      then have "(n', r) = (n, - 12)" using 1(5) False a by (simp add: write_loop.simps [of alloc pos] Let_def)
      moreover have "\<exists>p c. \<not> alloc p c" using None by (auto simp: write_room_def Let_def split: if_splits)
      ultimately show ?thesis using 1(2,3) False by (auto intro!: exI [of _ 0] simp: write_spec_def)
    next
      case (Some n1)
      note C = write_chunk_ok [OF 1(2,3) Some c]
      have l: "pos + length ?c + length (drop CHUNK buf) < 2 ^ 64" using 1(4) by simp
      have w: "write_loop alloc (pos + length ?c) (drop CHUNK buf) (write_chunk pos ?c n1) = (n', r)"
        using 1(5) False a Some by (simp add: write_loop.simps [of alloc pos] Let_def)
      have "\<not> add64 pos (length ?c) < pos" using a by simp
      from 1(1) [OF False refl refl this Some [folded a], unfolded a, OF C(1,3) l w]
      obtain k where k: "data_ok n'" "\<not> rn_borrowed n'"
        "contents n' = write_spec (write_spec (contents n) pos ?c) (pos + length ?c) (take k (drop CHUNK buf))"
        "r = 0 \<and> k = length (drop CHUNK buf) \<or> r = - 12 \<and> k < length (drop CHUNK buf) \<and> (\<exists>p c. \<not> alloc p c)"
        unfolding C(2) by blast
      have "?c @ take k (drop CHUNK buf) = take (length ?c + k) buf"
        using take_add [of "length ?c" k buf] by (cases "CHUNK \<le> length buf") (auto simp: min_def)
      then show ?thesis using k write_spec_append [OF c(1)] by (intro conjI exI [of _ "length ?c + k"]) auto
    qed
  qed
qed

lemma ensure_heap_ok:
  assumes ok: "data_ok n" and d: "\<not> rn_is_dir n" and x: "exact n" and h: "rn_borrowed n \<or> h"
    and e: "ramfs_ensure_heap_data_locked h c beh n = (n', r)"
  shows "data_ok n'" "contents n' = contents n" "r = 0 \<and> \<not> rn_borrowed n' \<or> r = - 12 \<and> \<not> c" "rn_cap n' \<le> rn_cap n"
    "rn_cap n \<le> rn_cap n' \<or> rn_size n \<le> rn_cap n'" "rn_size n' = rn_size n"
proof -
  consider "n' = n" "r = 0" "\<not> rn_borrowed n" | "n' = n" "r = - 12" "\<not> c" "rn_borrowed n"
    | "n' = n\<lparr>rn_data := None, rn_borrowed := False, rn_cap := 0\<rparr>" "r = 0" "rn_size n = 0"
    | d where "rn_data n = Some d" "rn_borrowed n" "r = 0"
        "n' = n\<lparr>rn_data := Some (map (\<lambda>i. if i < length d then d ! i else beh i) [0..<rn_size n]),
           rn_borrowed := False, rn_cap := rn_size n\<rparr>"
    using e d h x ok by (auto simp: ramfs_ensure_heap_data_locked_def ramfs_materialize_node_locked_def exact_def data_ok_def
        split: option.splits if_splits)
  note C = this
  show "data_ok n'" using C by cases (use ok in \<open>auto simp: data_ok_def byte_at_def\<close>)
  show "contents n' = contents n" using C
    by cases (use ok x in \<open>auto simp: data_ok_def contents_def byte_at_def exact_def\<close>)
  show "r = 0 \<and> \<not> rn_borrowed n' \<or> r = - 12 \<and> \<not> c" using C by cases auto
  show "rn_cap n' \<le> rn_cap n" "rn_cap n \<le> rn_cap n' \<or> rn_size n \<le> rn_cap n'" "rn_size n' = rn_size n"
    using C by (cases; use x in \<open>auto simp: exact_def\<close>)+
qed

section \<open>The operations on an open file\<close>

lemma upd_node_at [simp]: "rnode (upd_node a f st) b = (if b = a then map_option f (rnode st a) else rnode st b)"
  "rfile (upd_node a f st) = rfile st" "ramfs_root (upd_node a f st) = ramfs_root st"
  by (simp_all add: upd_node_def)

lemma commit_node:
  assumes "rnode st a \<noteq> None"
  shows "\<exists>n'. rnode (commit e f a n st) a = Some n' \<and> rn_data n' = rn_data n \<and> rn_size n' = rn_size n \<and>
      rn_cap n' = rn_cap n \<and> rn_borrowed n' = rn_borrowed n"
    "b \<noteq> a \<Longrightarrow> rnode (commit e f a n st) b = rnode st b"
  using assms
  by (auto simp: commit_def ramfs_inode_changed_def set_file_gen_def set_file_size_def pagecache_invalidate_def split: option.split)

lemma same_data:
  assumes "rn_data n' = rn_data n" "rn_size n' = rn_size n" "rn_cap n' = rn_cap n" "rn_borrowed n' = rn_borrowed n"
  shows "data_ok n' = data_ok n" "contents n' = contents n"
  using assms by (simp_all add: data_ok_def contents_def byte_at_def)

lemma commit_data:
  assumes "rnode st a \<noteq> None" "data_ok n"
  shows "\<exists>n'. rnode (commit e f a n st) a = Some n' \<and> data_ok n' \<and> contents n' = contents n \<and>
    (\<forall>b. b \<noteq> a \<longrightarrow> rnode (commit e f a n st) b = rnode st b)"
proof -
  obtain n' where n': "rnode (commit e f a n st) a = Some n'" "rn_data n' = rn_data n" "rn_size n' = rn_size n"
    "rn_cap n' = rn_cap n" "rn_borrowed n' = rn_borrowed n"
    using commit_node(1) [OF assms(1)] by blast
  then show ?thesis using same_data [OF n'(2-5)] assms(2) commit_node(2) [OF assms(1)] by auto
qed

lemma ramfs_write_refines:
  assumes f: "rfile st f = Some x" "rnode st (f_node x) = Some n" and d: "\<not> rn_is_dir n" "data_ok n" "exact n" "rn_borrowed n \<or> m_is_heap m"
    and l: "offset + length buf < 2 ^ 64" and w: "ramfs_write e m f buf offset st = (st', r)"
  shows "\<exists>n' k. rnode st' (f_node x) = Some n' \<and> data_ok n' \<and> contents n' = write_spec (contents n) offset (take k buf) \<and>
    (r = int (length buf) \<and> k = length buf \<or> r = - 12 \<and> (\<not> m_copy m \<or> (\<exists>p c. \<not> m_alloc m p c))) \<and>
    (\<forall>b. b \<noteq> f_node x \<longrightarrow> rnode st' b = rnode st b)"
proof -
  obtain n1 r1 where E: "ramfs_ensure_heap_data_locked (m_is_heap m) (m_copy m) (m_behind m) n = (n1, r1)" by fastforce
  note H = ensure_heap_ok [OF d(2,1,3,4) E]
  obtain n2 r2 where L: "write_loop (m_alloc m) offset buf n1 = (n2, r2)" by fastforce
  show ?thesis
  proof (cases "r1 = 0")
    case False
    then have "st' = upd_node (f_node x) (\<lambda>_. n1) st" "r = - 12" using w f d E by (simp_all add: ramfs_write_def)
    then show ?thesis using False H f by (intro exI [of _ n1] exI [of _ 0]) (auto simp: write_spec_def)
  next
    case True
    then have nb: "\<not> rn_borrowed n1" using H(3) by simp
    obtain k where k: "data_ok n2" "contents n2 = write_spec (contents n) offset (take k buf)"
      "r2 = 0 \<and> k = length buf \<or> r2 = - 12 \<and> k < length buf \<and> (\<exists>p c. \<not> m_alloc m p c)"
      using write_loop_refines [OF H(1) nb l L] H(2) by auto
    show ?thesis
    proof (cases "r2 = 0")
      case r2: True
      then have st': "st' = commit e f (f_node x) n2 st" "r = int (length buf)" using w f d E L True by (simp_all add: ramfs_write_def)
      have "rnode st (f_node x) \<noteq> None" using f by simp
      from commit_data [OF this k(1), of e f, folded st'(1)] show ?thesis
        using k(2) st'(2) by (elim exE) (intro exI [of _ "length buf"] exI, use r2 k(3) in auto)
    next
      case False
      then have "st' = upd_node (f_node x) (\<lambda>_. n2) st" "r = - 12" using w f d E L True k by (auto simp: ramfs_write_def)
      then show ?thesis using k False f by (intro exI [of _ n2] exI [of _ k]) auto
    qed
  qed
qed

text \<open>Truncating: the file is cut or extended by zeros. The exception is a file whose buffer ends before the
  new, smaller size: \<open>krealloc\<close> then makes the buffer longer, and what the memory held becomes part of the file.\<close>

definition truncate_spec :: "byte list \<Rightarrow> nat \<Rightarrow> byte list" where
  "truncate_spec c len = take len c @ replicate (len - length c) 0"

lemma nth_truncate_spec: "i < len \<Longrightarrow> truncate_spec c len ! i = (if i < length c then c ! i else 0)"
  by (auto simp: truncate_spec_def nth_append)

lemma length_truncate_spec [simp]: "length (truncate_spec c len) = len"
  by (simp add: truncate_spec_def)

definition sparse_cut :: "ramfs_node \<Rightarrow> nat \<Rightarrow> bool" where
  "sparse_cut n len \<longleftrightarrow> len < rn_size n \<and> rn_cap n < len"

lemma byte_at_krealloc:
  assumes "rn_data n' = Some (krealloc_buf fresh (rn_data n) len)" "i < len"
  shows "byte_at n' i = (if i < (case rn_data n of None \<Rightarrow> 0 | Some d \<Rightarrow> length d) then byte_at n i else fresh i)"
  using assms by (auto simp: byte_at_def krealloc_buf_def split: option.splits)

lemma krealloc_cut:
  assumes ok: "data_ok n" "\<not> rn_borrowed n" and l: "len < rn_size n"
    and n': "n' = n\<lparr>rn_data := Some (krealloc_buf fresh (rn_data n) len), rn_size := len, rn_cap := len\<rparr>"
  shows "data_ok n'"
    "contents n' = (if sparse_cut n len then map (\<lambda>i. if i < rn_cap n then contents n ! i else fresh i) [0..<len]
       else truncate_spec (contents n) len)"
proof -
  have c: "rn_cap n = (case rn_data n of None \<Rightarrow> 0 | Some d \<Rightarrow> length d)" using ok(1) by (simp add: data_ok_def)
  have b: "byte_at n' i = (if i < rn_cap n then byte_at n i else fresh i)" if "i < len" for i
    unfolding c by (rule byte_at_krealloc) (use n' that in simp_all)
  show "data_ok n'" using n' ok(2) by (auto simp: data_ok_def byte_at_def krealloc_buf_def Let_def)
  show "contents n' = (if sparse_cut n len then map (\<lambda>i. if i < rn_cap n then contents n ! i else fresh i) [0..<len]
       else truncate_spec (contents n) len)"
    by (rule contents_eqI) (use n' l b in \<open>auto simp: sparse_cut_def nth_truncate_spec\<close>)
qed

lemma ramfs_ftruncate_refines:
  assumes f: "rfile st f = Some x" "rnode st (f_node x) = Some n" and d: "\<not> rn_is_dir n" "data_ok n" "exact n" "rn_borrowed n \<or> m_is_heap m"
    and w: "ramfs_ftruncate e m f len st = (st', 0)"
  shows "\<exists>n'. rnode st' (f_node x) = Some n' \<and> data_ok n' \<and> contents n' =
      (if sparse_cut n (nat len) then map (\<lambda>i. if i < rn_cap n then contents n ! i else m_fresh m i) [0..<nat len]
       else truncate_spec (contents n) (nat len)) \<and> (\<forall>b. b \<noteq> f_node x \<longrightarrow> rnode st' b = rnode st b)"
proof -
  let ?new = "nat len"
  have g: "0 \<le> len" "may_change e (rn_uid n)" using w f d(1) by (auto simp: ramfs_ftruncate_def split: if_splits)
  have a: "rnode st (f_node x) \<noteq> None" using f by simp
  consider "?new = rn_size n" | "?new = 0" "?new \<noteq> rn_size n" | "0 < ?new" "?new < rn_size n" | "rn_size n < ?new" by linarith
  then show ?thesis
  proof cases
    case 1
    then have "st' = st" using w f d(1) g by (simp add: ramfs_ftruncate_def)
    moreover have "contents n = truncate_spec (contents n) ?new" using 1 by (simp add: truncate_spec_def)
    ultimately show ?thesis using f d(2) 1 by (simp add: sparse_cut_def)
  next
    case 2
    let ?n = "(ramfs_free_data_owned n)\<lparr>rn_size := 0\<rparr>"
    have "st' = commit e f (f_node x) ?n st" using w f d(1) g 2 by (simp add: ramfs_ftruncate_def)
    moreover have "data_ok ?n" using d(2) by (auto simp: ramfs_free_data_owned_def data_ok_def byte_at_def split: option.splits)
    moreover have "contents ?n = truncate_spec (contents n) ?new" using 2 by (simp add: contents_def truncate_spec_def)
    ultimately show ?thesis using commit_data [OF a, of ?n e f] 2 by (simp add: sparse_cut_def)
  next
    case 3
    obtain n1 r1 where E: "ramfs_ensure_heap_data_locked (m_is_heap m) (m_copy m) (m_behind m) n = (n1, r1)" by fastforce
    note H = ensure_heap_ok [OF d(2,1,3,4) E]
    let ?n = "n1\<lparr>rn_data := Some (krealloc_buf (m_fresh m) (rn_data n1) ?new), rn_size := ?new, rn_cap := ?new\<rparr>"
    have r: "r1 = 0" "st' = commit e f (f_node x) ?n st" using w f d(1) g 3 E
      by (auto simp: ramfs_ftruncate_def Let_def split: if_splits)
    have nb: "\<not> rn_borrowed n1" "?new < rn_size n1" using H(3,6) r(1) 3 by auto
    have s: "sparse_cut n1 ?new = sparse_cut n ?new" "sparse_cut n ?new \<Longrightarrow> rn_cap n1 = rn_cap n"
      using H(4,5,6) 3 by (auto simp: sparse_cut_def)
    note K = krealloc_cut [OF H(1) nb refl, where fresh = "m_fresh m"]
    have c: "contents ?n = (if sparse_cut n ?new then map (\<lambda>i. if i < rn_cap n then contents n ! i else m_fresh m i) [0..<?new]
       else truncate_spec (contents n) ?new)"
      unfolding K(2) s(1) using s(2) H(2) by simp
    show ?thesis unfolding r(2) c [symmetric] by (rule commit_data [OF a K(1)])
  next
    case 4
    let ?f = "\<lambda>n. n\<lparr>rn_size := ?new, rn_mtime := re_now e, rn_ctime := re_now e\<rparr>"
    have "st' = set_file_size f ?new (upd_node (f_node x) ?f st)" using w f d(1) g 4
      by (auto simp: ramfs_ftruncate_def Let_def split: if_splits)
    moreover have "contents (?f n) = truncate_spec (contents n) ?new"
      by (rule contents_eqI) (use d(2) in \<open>auto simp: nth_truncate_spec data_ok_def byte_at_def split: option.splits\<close>)
    moreover have "data_ok (?f n)" using d(2) 4 by (simp add: data_ok_def byte_at_def)
    ultimately show ?thesis using f 4 by (simp add: set_file_size_def sparse_cut_def)
  qed
qed

section \<open>Property\<close>

text \<open>The bytes an open file stands for.\<close>

definition file_bytes :: "ramfs_state \<Rightarrow> ramfs_file \<Rightarrow> ramfs_node \<Rightarrow> cpath list \<Rightarrow> byte list" where
  "file_bytes st x n mounts =
     (if rn_is_dir n then dir_listing st (f_node x) n (absolute (f_path x)) mounts else contents n)"


text \<open>A file of three bytes at offset 0, with all the memory it may ask for.\<close>

definition demo_file_node :: ramfs_node where
  "demo_file_node = blank_node\<lparr>rn_data := Some [1, 2, 3], rn_size := 3, rn_cap := 3\<rparr>"

definition demo_file_state :: ramfs_state where
  "demo_file_state = ramfs_boot\<lparr>rnode := [0x100 \<mapsto> demo_file_node], rfile := [0x200 \<mapsto> blank_file\<lparr>f_node := 0x100\<rparr>]\<rparr>"

definition demo_mem :: ramfs_mem where
  "demo_mem = \<lparr>m_is_heap = True, m_copy = True, m_alloc = (\<lambda>_ _. True), m_fresh = (\<lambda>_. 9), m_behind = (\<lambda>_. 8)\<rparr>"

definition demo_env :: ramfs_env where
  "demo_env = \<lparr>re_user = None, re_cur = None, re_now = 0, re_look = (\<lambda>_. True), re_tmp = True, re_node = 0x300,
     re_name = True, re_data = True, re_file = 0x400, re_path = True, re_handle = True\<rparr>"


end
