(* ===== verification/Ramfs_Tree.thy ===== *)
theory Ramfs_Tree
  imports Ramfs_Data
begin

text \<open>
  The tree of nodes of \<open>fs/virt/ramfs.c\<close>: what relates the fields \<open>parent\<close>, \<open>children\<close>, \<open>link_target\<close>,
  \<open>nlink\<close> and \<open>open_count\<close> of the nodes and the open files, and how the operations keep it. The invariant
  is stated over a view of the nodes that holds only these fields, so that an operation on other fields
  keeps it at once.
\<close>

section \<open>The invariant\<close>

record tnode =
  t_name :: cpath
  t_dir :: bool
  t_parent :: addr
  t_children :: "addr list"
  t_link :: addr
  t_nlink :: nat
  t_open :: nat

type_synonym tview = "addr \<Rightarrow> tnode option"

definition tn :: "ramfs_node \<Rightarrow> tnode" where
  "tn n = \<lparr>t_name = rn_name n, t_dir = rn_is_dir n, t_parent = rn_parent n, t_children = rn_children n,
     t_link = rn_link n, t_nlink = rn_nlink n, t_open = rn_open n\<rparr>"

definition view :: "ramfs_state \<Rightarrow> tview" where
  "view st a = map_option tn (rnode st a)"

definition opened :: "ramfs_state \<Rightarrow> addr \<Rightarrow> addr option" where
  "opened st f = map_option f_node (rfile st f)"

text \<open>Children and parents agree, siblings have different names, and following parents ends. A directory
  other than the root has a parent unless it is in \<open>X\<close>.\<close>

definition kids_ok :: "tview \<Rightarrow> bool" where
  "kids_ok V \<longleftrightarrow> (\<forall>a n. V a = Some n \<longrightarrow> distinct (t_children n) \<and> (t_children n \<noteq> [] \<longrightarrow> t_dir n) \<and>
     (\<forall>c. c \<in> set (t_children n) \<longleftrightarrow> (\<exists>x. V c = Some x \<and> t_parent x = a)))"

definition parents_ok :: "tview \<Rightarrow> bool" where
  "parents_ok V \<longleftrightarrow> (\<forall>a n. V a = Some n \<longrightarrow> t_parent n \<noteq> 0 \<longrightarrow> V (t_parent n) \<noteq> None)"

definition names_ok :: "tview \<Rightarrow> bool" where
  "names_ok V \<longleftrightarrow> (\<forall>a b n m. V a = Some n \<longrightarrow> V b = Some m \<longrightarrow> t_parent n = t_parent m \<longrightarrow> t_parent n \<noteq> 0 \<longrightarrow>
     t_name n = t_name m \<longrightarrow> a = b)"

definition ranked :: "tview \<Rightarrow> bool" where
  "ranked V \<longleftrightarrow> (\<exists>rank :: addr \<Rightarrow> nat. \<forall>a n. V a = Some n \<longrightarrow> t_parent n \<noteq> 0 \<longrightarrow> rank (t_parent n) < rank a)"

definition roots_ok :: "addr \<Rightarrow> addr set \<Rightarrow> tview \<Rightarrow> bool" where
  "roots_ok root X V \<longleftrightarrow> (\<exists>r. V root = Some r \<and> t_dir r \<and> t_parent r = 0) \<and>
     (\<forall>a n. V a = Some n \<longrightarrow> t_dir n \<longrightarrow> t_parent n = 0 \<longrightarrow> a = root \<or> a \<in> X)"

definition shape :: "addr \<Rightarrow> addr set \<Rightarrow> tview \<Rightarrow> bool" where
  "shape root X V \<longleftrightarrow> V 0 = None \<and> finite (dom V) \<and> kids_ok V \<and> parents_ok V \<and> names_ok V \<and> ranked V \<and> roots_ok root X V"

text \<open>A hard link is a name for a file that is itself not a link. The link count of a file is the number of its
  names; a file without a name is open unless it is in \<open>Y\<close>.\<close>

definition links_to :: "tview \<Rightarrow> addr \<Rightarrow> addr set" where
  "links_to V a = {l. \<exists>x. V l = Some x \<and> t_link x = a}"

definition targets_ok :: "tview \<Rightarrow> bool" where
  "targets_ok V \<longleftrightarrow> (\<forall>a n. V a = Some n \<longrightarrow> t_link n \<noteq> 0 \<longrightarrow> \<not> t_dir n \<and> t_parent n \<noteq> 0 \<and>
     (\<exists>t. V (t_link n) = Some t \<and> \<not> t_dir t \<and> t_link t = 0))"

definition counts_ok :: "tview \<Rightarrow> bool" where
  "counts_ok V \<longleftrightarrow> (\<forall>a n. V a = Some n \<longrightarrow> \<not> t_dir n \<longrightarrow> t_link n = 0 \<longrightarrow>
     t_nlink n = (if t_parent n \<noteq> 0 then 1 else 0) + card (links_to V a))"

definition alive_ok :: "addr set \<Rightarrow> tview \<Rightarrow> bool" where
  "alive_ok Y V \<longleftrightarrow> (\<forall>a n. V a = Some n \<longrightarrow> a \<notin> Y \<longrightarrow> \<not> t_dir n \<longrightarrow> t_link n = 0 \<longrightarrow> t_nlink n = 0 \<longrightarrow> t_open n \<noteq> 0)"

text \<open>The open count of a node is the number of files open on it, and these files' nodes are there.\<close>

definition files_of :: "(addr \<Rightarrow> addr option) \<Rightarrow> addr \<Rightarrow> addr set" where
  "files_of F a = {f. F f = Some a}"

definition opens_ok :: "tview \<Rightarrow> (addr \<Rightarrow> addr option) \<Rightarrow> bool" where
  "opens_ok V F \<longleftrightarrow> finite (dom F) \<and> F 0 = None \<and> (\<forall>f a. F f = Some a \<longrightarrow> (\<exists>n. V a = Some n \<and> t_link n = 0)) \<and>
     (\<forall>a n. V a = Some n \<longrightarrow> t_open n = card (files_of F a))"

definition tree_ok :: "ramfs_state \<Rightarrow> bool" where
  "tree_ok st \<longleftrightarrow> shape (ramfs_root st) {} (view st) \<and> targets_ok (view st) \<and> counts_ok (view st) \<and> alive_ok {} (view st) \<and>
     opens_ok (view st) (opened st)"

lemmas shape_defs = shape_def kids_ok_def parents_ok_def names_ok_def roots_ok_def

lemma shapeD:
  assumes "shape root X V"
  shows "V 0 = None" "finite (dom V)" "kids_ok V" "parents_ok V" "names_ok V" "ranked V" "roots_ok root X V"
  using assms by (simp_all add: shape_def)

lemma kids_okD:
  assumes "kids_ok V" "V a = Some n"
  shows "distinct (t_children n)" "t_children n \<noteq> [] \<Longrightarrow> t_dir n"
    "c \<in> set (t_children n) \<longleftrightarrow> (\<exists>x. V c = Some x \<and> t_parent x = a)"
  using assms by (auto simp: kids_ok_def)

section \<open>Adding, taking out and putting in\<close>

text \<open>A new node without children below \<open>p\<close>.\<close>

definition put_child :: "addr \<Rightarrow> addr \<Rightarrow> tview \<Rightarrow> tview" where
  "put_child p c V = V(p := map_option (\<lambda>n. n\<lparr>t_children := c # t_children n\<rparr>) (V p))"

lemma put_child_at: "put_child p c V a = (if a = p then map_option (\<lambda>n. n\<lparr>t_children := c # t_children n\<rparr>) (V p) else V a)"
  by (simp add: put_child_def)

text \<open>Putting a node \<open>c\<close> that has no parent below the directory \<open>p\<close>, under a new name. \<open>p\<close> does not lie below \<open>c\<close>.\<close>

definition up :: "tview \<Rightarrow> (addr \<times> addr) set" where
  "up V = {(t_parent n, a) |a n. V a = Some n \<and> t_parent n \<noteq> 0}"

definition attach :: "addr \<Rightarrow> addr \<Rightarrow> cpath \<Rightarrow> tview \<Rightarrow> tview" where
  "attach p c name V = put_child p c (V(c := map_option (\<lambda>n. n\<lparr>t_name := name, t_parent := p\<rparr>) (V c)))"

lemma attach_at:
  assumes "c \<noteq> p"
  shows "attach p c name V a = (if a = p then map_option (\<lambda>n. n\<lparr>t_children := c # t_children n\<rparr>) (V p)
    else if a = c then map_option (\<lambda>n. n\<lparr>t_name := name, t_parent := p\<rparr>) (V c) else V a)"
  using assms by (auto simp: attach_def put_child_at)

lemma ranked_attach:
  assumes r: "ranked V" and c: "V c = Some x" "t_parent x = 0" and p: "(c, p) \<notin> (up V)\<^sup>*"
  shows "ranked (attach p c name V)"
proof -
  obtain rank :: "addr \<Rightarrow> nat" where rank: "\<And>a n. V a = Some n \<Longrightarrow> t_parent n \<noteq> 0 \<Longrightarrow> rank (t_parent n) < rank a"
    using r unfolding ranked_def by blast
  have cp: "c \<noteq> p" using p by auto
  define S where "S = {a. (c, a) \<in> (up V)\<^sup>*}"
  have S: "c \<in> S" "p \<notin> S" using p by (auto simp: S_def)
  have e: "a \<in> S \<longleftrightarrow> t_parent n \<in> S" if "V a = Some n" "t_parent n \<noteq> 0" for a n
  proof
    show "t_parent n \<in> S \<Longrightarrow> a \<in> S" using that unfolding S_def up_def by (auto intro: rtrancl_into_rtrancl)
    assume "a \<in> S"
    moreover have "a \<noteq> c" using that c by auto
    ultimately obtain b where "(c, b) \<in> (up V)\<^sup>*" "(b, a) \<in> up V" unfolding S_def by (auto elim: rtranclE)
    moreover have "b = t_parent n" using calculation(2) that by (auto simp: up_def)
    ultimately show "t_parent n \<in> S" by (simp add: S_def)
  qed
  have "(\<lambda>a. if a \<in> S then rank a + rank p + 1 else rank a) (t_parent n) <
      (\<lambda>a. if a \<in> S then rank a + rank p + 1 else rank a) a"
    if n: "attach p c name V a = Some n" "t_parent n \<noteq> 0" for a n
  proof (cases "a = c")
    case True
    then show ?thesis using n S cp by (auto simp: attach_at)
  next
    case False
    then obtain m where m: "V a = Some m" "t_parent m = t_parent n" using n cp by (auto simp: attach_at split: if_splits)
    then show ?thesis using rank [OF m(1)] e [OF m(1)] n(2) by auto
  qed
  then show ?thesis unfolding ranked_def by (intro exI [of _ "\<lambda>a. if a \<in> S then rank a + rank p + 1 else rank a"]) blast
qed

lemma shape_attach:
  assumes s: "shape root X V" and c: "V c = Some x" "t_parent x = 0" "c \<noteq> root" and p: "V p = Some q" "t_dir q"
    and np: "(c, p) \<notin> (up V)\<^sup>*" and nm: "\<forall>a n. V a = Some n \<longrightarrow> t_parent n = p \<longrightarrow> t_name n \<noteq> name"
  shows "shape root (X - {c}) (attach p c name V)"
proof -
  note D = shapeD [OF s]
  have cp: "c \<noteq> p" using np by auto
  have p0: "p \<noteq> 0" "c \<noteq> 0" using p c D(1) by (metis option.distinct(1))+
  note A = attach_at [OF cp]
  have "kids_ok (attach p c name V)"
    unfolding kids_ok_def
  proof (intro allI impI)
    fix a n assume n: "attach p c name V a = Some n"
    then obtain m where m: "V a = Some m" "t_dir n = t_dir m" "t_children n = (if a = p then c # t_children m else t_children m)"
      by (auto simp: A split: if_splits)
    note K = kids_okD [OF D(3) m(1)]
    have "c \<notin> set (t_children m)" using K(3) [of c] c p0 m(1) D(1) by (cases "a = 0") auto
    moreover have "d \<in> set (t_children m) \<longleftrightarrow> (\<exists>x. attach p c name V d = Some x \<and> t_parent x = a)" if "d \<noteq> c" for d
      using K(3) [of d] that by (auto simp: A)
    ultimately show "distinct (t_children n) \<and> (t_children n \<noteq> [] \<longrightarrow> t_dir n) \<and>
        (\<forall>d. d \<in> set (t_children n) \<longleftrightarrow> (\<exists>x. attach p c name V d = Some x \<and> t_parent x = a))"
      using m K(1,2) p c(1) by (auto simp: A cp)
  qed
  moreover have "parents_ok (attach p c name V)" using D(4) p by (auto simp: parents_ok_def A)
  moreover have "names_ok (attach p c name V)"
    unfolding names_ok_def
  proof (intro allI impI)
    fix a b n m
    assume n: "attach p c name V a = Some n" "attach p c name V b = Some m" "t_parent n = t_parent m" "t_parent n \<noteq> 0"
      "t_name n = t_name m"
    have o: "\<exists>y. V d = Some y \<and> t_parent y = t_parent z \<and> t_name y = t_name z" if "attach p c name V d = Some z" "d \<noteq> c" for d z
      using that by (auto simp: A split: if_splits)
    have "t_parent z = p \<and> t_name z = name" if "attach p c name V c = Some z" for z using that cp by (auto simp: A)
    then show "a = b" using n o [OF n(1)] o [OF n(2)] nm D(5) unfolding names_ok_def by metis
  qed
  moreover have "ranked (attach p c name V)" by (rule ranked_attach [OF D(6) c(1,2) np])
  moreover have "roots_ok root (X - {c}) (attach p c name V)"
    using D(7) c p0 p cp by (auto simp: roots_ok_def A split: if_splits)
  moreover have "finite (dom (attach p c name V))"
    by (rule finite_subset [OF _ D(2)]) (auto simp: A split: if_splits)
  ultimately show ?thesis using D(1) p0 by (simp add: shape_def A)
qed

text \<open>Taking a node out of its parent.\<close>

definition detach :: "addr \<Rightarrow> tview \<Rightarrow> tview" where
  "detach c V = (case V c of None \<Rightarrow> V
     | Some x \<Rightarrow> if t_parent x = 0 then V
         else (V(t_parent x := map_option (\<lambda>n. n\<lparr>t_children := remove1 c (t_children n)\<rparr>) (V (t_parent x))))
           (c \<mapsto> x\<lparr>t_parent := 0\<rparr>))"

lemma parent_not_self:
  assumes "ranked V" "V c = Some x"  "t_parent x \<noteq> 0"
  shows "t_parent x \<noteq> c"
  using assms unfolding ranked_def by force

lemma detach_at:
  assumes "V c = Some x" "t_parent x \<noteq> 0"
  shows "detach c V a = (if a = c then Some (x\<lparr>t_parent := 0\<rparr>)
    else if a = t_parent x then map_option (\<lambda>n. n\<lparr>t_children := remove1 c (t_children n)\<rparr>) (V a) else V a)"
  using assms by (simp add: detach_def)

lemma shape_detach:
  assumes s: "shape root X V" and c: "V c = Some x"
  shows "shape root (insert c X) (detach c V)"
proof (cases "t_parent x = 0")
  case True
  then have "detach c V = V" using c by (simp add: detach_def)
  then show ?thesis using s by (auto simp: shape_def roots_ok_def)
next
  case False
  note D = shapeD [OF s]
  note A = detach_at [where V = V, OF c False]
  have pc: "t_parent x \<noteq> c" using parent_not_self [OF D(6) c False] .
  have c0: "c \<noteq> 0" "c \<noteq> root" using c D(1,7) False by (auto simp: roots_ok_def intro!: gr0I)
  have "kids_ok (detach c V)"
    unfolding kids_ok_def
  proof (intro allI impI)
    fix a n assume n: "detach c V a = Some n"
    then obtain m where m: "V a = Some m" "t_dir n = t_dir m" "t_children n = (if a = t_parent x then remove1 c (t_children m) else t_children m)"
      using c pc by (auto simp: A split: if_splits)
    have a0: "a \<noteq> 0" using m(1) D(1) by (cases "a = 0") auto
    note K = kids_okD [OF D(3) m(1)]
    have "d \<in> set (t_children m) \<longleftrightarrow> (\<exists>x. detach c V d = Some x \<and> t_parent x = a)" if "d \<noteq> c" for d
      using K(3) [of d] that by (auto simp: A)
    moreover have "c \<in> set (t_children m) \<longleftrightarrow> a = t_parent x" using K(3) [of c] c by auto
    moreover have "remove1 c (t_children m) \<noteq> [] \<longrightarrow> t_dir m" using K(2) by (cases "t_children m") auto
    ultimately show "distinct (t_children n) \<and> (t_children n \<noteq> [] \<longrightarrow> t_dir n) \<and>
        (\<forall>d. d \<in> set (t_children n) \<longleftrightarrow> (\<exists>x. detach c V d = Some x \<and> t_parent x = a))"
      using m K(1,2) a0 by (auto simp: A)
  qed
  moreover have "parents_ok (detach c V)"
    using D(4) c pc unfolding parents_ok_def by (auto simp: A split: if_splits)
  moreover have "names_ok (detach c V)" using D(5) by (auto simp: names_ok_def A split: if_splits)
  moreover have "ranked (detach c V)" using D(6) unfolding ranked_def by (elim ex_forward) (auto simp: A split: if_splits)
  moreover have "roots_ok root (insert c X) (detach c V)"
    unfolding roots_ok_def
  proof (intro conjI allI impI)
    show "\<exists>r. detach c V root = Some r \<and> t_dir r \<and> t_parent r = 0" using D(7) c0 by (auto simp: roots_ok_def A)
    fix a n assume n: "detach c V a = Some n" "t_dir n" "t_parent n = 0"
    show "a = root \<or> a \<in> insert c X"
    proof (cases "a = c")
      case False
      then obtain m where "V a = Some m" "t_dir m" "t_parent m = 0" using n by (auto simp: A split: if_splits)
      then show ?thesis using D(7) unfolding roots_ok_def by blast
    qed simp
  qed
  moreover have "finite (dom (detach c V))" by (rule finite_subset [OF _ D(2)]) (use c in \<open>auto simp: A split: if_splits\<close>)
  ultimately show ?thesis using D(1) c0 False by (auto simp: shape_def A)
qed

text \<open>Adding a node without parent and children, and taking such a node away.\<close>

lemma shape_new:
  assumes s: "shape root X V" and c: "V c = None" "c \<noteq> 0" and x: "t_parent x = 0" "t_children x = []"
  shows "shape root (insert c X) (V(c \<mapsto> x))"
proof -
  note D = shapeD [OF s]
  have np: "\<forall>a n. V a = Some n \<longrightarrow> t_parent n \<noteq> c" using D(4) c unfolding parents_ok_def by metis
  have "kids_ok (V(c \<mapsto> x))"
    unfolding kids_ok_def
  proof (intro allI impI)
    fix a n assume "(V(c \<mapsto> x)) a = Some n"
    then consider "a = c" "n = x" | "a \<noteq> c" "V a = Some n" by (auto split: if_splits)
    then show "distinct (t_children n) \<and> (t_children n \<noteq> [] \<longrightarrow> t_dir n) \<and>
        (\<forall>d. d \<in> set (t_children n) \<longleftrightarrow> (\<exists>y. (V(c \<mapsto> x)) d = Some y \<and> t_parent y = a))"
    proof cases
      case 1
      then show ?thesis using np x c by auto
    next
      case 2
      have "a \<noteq> 0" using 2 D(1) by (cases "a = 0") auto
      then show ?thesis using kids_okD [OF D(3) 2(2)] x c by auto
    qed
  qed
  moreover have "parents_ok (V(c \<mapsto> x))" using D(4) x by (auto simp: parents_ok_def)
  moreover have "names_ok (V(c \<mapsto> x))" using D(5) x by (auto simp: names_ok_def)
  moreover have "ranked (V(c \<mapsto> x))" using D(6) x unfolding ranked_def by (elim ex_forward) auto
  moreover have "roots_ok root (insert c X) (V(c \<mapsto> x))" using D(7) c by (auto simp: roots_ok_def)
  ultimately show ?thesis using D(1,2) c by (simp add: shape_def)
qed

lemma shape_del:
  assumes s: "shape root X V" and c: "V c = Some x" "t_parent x = 0" "t_children x = []" "c \<noteq> root"
  shows "shape root (X - {c}) (V(c := None))"
proof -
  note D = shapeD [OF s]
  have np: "t_parent n \<noteq> c" if "V a = Some n" for a n using kids_okD(3) [OF D(3) c(1), of a] that c(3) by auto
  have c0: "c \<noteq> 0" using c(1) D(1) by (cases "c = 0") auto
  have "kids_ok (V(c := None))"
    unfolding kids_ok_def
  proof (intro allI impI)
    fix a n assume "(V(c := None)) a = Some n"
    then have a: "a \<noteq> c" "V a = Some n" by (auto split: if_splits)
    have "a \<noteq> 0" using a D(1) by (cases "a = 0") auto
    then show "distinct (t_children n) \<and> (t_children n \<noteq> [] \<longrightarrow> t_dir n) \<and>
        (\<forall>d. d \<in> set (t_children n) \<longleftrightarrow> (\<exists>y. (V(c := None)) d = Some y \<and> t_parent y = a))"
      using kids_okD [OF D(3) a(2)] c(1,2) by auto
  qed
  moreover have "parents_ok (V(c := None))" using D(4) np by (auto simp: parents_ok_def)
  moreover have "names_ok (V(c := None))" using D(5) unfolding names_ok_def by (auto split: if_splits)
  moreover have "ranked (V(c := None))" using D(6) unfolding ranked_def by (elim ex_forward) (auto split: if_splits)
  moreover have "roots_ok root (X - {c}) (V(c := None))" using D(7) c(4) by (auto simp: roots_ok_def split: if_splits)
  ultimately show ?thesis using D(1,2) by (simp add: shape_def)
qed

section \<open>Link counts and open files\<close>

text \<open>These depend only on a part of the fields.\<close>

definition lt :: "tnode \<Rightarrow> bool \<times> bool \<times> addr \<times> nat \<times> nat" where
  "lt n = (t_dir n, t_parent n \<noteq> 0, t_link n, t_nlink n, t_open n)"

definition counted :: "addr set \<Rightarrow> tview \<Rightarrow> (addr \<Rightarrow> addr option) \<Rightarrow> bool" where
  "counted Y V F \<longleftrightarrow> targets_ok V \<and> counts_ok V \<and> alive_ok Y V \<and> opens_ok V F"

lemma countedD:
  assumes "counted Y V F"
  shows "targets_ok V" "counts_ok V" "alive_ok Y V" "opens_ok V F"
  using assms by (simp_all add: counted_def)

lemma link_of:
  assumes "targets_ok V" "V a = Some n" "t_link n \<noteq> 0"
  shows "\<not> t_dir n" "t_parent n \<noteq> 0" "\<exists>t. V (t_link n) = Some t \<and> \<not> t_dir t \<and> t_link t = 0"
  using assms unfolding targets_ok_def by blast+

lemma no_links:
  assumes "targets_ok V" "V c = None" "c \<noteq> 0"
  shows "links_to V c = {}"
proof -
  have "t_link m \<noteq> c" if "V b = Some m" for b m using link_of(3) [OF assms(1) that] assms(2,3) by (cases "t_link m = 0") auto
  then show ?thesis by (auto simp: links_to_def)
qed

lemma no_links_to_link:
  assumes "targets_ok V" "V a = Some n" "t_link n \<noteq> 0 \<or> t_dir n" "V 0 = None"
  shows "links_to V a = {}"
proof -
  have "t_link m \<noteq> a" if "V b = Some m" for b m
    using link_of [OF assms(1) that] assms(2-4) by (cases "t_link m = 0") (auto intro!: gr0I)
  then show ?thesis by (auto simp: links_to_def)
qed

lemma count_at:
  assumes "counts_ok V" "V a = Some n" "\<not> t_dir n" "t_link n = 0"
  shows "t_nlink n = (if t_parent n \<noteq> 0 then 1 else 0) + card (links_to V a)"
  using assms by (simp add: counts_ok_def)

lemma targets_upd:
  assumes T: "targets_ok V" and l: "links_to V c \<noteq> {} \<longrightarrow> \<not> t_dir y \<and> t_link y = 0"
    and y: "t_link y \<noteq> 0 \<longrightarrow> \<not> t_dir y \<and> t_parent y \<noteq> 0 \<and> t_link y \<noteq> c \<and> (\<exists>t. V (t_link y) = Some t \<and> \<not> t_dir t \<and> t_link t = 0)"
  shows "targets_ok (V(c \<mapsto> y))"
  unfolding targets_ok_def
proof (intro allI impI)
  fix a n assume n: "(V(c \<mapsto> y)) a = Some n" "t_link n \<noteq> 0"
  show "\<not> t_dir n \<and> t_parent n \<noteq> 0 \<and> (\<exists>t. (V(c \<mapsto> y)) (t_link n) = Some t \<and> \<not> t_dir t \<and> t_link t = 0)"
  proof (cases "a = c")
    case True
    then show ?thesis using n y by auto
  next
    case False
    then have a: "V a = Some n" using n by simp
    note L = link_of [OF T a n(2)]
    have "t_link n = c \<Longrightarrow> links_to V c \<noteq> {}" using a by (auto simp: links_to_def)
    then show ?thesis using L l by (cases "t_link n = c") auto
  qed
qed

lemma targets_del:
  assumes T: "targets_ok V" and l: "links_to V c = {}"
  shows "targets_ok (V(c := None))"
  unfolding targets_ok_def
proof (intro allI impI)
  fix a n assume n: "(V(c := None)) a = Some n" "t_link n \<noteq> 0"
  then have a: "V a = Some n" by (auto split: if_splits)
  have "t_link n \<noteq> c" using a l by (auto simp: links_to_def)
  then show "\<not> t_dir n \<and> t_parent n \<noteq> 0 \<and> (\<exists>t. (V(c := None)) (t_link n) = Some t \<and> \<not> t_dir t \<and> t_link t = 0)"
    using link_of [OF T a n(2)] by simp
qed

lemma opens_upd:
  assumes O: "opens_ok V F" and y: "t_open y = card (files_of F c)" "files_of F c \<noteq> {} \<longrightarrow> t_link y = 0"
  shows "opens_ok (V(c \<mapsto> y)) F"
proof -
  have "\<exists>n. (V(c \<mapsto> y)) a = Some n \<and> t_link n = 0" if "F f = Some a" for f a
    using O y(2) that unfolding opens_ok_def files_of_def by (cases "a = c") auto
  then show ?thesis using O y(1) unfolding opens_ok_def by auto
qed

lemma opens_del:
  assumes O: "opens_ok V F" and "files_of F c = {}"
  shows "opens_ok (V(c := None)) F"
proof -
  have "a \<noteq> c" if "F f = Some a" for f a using that assms(2) by (auto simp: files_of_def)
  then show ?thesis using O unfolding opens_ok_def by auto
qed

lemma open_card: "opens_ok V F \<Longrightarrow> V a = Some n \<Longrightarrow> t_open n = card (files_of F a)"
  by (simp add: opens_ok_def)

lemma open_link: "opens_ok V F \<Longrightarrow> V a = Some n \<Longrightarrow> files_of F a \<noteq> {} \<Longrightarrow> t_link n = 0"
  unfolding opens_ok_def files_of_def by fastforce

lemma finite_files: "opens_ok V F \<Longrightarrow> finite (files_of F a)"
  using finite_subset [of "files_of F a" "dom F"] by (auto simp: opens_ok_def files_of_def)

lemma finite_links: "finite (dom V) \<Longrightarrow> finite (links_to V a)"
  by (rule finite_subset [of _ "dom V"]) (auto simp: links_to_def)

lemma counted_cong:
  assumes e: "\<And>a. map_option lt (V a) = map_option lt (V' a)" and c: "counted Y V F"
  shows "counted Y V' F"
proof -
  note D = countedD [OF c]
  have s: "\<exists>m. V a = Some m \<and> t_dir m = t_dir n \<and> (t_parent m \<noteq> 0) = (t_parent n \<noteq> 0) \<and> t_link m = t_link n \<and>
      t_nlink m = t_nlink n \<and> t_open m = t_open n" if "V' a = Some n" for a n
    using e [of a] that by (cases "V a") (auto simp: lt_def)
  have s': "\<exists>m. V' a = Some m \<and> t_dir m = t_dir n \<and> t_link m = t_link n" if "V a = Some n" for a n
    using e [of a] that by (cases "V' a") (auto simp: lt_def)
  have l: "links_to V' a = links_to V a" for a unfolding links_to_def using s s' by fastforce
  have "targets_ok V'"
    unfolding targets_ok_def
  proof (intro allI impI)
    fix a n assume n: "V' a = Some n" "t_link n \<noteq> 0"
    obtain m where m: "V a = Some m" "t_dir m = t_dir n" "(t_parent m \<noteq> 0) = (t_parent n \<noteq> 0)" "t_link m = t_link n"
      using s [OF n(1)] by blast
    have "t_link m \<noteq> 0" using n m by simp
    note L = link_of [OF D(1) m(1) this]
    then obtain t where t: "V (t_link n) = Some t" "\<not> t_dir t" "t_link t = 0" using m(4) by auto
    then show "\<not> t_dir n \<and> t_parent n \<noteq> 0 \<and> (\<exists>t. V' (t_link n) = Some t \<and> \<not> t_dir t \<and> t_link t = 0)"
      using s' [OF t(1)] L m by auto
  qed
  moreover have "counts_ok V'"
    unfolding counts_ok_def
  proof (intro allI impI)
    fix a n assume n: "V' a = Some n" "\<not> t_dir n" "t_link n = 0"
    then obtain m where m: "V a = Some m" "\<not> t_dir m" "t_link m = 0" "(t_parent m \<noteq> 0) = (t_parent n \<noteq> 0)" "t_nlink m = t_nlink n"
      using s [OF n(1)] by auto
    from count_at [OF D(2) m(1-3)] show "t_nlink n = (if t_parent n \<noteq> 0 then 1 else 0) + card (links_to V' a)" using m(4,5) l by simp
  qed
  moreover have "alive_ok Y V'"
    unfolding alive_ok_def
  proof (intro allI impI)
    fix a n assume n: "V' a = Some n" "a \<notin> Y" "\<not> t_dir n" "t_link n = 0" "t_nlink n = 0"
    then obtain m where "V a = Some m" "\<not> t_dir m" "t_link m = 0" "t_nlink m = 0" "t_open m = t_open n" using s [OF n(1)] by auto
    then show "t_open n \<noteq> 0" using D(3) n(2) unfolding alive_ok_def by metis
  qed
  moreover have "opens_ok V' F"
  proof -
    have "t_open n = card (files_of F a)" if "V' a = Some n" for a n using s [OF that] open_card [OF D(4)] by auto
    moreover have "\<exists>n. V' a = Some n \<and> t_link n = 0" if f: "F f = Some a" for f a
    proof -
      obtain n where "V a = Some n" "t_link n = 0" using D(4) f unfolding opens_ok_def by blast
      then show ?thesis using s' by fastforce
    qed
    ultimately show ?thesis using D(4) unfolding opens_ok_def by blast
  qed
  ultimately show ?thesis by (simp add: counted_def)
qed

lemma no_files:
  assumes "opens_ok V F" "V c = None"
  shows "files_of F c = {}"
  using assms by (fastforce simp: files_of_def opens_ok_def)

text \<open>A new directory or file.\<close>

lemma links_to_upd:
  assumes "a \<noteq> 0" "\<forall>x. V c = Some x \<longrightarrow> t_link x \<noteq> a" "t_link y \<noteq> a"
  shows "links_to (V(c \<mapsto> y)) a = links_to V a"
  using assms by (auto simp: links_to_def split: if_splits)

lemma counted_new:
  assumes c: "counted {} V F" and n: "V c = None" "c \<noteq> 0" "V 0 = None"
    and y: "t_link y = 0" "t_open y = 0" "\<not> t_dir y \<longrightarrow> t_nlink y = 1 \<and> t_parent y \<noteq> 0"
  shows "counted {} (V(c \<mapsto> y)) F"
proof -
  note D = countedD [OF c]
  have l: "links_to (V(c \<mapsto> y)) a = links_to V a" if "a \<noteq> 0" for a using links_to_upd [of a V c y] that n(1) y(1) by simp
  have "targets_ok (V(c \<mapsto> y))" by (rule targets_upd [OF D(1)]) (use y no_links [OF D(1) n(1,2)] in simp_all)
  moreover have "counts_ok (V(c \<mapsto> y))"
    unfolding counts_ok_def
  proof (intro allI impI)
    fix a m assume m: "(V(c \<mapsto> y)) a = Some m" "\<not> t_dir m" "t_link m = 0"
    then have a0: "a \<noteq> 0" using n by (cases "a = 0") auto
    show "t_nlink m = (if t_parent m \<noteq> 0 then 1 else 0) + card (links_to (V(c \<mapsto> y)) a)"
      using m count_at [OF D(2), of a m] l [OF a0] y no_links [OF D(1) n(1,2)] by (cases "a = c") auto
  qed
  moreover have "alive_ok {} (V(c \<mapsto> y))" using D(3) y by (auto simp: alive_ok_def)
  moreover have "opens_ok (V(c \<mapsto> y)) F" by (rule opens_upd [OF D(4)]) (use y no_files [OF D(4) n(1)] in simp_all)
  ultimately show ?thesis by (simp add: counted_def)
qed

text \<open>A new hard link, and taking one away.\<close>

lemma counted_link:
  assumes c: "counted {} V F" and n: "V c = None" "c \<noteq> 0" "V 0 = None" "finite (dom V)"
    and y: "t_link y = t" "\<not> t_dir y" "t_parent y \<noteq> 0" "t_open y = 0" and t: "V t = Some x" "\<not> t_dir x" "t_link x = 0"
  shows "counted {} (V(c \<mapsto> y, t \<mapsto> x\<lparr>t_nlink := t_nlink x + 1\<rparr>)) F" (is "counted {} ?V F")
proof -
  note D = countedD [OF c]
  have ct: "c \<noteq> t" "t \<noteq> 0" using n t by (auto intro!: gr0I)
  have l: "links_to ?V a = (if a = t then insert c (links_to V a) else links_to V a)" if "a \<noteq> 0" for a
    using n(1) y(1) t ct that by (auto simp: links_to_def split: if_splits)
  have f: "finite (links_to V t)" "c \<notin> links_to V t" using finite_links [OF n(4)] n(1) by (auto simp: links_to_def)
  have T: "targets_ok (V(c \<mapsto> y))" by (rule targets_upd [OF D(1)]) (use y t ct no_links [OF D(1) n(1,2)] in auto)
  have "targets_ok ?V" by (rule targets_upd [OF T]) (use t in simp_all)
  moreover have "counts_ok ?V"
    unfolding counts_ok_def
  proof (intro allI impI)
    fix a m assume m: "?V a = Some m" "\<not> t_dir m" "t_link m = 0"
    then have a0: "a \<noteq> 0" using n ct by (cases "a = 0") (auto split: if_splits)
    show "t_nlink m = (if t_parent m \<noteq> 0 then 1 else 0) + card (links_to ?V a)"
    proof (cases "a = t")
      case True
      then show ?thesis using m count_at [OF D(2) t] f unfolding l [OF a0] by auto
    next
      case False
      then have "V a = Some m" using m y ct by (auto split: if_splits)
      from count_at [OF D(2) this m(2,3)] show ?thesis using False unfolding l [OF a0] by simp
    qed
  qed
  moreover have "alive_ok {} ?V" using D(3) y t ct by (auto simp: alive_ok_def)
  moreover have "opens_ok ?V F"
    using open_card [OF D(4) t(1)] y t no_files [OF D(4) n(1)] by (intro opens_upd D(4)) simp_all
  ultimately show ?thesis by (simp add: counted_def)
qed

lemma counted_unlink_link:
  assumes c: "counted {} V F" and y: "V c = Some y" "t_link y = t" "t \<noteq> 0" and n: "V 0 = None" "finite (dom V)"
    and x: "V t = Some x"
  shows "counted {t} (V(c := None, t \<mapsto> x\<lparr>t_nlink := t_nlink x - 1\<rparr>)) F" (is "counted _ ?V F")
    "t_nlink x > 0" "\<not> t_dir x" "t_link x = 0" "c \<noteq> t"
proof -
  note D = countedD [OF c]
  show tx: "\<not> t_dir x" "t_link x = 0" using link_of(3) [OF D(1) y(1)] y x by auto
  show ct: "c \<noteq> t" using tx y x by auto
  have l: "links_to ?V a = (if a = t then links_to V a - {c} else links_to V a)" if "a \<noteq> 0" for a
    using y x ct that by (auto simp: links_to_def split: if_splits)
  have f: "finite (links_to V t)" "c \<in> links_to V t" using finite_links [OF n(2)] y by (auto simp: links_to_def)
  then have cd: "card (links_to V t) > 0" "card (links_to V t - {c}) = card (links_to V t) - 1"
    by (auto simp: card_gt_0_iff)
  show nl: "t_nlink x > 0" using count_at [OF D(2) x tx] cd(1) by simp
  have nf: "files_of F c = {}" using open_link [OF D(4) y(1)] y by auto
  have "links_to V c = {}" using no_links_to_link [OF D(1) y(1)] y n(1) by simp
  then have T: "targets_ok (V(c := None))" by (rule targets_del [OF D(1)])
  have "targets_ok ?V" by (rule targets_upd [OF T]) (use tx in simp_all)
  moreover have "counts_ok ?V"
    unfolding counts_ok_def
  proof (intro allI impI)
    fix a m assume m: "?V a = Some m" "\<not> t_dir m" "t_link m = 0"
    then have a0: "a \<noteq> 0" using n y(3) by (cases "a = 0") (auto split: if_splits)
    show "t_nlink m = (if t_parent m \<noteq> 0 then 1 else 0) + card (links_to ?V a)"
    proof (cases "a = t")
      case True
      then show ?thesis using m count_at [OF D(2) x tx] cd unfolding l [OF a0] by auto
    next
      case False
      then have "V a = Some m" using m by (auto split: if_splits)
      from count_at [OF D(2) this m(2,3)] show ?thesis using False unfolding l [OF a0] by simp
    qed
  qed
  moreover have "alive_ok {t} ?V" using D(3) x by (auto simp: alive_ok_def)
  moreover have "opens_ok ?V F"
    using open_card [OF D(4) x] tx by (intro opens_upd opens_del D(4) nf) simp_all
  ultimately show "counted {t} ?V F" by (simp add: counted_def)
qed

text \<open>Taking a file's own name away.\<close>

lemma counted_unname:
  assumes c: "counted {} V F" and x: "V a = Some x" "\<not> t_dir x" "t_link x = 0" "t_parent x \<noteq> 0"
  shows "counted {a} (V(a \<mapsto> x\<lparr>t_parent := 0, t_nlink := t_nlink x - 1\<rparr>)) F" (is "counted _ ?V F") "t_nlink x > 0"
proof -
  note D = countedD [OF c]
  have l: "links_to ?V b = links_to V b" for b using x by (auto simp: links_to_def split: if_splits)
  show nl: "t_nlink x > 0" using count_at [OF D(2) x(1-3)] x(4) by simp
  have "targets_ok ?V" by (rule targets_upd [OF D(1)]) (use x in simp_all)
  moreover have "counts_ok ?V" using count_at [OF D(2) x(1-3)] count_at [OF D(2)] x unfolding counts_ok_def l by simp
  moreover have "alive_ok {a} ?V" using D(3) by (auto simp: alive_ok_def)
  moreover have "opens_ok ?V F" by (rule opens_upd [OF D(4)]) (use x open_card [OF D(4) x(1)] in simp_all)
  ultimately show "counted {a} ?V F" by (simp add: counted_def)
qed

text \<open>A file with no names and not open is freed; otherwise it stays.\<close>

lemma counted_free:
  assumes c: "counted {a} V F" and x: "V a = Some x" "\<not> t_dir x" "t_link x = 0" and n: "V 0 = None" "finite (dom V)"
  shows "t_nlink x = 0 \<Longrightarrow> t_open x = 0 \<Longrightarrow> counted {} (V(a := None)) F \<and> t_parent x = 0"
    "t_nlink x \<noteq> 0 \<or> t_open x \<noteq> 0 \<Longrightarrow> counted {} V F"
proof -
  note D = countedD [OF c]
  show "counted {} V F" if "t_nlink x \<noteq> 0 \<or> t_open x \<noteq> 0"
  proof -
    have "alive_ok {} V" using D(3) that x(1) unfolding alive_ok_def by (metis empty_iff insert_iff option.inject)
    then show ?thesis using c by (simp add: counted_def)
  qed
  assume z: "t_nlink x = 0" "t_open x = 0"
  have "finite (links_to V a)" by (rule finite_links [OF n(2)])
  then have l: "links_to V a = {}" "t_parent x = 0" using count_at [OF D(2) x] z(1) by (auto split: if_splits)
  have a0: "a \<noteq> 0" using x n by (cases "a = 0") auto
  have fF: "finite (files_of F a)" by (rule finite_files [OF D(4)])
  then have nf: "files_of F a = {}" using open_card [OF D(4) x(1)] z(2) by simp
  have lu: "links_to (V(a := None)) b = links_to V b" if "b \<noteq> 0" for b using x that by (auto simp: links_to_def)
  have "targets_ok (V(a := None))" by (rule targets_del [OF D(1) l(1)])
  moreover have "counts_ok (V(a := None))" using D(2) lu n(1) unfolding counts_ok_def
    by (metis fun_upd_apply option.distinct(1))
  moreover have "alive_ok {} (V(a := None))" using D(3) by (auto simp: alive_ok_def)
  moreover have "opens_ok (V(a := None)) F" by (rule opens_del [OF D(4) nf])
  ultimately show "counted {} (V(a := None)) F \<and> t_parent x = 0" using l(2) by (simp add: counted_def)
qed

text \<open>Freeing a directory that is not open.\<close>

lemma counted_free_dir:
  assumes c: "counted {} V F" and x: "V a = Some x" "t_dir x" "t_open x = 0" and n: "V 0 = None"
  shows "counted {} (V(a := None)) F"
proof -
  note D = countedD [OF c]
  have l0: "t_link x = 0" using link_of(1) [OF D(1) x(1)] x(2) by auto
  have fF: "finite (files_of F a)" by (rule finite_files [OF D(4)])
  then have nf: "files_of F a = {}" using open_card [OF D(4) x(1)] x(3) by simp
  have lu: "links_to (V(a := None)) b = links_to V b" if "b \<noteq> 0" for b using x l0 that by (auto simp: links_to_def)
  have "targets_ok (V(a := None))" using no_links_to_link [OF D(1) x(1)] x(2) n by (intro targets_del [OF D(1)]) simp
  moreover have "counts_ok (V(a := None))" using D(2) lu n(1) unfolding counts_ok_def
    by (metis fun_upd_apply option.distinct(1))
  moreover have "alive_ok {} (V(a := None))" using D(3) by (auto simp: alive_ok_def)
  moreover have "opens_ok (V(a := None)) F" by (rule opens_del [OF D(4) nf])
  ultimately show ?thesis by (simp add: counted_def)
qed

text \<open>Opening and closing.\<close>

lemma counted_open:
  assumes c: "counted {} V F" and x: "V a = Some x" "t_link x = 0" and f: "F f = None" "f \<noteq> 0" and v0: "V 0 = None"
  shows "counted {} (V(a \<mapsto> x\<lparr>t_open := t_open x + 1\<rparr>)) (F(f \<mapsto> a))" (is "counted _ ?V ?F")
proof -
  note D = countedD [OF c]
  have l: "links_to ?V b = links_to V b" for b using x by (auto simp: links_to_def split: if_splits)
  have fF: "finite (files_of F a)" by (rule finite_files [OF D(4)])
  have fo: "files_of ?F b = (if b = a then insert f (files_of F b) else files_of F b)" "f \<notin> files_of F b" for b
    using f by (auto simp: files_of_def)
  have "links_to V a \<noteq> {} \<longrightarrow> \<not> t_dir x" using no_links_to_link [OF D(1) x(1)] v0 by blast
  then have "targets_ok ?V" using x(2) by (intro targets_upd [OF D(1)]) simp_all
  moreover have "counts_ok ?V" using count_at [OF D(2) x(1)] count_at [OF D(2)] unfolding counts_ok_def l by simp
  moreover have "alive_ok {} ?V" using D(3) x by (auto simp: alive_ok_def)
  moreover have "opens_ok ?V ?F"
    using D(4) x f fF fo unfolding opens_ok_def by (simp split: if_splits)
  ultimately show ?thesis by (simp add: counted_def)
qed

lemma counted_close:
  assumes c: "counted {} V F" and f: "F f = Some a" and x: "V a = Some x" and v0: "V 0 = None"
  shows "counted {a} (V(a \<mapsto> x\<lparr>t_open := t_open x - 1\<rparr>)) (F(f := None))" (is "counted _ ?V ?F") "t_open x > 0" "t_link x = 0"
proof -
  note D = countedD [OF c]
  show lx: "t_link x = 0" using open_link [OF D(4) x] f by (auto simp: files_of_def)
  have l: "links_to ?V b = links_to V b" for b using x by (auto simp: links_to_def split: if_splits)
  have fF: "finite (files_of F a)" by (rule finite_files [OF D(4)])
  have fa: "f \<in> files_of F a" using f by (simp add: files_of_def)
  have cd: "card (files_of F a) > 0" "card (files_of F a - {f}) = card (files_of F a) - 1"
    using fF fa by (auto simp: card_gt_0_iff)
  show "t_open x > 0" using open_card [OF D(4) x] cd(1) by simp
  have fo: "files_of ?F b = (if b = a then files_of F b - {f} else files_of F b)" for b
    using f by (auto simp: files_of_def)
  have "links_to V a \<noteq> {} \<longrightarrow> \<not> t_dir x" using no_links_to_link [OF D(1) x] v0 by blast
  then have "targets_ok ?V" using lx by (intro targets_upd [OF D(1)]) simp_all
  moreover have "counts_ok ?V" using count_at [OF D(2) x(1)] count_at [OF D(2)] unfolding counts_ok_def l by simp
  moreover have "alive_ok {a} ?V" using D(3) x by (auto simp: alive_ok_def)
  moreover have "opens_ok ?V ?F"
    using D(4) x cd fo lx unfolding opens_ok_def by auto
  ultimately show "counted {a} ?V ?F" by (simp add: counted_def)
qed

end
