(* ===== verification/Ramfs_Path.thy ===== *)
theory Ramfs_Path
  imports Ramfs_Tree
begin

text \<open>
  Path lookup in \<open>fs/virt/ramfs.c\<close>: a path is found by finding its parent and then the last name in it,
  also through symbolic links, and a name that is added to a directory does not change what other paths lead to.
\<close>

section \<open>Components\<close>

definition plain_name :: "cpath \<Rightarrow> bool" where
  "plain_name name \<longleftrightarrow> name \<noteq> [] \<and> SLASH \<notin> set name \<and> length name \<le> 255 \<and> name \<noteq> [46] \<and> name \<noteq> [46, 46]"

lemma plain_first:
  assumes "plain_name name"
  shows "dropWhile (\<lambda>c. c = SLASH) name = name" "takeWhile (\<lambda>c. c \<noteq> SLASH) name = name" "dropWhile (\<lambda>c. c \<noteq> SLASH) name = []"
proof -
  show "takeWhile (\<lambda>c. c \<noteq> SLASH) name = name" "dropWhile (\<lambda>c. c \<noteq> SLASH) name = []"
    using assms by (auto simp: plain_name_def takeWhile_eq_all_conv)
  show "dropWhile (\<lambda>c. c = SLASH) name = name" using assms by (cases name) (auto simp: plain_name_def)
qed

lemma slashes:
  assumes "ramfs_next_component p k = None"
  shows "dropWhile (\<lambda>c. c = SLASH) p = []" "\<forall>c \<in> set p. c = SLASH"
  using assms by (auto simp: ramfs_next_component_def Let_def split: if_splits)

lemma drop_slashes:
  "dropWhile (\<lambda>c. c = SLASH) (p @ SLASH # r) =
    (if dropWhile (\<lambda>c. c = SLASH) p = [] then dropWhile (\<lambda>c. c = SLASH) r else dropWhile (\<lambda>c. c = SLASH) p @ SLASH # r)"
  by (induction p) auto

lemma next_component_end:
  assumes "ramfs_next_component p k = None" "plain_name name"
  shows "ramfs_next_component (p @ SLASH # name) k = Some (take (k - 1) name, [])"
  unfolding ramfs_next_component_def Let_def drop_slashes slashes(1) [OF assms(1)] plain_first [OF assms(2)]
  using assms(2) by (simp add: plain_first [OF assms(2)] plain_name_def)

lemma next_component_more:
  assumes "ramfs_next_component p k = Some (c, q)"
  shows "ramfs_next_component (p @ SLASH # r) k = Some (c, q @ SLASH # r)"
proof -
  let ?s = "dropWhile (\<lambda>c. c = SLASH) p"
  have s: "?s \<noteq> []" "c = take (k - 1) (takeWhile (\<lambda>c. c \<noteq> SLASH) ?s)" "q = dropWhile (\<lambda>c. c \<noteq> SLASH) ?s"
    using assms by (auto simp: ramfs_next_component_def Let_def split: if_splits)
  have "takeWhile (\<lambda>c. c \<noteq> SLASH) (xs @ SLASH # r) = takeWhile (\<lambda>c. c \<noteq> SLASH) xs"
    "dropWhile (\<lambda>c. c \<noteq> SLASH) (xs @ SLASH # r) = dropWhile (\<lambda>c. c \<noteq> SLASH) xs @ SLASH # r" for xs
    by (induction xs) auto
  then show ?thesis using s by (simp add: ramfs_next_component_def Let_def drop_slashes del: dropWhile_eq_Nil_conv)
qed

lemma follow_link_more:
  assumes "plain_name name"
  shows "follow_link st c (p @ SLASH # name) = map_option (\<lambda>q. q @ SLASH # name) (follow_link st c p)"
proof -
  have t: "(if dropWhile (\<lambda>c. c = SLASH) (p @ SLASH # name) \<noteq> [] then [SLASH] @ dropWhile (\<lambda>c. c = SLASH) (p @ SLASH # name) else []) =
    (if dropWhile (\<lambda>c. c = SLASH) p \<noteq> [] then [SLASH] @ dropWhile (\<lambda>c. c = SLASH) p else []) @ SLASH # name"
    using plain_first(1) [OF assms] assms by (auto simp: drop_slashes plain_name_def)
  show ?thesis unfolding follow_link_def Let_def t by (cases "link_text c") (simp_all split: option.split)
qed

section \<open>The parent, then the name\<close>

text \<open>Walking a path with one more name at its end.\<close>

definition extended :: "ramfs_state \<Rightarrow> cpath \<Rightarrow> walk_result \<Rightarrow> walk_result" where
  "extended st name w = (case w of
     At d \<Rightarrow> if \<not> is_dir_at st d then (if rnode st d = None then At 0 else Missing)
             else if rnode st (ramfs_find_child st d name) = None then Missing else At (ramfs_find_child st d name)
   | Missing \<Rightarrow> Missing
   | Again q \<Rightarrow> Again (q @ SLASH # name))"

lemma walk_end: "ramfs_walk nf st cur [] = At cur"
  by (subst ramfs_walk.simps) (simp add: ramfs_next_component_def)

lemma walk_extended:
  assumes nm: "plain_name name" and z: "rnode st 0 = None"
  shows "ramfs_walk True st cur (p @ SLASH # name) = extended st name (ramfs_walk False st cur p)"
  using z
proof (induction "False" st cur p rule: ramfs_walk.induct)
  case (1 st cur p)
  show ?case
  proof (cases "ramfs_next_component p 256")
    case None
    have n: "ramfs_next_component (p @ SLASH # name) 256 = Some (name, [])"
      using next_component_end [OF None nm] nm by (simp add: plain_name_def)
    have w: "ramfs_walk False st cur p = At cur" using None by (subst ramfs_walk.simps) simp
    have e: "ramfs_next_component [] 2 = None" by (simp add: ramfs_next_component_def)
    show ?thesis using nm unfolding w
      by (subst ramfs_walk.simps) (auto simp: n extended_def is_dir_at_def walk_end e plain_name_def Let_def split: option.split)
  next
    case (Some cq)
    obtain c q where cq: "ramfs_next_component p 256 = Some (c, q)" using Some by (cases cq) auto
    note n = next_component_more [OF cq, of name]
    have e: "ramfs_next_component (q @ SLASH # name) 2 \<noteq> None"
      using next_component_end [of q 2 name] next_component_more [of q 2] nm by (cases "ramfs_next_component q 2") auto
    note IH = 1(1-3) [OF cq refl]
    show ?thesis
    proof (cases "rnode st cur")
      case None
      then show ?thesis using n cq by (subst (1 2) ramfs_walk.simps) (simp add: extended_def is_dir_at_def 1(4))
    next
      case (Some nd)
      show ?thesis using IH [OF Some] 1(4) n cq e
        by (subst (1 2) ramfs_walk.simps) (auto simp: Some extended_def follow_link_more [OF nm] Let_def split: option.split)
    qed
  qed
qed

lemma find_SomeD: "List.find P xs = Some x \<Longrightarrow> x \<in> set xs \<and> P x"
  by (induction xs) (auto split: if_splits)

lemma find_same: "(\<And>x. x \<in> set xs \<Longrightarrow> P x = Q x) \<Longrightarrow> List.find P xs = List.find Q xs"
  by (induction xs) auto

lemma find_child_named:
  assumes "ramfs_find_child st d name \<noteq> 0"
  obtains p x where "rnode st d = Some p" "ramfs_find_child st d name \<in> set (rn_children p)"
    "rnode st (ramfs_find_child st d name) = Some x" "rn_name x = name"
proof -
  obtain p c where p: "rnode st d = Some p" and c: "List.find (named st name) (take GUARD (rn_children p)) = Some c"
    "ramfs_find_child st d name = c"
    using assms by (auto simp: ramfs_find_child_def split: option.splits)
  then have "c \<in> set (take GUARD (rn_children p))" "named st name c" using find_SomeD by fast+
  then show thesis using that p c(2) by (auto simp: named_def dest: in_set_takeD split: option.splits)
qed

text \<open>Hard links are not directories and do not lead to directories.\<close>

definition links_flat :: "ramfs_state \<Rightarrow> bool" where
  "links_flat st \<longleftrightarrow> rnode st 0 = None \<and> (\<forall>a n. rnode st a = Some n \<longrightarrow> rn_link n \<noteq> 0 \<longrightarrow> \<not> rn_is_dir n \<and> \<not> is_dir_at st (rn_link n))"

lemma resolve_dir:
  assumes "links_flat st" "is_dir_at st (ramfs_resolve_link st c)"
  shows "ramfs_resolve_link st c = c"
proof (cases "rnode st c")
  case (Some n)
  then have "rn_link n \<noteq> 0 \<longrightarrow> \<not> is_dir_at st (rn_link n)" using assms(1) by (auto simp: links_flat_def)
  then show ?thesis using assms(2) Some by (auto simp: ramfs_resolve_link_def split: if_splits)
qed (simp add: ramfs_resolve_link_def)

lemma dir_not_link:
  assumes "links_flat st" "is_dir_at st c"
  shows "ramfs_resolve_link st c = c"
proof (cases "rnode st c")
  case (Some n)
  then have "rn_link n \<noteq> 0 \<longrightarrow> \<not> rn_is_dir n" using assms(1) by (auto simp: links_flat_def)
  then show ?thesis using assms(2) Some by (auto simp: ramfs_resolve_link_def is_dir_at_def)
qed (simp add: ramfs_resolve_link_def)

lemma rounds_extended:
  assumes nm: "plain_name name" and L: "links_flat st"
  shows "is_dir_at st (lookup_rounds False mem st k p) \<Longrightarrow>
    lookup_rounds True mem st k (p @ SLASH # name) = ramfs_find_child st (lookup_rounds False mem st k p) name"
proof (induction k arbitrary: p)
  case 0
  then show ?case using L by (simp add: is_dir_at_def links_flat_def)
next
  case (Suc k)
  have z: "rnode st 0 = None" using L by (simp add: links_flat_def)
  note W = walk_extended [OF nm z, of "ramfs_root st" p]
  show ?case
  proof (cases "ramfs_walk False st (ramfs_root st) p")
    case (At c)
    then have c: "ramfs_resolve_link st c = c" "is_dir_at st c" using resolve_dir [OF L, of c] Suc.prems by simp_all
    have "ramfs_find_child st c name \<noteq> 0 \<longrightarrow> rnode st (ramfs_find_child st c name) \<noteq> None"
      using find_child_named by (metis option.distinct(1))
    then show ?thesis using At c W by (auto simp: extended_def)
  next
    case Missing
    then show ?thesis using Suc.prems z by (simp add: is_dir_at_def)
  next
    case (Again q)
    then show ?thesis using Suc W z by (cases "mem k") (auto simp: extended_def is_dir_at_def)
  qed
qed

lemma split_path_eq:
  assumes a: "absolute path" and s: "split_path path = (parent, name)"
  obtains pre where "path = pre @ SLASH # name" "parent = (if pre = [] then [SLASH] else pre)" "SLASH \<notin> set name"
    "pre \<noteq> [] \<longrightarrow> hd pre = SLASH"
proof -
  define pre where "pre = take (length path - length name - 1) path"
  have n: "name = rev (takeWhile (\<lambda>c. c \<noteq> SLASH) (rev path))" and p: "parent = (if pre = [] then [SLASH] else pre)"
    using s by (auto simp: split_path_def Let_def pre_def)
  have "SLASH \<in> set path" using a by (cases path) (auto simp: absolute_def)
  then have "dropWhile (\<lambda>c. c \<noteq> SLASH) (rev path) \<noteq> []" by auto
  then obtain r where r: "dropWhile (\<lambda>c. c \<noteq> SLASH) (rev path) = SLASH # r"
    using hd_dropWhile [of "\<lambda>c. c \<noteq> SLASH" "rev path"] by (cases "dropWhile (\<lambda>c. c \<noteq> SLASH) (rev path)") auto
  have "rev path = takeWhile (\<lambda>c. c \<noteq> SLASH) (rev path) @ SLASH # r" using takeWhile_dropWhile_id r by metis
  then have e: "path = rev r @ SLASH # name" using n by (metis append.assoc append_Cons append_Nil rev.simps(2) rev_append rev_rev_ident)
  then have "length path - length name - 1 = length (rev r)" by simp
  then have pre: "pre = rev r" using e unfolding pre_def by simp
  have "SLASH \<notin> set name" using n by (auto dest: set_takeWhileD)
  moreover have "hd pre = SLASH" if "pre \<noteq> []" using that a e pre by (simp add: absolute_def)
  ultimately show thesis using that e pre p by blast
qed

text \<open>The last name of a path is looked up in the directory that the rest of the path leads to.\<close>

lemma lookup_child:
  assumes L: "links_flat st" and a: "absolute path" and s: "split_path path = (parent, name)" and nm: "plain_name name"
    and d: "is_dir_at st (ramfs_lookup mem st parent)"
  shows "ramfs_lookup_nofollow mem st path = (if mem 16 then ramfs_find_child st (ramfs_lookup mem st parent) name else 0)"
proof -
  obtain pre where p: "path = pre @ SLASH # name" "parent = (if pre = [] then [SLASH] else pre)" "SLASH \<notin> set name"
    "pre \<noteq> [] \<longrightarrow> hd pre = SLASH"
    by (rule split_path_eq [OF a s])
  have z: "rnode st 0 = None" using L by (simp add: links_flat_def)
  have np: "path \<noteq> [SLASH]" "\<not> (path = [] \<or> hd path \<noteq> SLASH)" using p(1) nm a by (auto simp: plain_name_def absolute_def append_eq_Cons_conv)
  have r: "ramfs_lookup mem st parent = lookup_rounds False mem st 16 pre" if "mem 16"
  proof (cases "pre = [] \<or> pre = [SLASH]")
    case True
    then have "ramfs_lookup mem st parent = ramfs_root st" using p(2) by (auto simp: ramfs_lookup_def ramfs_lookup_gen_def)
    moreover have "ramfs_walk False st (ramfs_root st) pre = At (ramfs_root st)"
      using True by (subst ramfs_walk.simps) (auto simp: ramfs_next_component_def)
    moreover have "ramfs_resolve_link st (ramfs_root st) = ramfs_root st"
      using dir_not_link [OF L d [unfolded calculation(1)]] .
    ultimately show ?thesis by (simp add: eval_nat_numeral)
  next
    case False
    then show ?thesis using p that by (auto simp: ramfs_lookup_def ramfs_lookup_gen_def)
  qed
  show ?thesis
  proof (cases "mem 16")
    case True
    then have "ramfs_lookup_nofollow mem st path = lookup_rounds True mem st 16 (pre @ SLASH # name)"
      using np p(1) unfolding ramfs_lookup_nofollow_def ramfs_lookup_gen_def by simp
    then show ?thesis using rounds_extended [OF nm L, of mem 16 pre] d r [OF True] True by simp
  next
    case False
    then show ?thesis using np by (simp add: ramfs_lookup_nofollow_def ramfs_lookup_gen_def)
  qed
qed

section \<open>Adding a name keeps the other paths\<close>

text \<open>\<open>st'\<close> is \<open>st\<close> with a new node \<open>n\<close> in front of the children of the directory \<open>d\<close>.\<close>

definition adds :: "ramfs_state \<Rightarrow> ramfs_state \<Rightarrow> addr \<Rightarrow> addr \<Rightarrow> cpath \<Rightarrow> bool" where
  "adds st st' d n name \<longleftrightarrow> rnode st n = None \<and> n \<noteq> 0 \<and> n \<noteq> d \<and> ramfs_root st' = ramfs_root st \<and>
     (\<forall>a. a \<noteq> n \<longrightarrow> a \<noteq> d \<longrightarrow> rnode st' a = rnode st a) \<and>
     (\<exists>q. rnode st d = Some q \<and> rnode st' d = Some (q\<lparr>rn_children := n # rn_children q\<rparr>) \<and> length (rn_children q) < GUARD) \<and>
     (\<exists>x. rnode st' n = Some x \<and> rn_name x = name) \<and> ramfs_find_child st d name = 0 \<and>
     (\<forall>a q. rnode st a = Some q \<longrightarrow> n \<notin> set (rn_children q) \<and> rn_parent q \<noteq> n)"

lemma adds_at:
  assumes "adds st st' d n name" "a \<noteq> n"
  shows "rnode st' a = map_option (\<lambda>q. if a = d then q\<lparr>rn_children := n # rn_children q\<rparr> else q) (rnode st a)"
  using assms by (cases "a = d") (auto simp: adds_def option.map_ident)

lemma adds_find_child:
  assumes A: "adds st st' d n name" and a: "a \<noteq> n" and f: "ramfs_find_child st a c \<noteq> 0"
  shows "ramfs_find_child st' a c = ramfs_find_child st a c"
proof -
  obtain p where p: "rnode st a = Some p" using f by (auto simp: ramfs_find_child_def split: option.splits)
  have nd: "named st' c b = named st c b" if "b \<noteq> n" for b
    using adds_at [OF A that] by (cases "rnode st b") (auto simp: named_def)
  have nc: "n \<notin> set (rn_children p)" using A p by (auto simp: adds_def)
  have F: "List.find (named st' c) xs = List.find (named st c) xs" if "set xs \<subseteq> set (rn_children p)" for xs
    using that nc by (intro find_same nd) auto
  have e: "take GUARD (rn_children p) = take (GUARD - 1) (rn_children p)" if "a = d"
    using A p that by (auto simp: adds_def)
  have nn: "\<not> named st' c n" if "a = d"
    using A f that by (auto simp: adds_def named_def)
  have t: "take GUARD (n # xs) = n # take (GUARD - 1) xs" for xs by (simp add: GUARD_def take_Cons')
  show ?thesis using adds_at [OF A a] p F [OF set_take_subset] e nn
    by (cases "a = d") (simp_all add: ramfs_find_child_def t)
qed

lemma adds_find_new:
  assumes A: "adds st st' d n name"
  shows "ramfs_find_child st' d name = n"
proof -
  have "take GUARD (n # xs) = n # take (GUARD - 1) xs" for xs by (simp add: GUARD_def take_Cons')
  then show ?thesis using A by (auto simp: adds_def ramfs_find_child_def named_def)
qed

lemma adds_build_parts:
  assumes A: "adds st st' d n name" and c: "c \<noteq> n"
  shows "build_parts k st' c = build_parts k st c"
  using c
proof (induction k arbitrary: c)
  case (Suc k)
  have "ramfs_root st' = ramfs_root st" using A by (simp add: adds_def)
  moreover have "rn_parent q \<noteq> n" if "rnode st c = Some q" for q using A that by (auto simp: adds_def)
  ultimately show ?case using Suc adds_at [OF A Suc.prems] by (auto split: option.splits)
qed simp

lemma adds_follow_link:
  assumes A: "adds st st' d n name" and c: "rnode st a = Some c" and r: "ramfs_root st \<noteq> n"
    and c': "rn_data c' = rn_data c" "rn_parent c' = rn_parent c"
  shows "follow_link st' c' p = follow_link st c p"
proof -
  have "ramfs_root st' = ramfs_root st" using A by (simp add: adds_def)
  moreover have "rn_parent c \<noteq> n" using A c by (auto simp: adds_def)
  ultimately have "ramfs_build_path st' (if rn_parent c \<noteq> 0 then rn_parent c else ramfs_root st) 2048 =
      ramfs_build_path st (if rn_parent c \<noteq> 0 then rn_parent c else ramfs_root st) 2048" "ramfs_root st' = ramfs_root st"
    using adds_build_parts [OF A] r by (simp_all add: ramfs_build_path_def)
  then show ?thesis unfolding follow_link_def link_text_def Let_def c' by (simp only: )
qed

lemma adds_walk:
  assumes A: "adds st st' d n name" and r: "ramfs_root st \<noteq> n" and z: "rnode st 0 = None"
  shows "cur \<noteq> n \<Longrightarrow> ramfs_walk False st cur p \<noteq> Missing \<Longrightarrow>
    ramfs_walk False st' cur p = ramfs_walk False st cur p \<and> ramfs_walk False st cur p \<noteq> At n"
  using A r z
proof (induction "False" st cur p rule: ramfs_walk.induct)
  case (1 st cur p)
  note A = 1(6) and r = 1(7) and z = 1(8)
  have n0: "n \<noteq> 0" "ramfs_root st' = ramfs_root st" using A by (simp_all add: adds_def)
  note at = adds_at [OF A 1(4)]
  show ?case
  proof (cases "ramfs_next_component p 256")
    case None
    then show ?thesis using 1(4) by (subst (1 2 3) ramfs_walk.simps) simp
  next
    case (Some cq)
    obtain c q where cq: "ramfs_next_component p 256 = Some (c, q)" using Some by (cases cq) auto
    note IH = 1(1-3) [OF cq refl]
    show ?thesis
    proof (cases "rnode st cur")
      case None
      then show ?thesis using cq at n0 by (subst (1 2 3) ramfs_walk.simps) simp
    next
      case nd: (Some nd)
      obtain nd' where nd': "rnode st' cur = Some nd'" "rn_is_dir nd' = rn_is_dir nd" "rn_parent nd' = rn_parent nd"
        using at nd by auto
      have up: "(if rn_parent nd \<noteq> 0 then rn_parent nd else ramfs_root st) \<noteq> n" using A nd r by (auto simp: adds_def)
      have w: "ramfs_walk False s cur p = (if \<not> rn_is_dir m then Missing else if c = [46] then ramfs_walk False s cur q
          else if c = [46, 46] then ramfs_walk False s (if rn_parent m \<noteq> 0 then rn_parent m else ramfs_root s) q
          else case rnode s (ramfs_find_child s cur c) of None \<Rightarrow> Missing
            | Some x \<Rightarrow> if is_symlink x then (case follow_link s x q of None \<Rightarrow> Missing | Some y \<Rightarrow> Again y)
                else ramfs_walk False s (ramfs_find_child s cur c) q)" if "rnode s cur = Some m" for s m
        using that cq by (subst ramfs_walk.simps) (simp add: Let_def split: option.split)
      note W = w [OF nd] and W' = w [OF nd'(1), unfolded nd' n0(2)]
      have dir: "rn_is_dir nd" using 1(5) unfolding W by (auto split: if_splits)
      consider "c = [46]" | "c \<noteq> [46]" "c = [46, 46]" | "c \<noteq> [46]" "c \<noteq> [46, 46]" by blast
      then show ?thesis
      proof cases
        case 1
        then show ?thesis using IH(1) [OF nd] dir "1.prems" unfolding W W' by simp
      next
        case 2
        then show ?thesis using IH(2) [OF nd] dir "1.prems" up unfolding W W' by simp
      next
        case 3
        let ?k = "ramfs_find_child st cur c"
        obtain x where x: "rnode st ?k = Some x" using "1.prems"(2) dir 3 unfolding W by (auto split: option.splits)
        then have k: "?k \<noteq> 0" "?k \<noteq> n" using z A by (auto simp: adds_def intro!: gr0I)
        have f: "ramfs_find_child st' cur c = ?k" by (rule adds_find_child [OF A "1.prems"(1) k(1)])
        obtain x' where x': "rnode st' ?k = Some x'" "rn_mode x' = rn_mode x" "rn_data x' = rn_data x" "rn_parent x' = rn_parent x"
          using adds_at [OF A k(2)] x by auto
        have s: "is_symlink x' = is_symlink x" using x'(2) by (simp add: is_symlink_def)
        have l: "follow_link st' x' q = follow_link st x q" by (rule adds_follow_link [OF A x r x'(3,4)])
        show ?thesis using IH(3) [OF nd _ _ _ refl x] 3 dir "1.prems" k(2) x x'(1) f s l unfolding W W'
          by (auto split: option.splits)
      qed
    qed
  qed
qed

lemma adds_lookup:
  assumes A: "adds st st' d n name" and r: "ramfs_root st \<noteq> n" and z: "rnode st 0 = None" "rnode st' 0 = None"
    and l: "rnode st (ramfs_lookup mem st p) \<noteq> None"
  shows "ramfs_lookup mem st' p = ramfs_lookup mem st p"
proof -
  have rt: "ramfs_root st' = ramfs_root st" using A by (simp add: adds_def)
  have R: "lookup_rounds False mem st' k q = lookup_rounds False mem st k q" if "rnode st (lookup_rounds False mem st k q) \<noteq> None" for k q
    using that
  proof (induction k arbitrary: q)
    case (Suc k)
    have w: "ramfs_walk False st (ramfs_root st) q \<noteq> Missing" using Suc.prems z(1) by auto
    have W: "ramfs_walk False st' (ramfs_root st) q = ramfs_walk False st (ramfs_root st) q" "ramfs_walk False st (ramfs_root st) q \<noteq> At n"
      using adds_walk [OF A r z(1) r w] by simp_all
    have "ramfs_resolve_link st' c = ramfs_resolve_link st c" if "c \<noteq> n" for c
      using adds_at [OF A that] by (cases "rnode st c") (auto simp: ramfs_resolve_link_def)
    then show ?case using W Suc rt z(1) by (auto split: walk_result.split if_splits)
  qed (simp add: z)
  show ?thesis using l R [of 16 p] rt unfolding ramfs_lookup_def ramfs_lookup_gen_def by (auto split: if_splits)
qed

end
