(* ===== verification/Ramfs_Steps.thy ===== *)
theory Ramfs_Steps
  imports Ramfs_Path
begin

text \<open>
  The operations of \<open>fs/virt/ramfs.c\<close> keep the tree well formed: each of them as a change of the view.
\<close>

section \<open>The view of a state after an elementary change\<close>

lemma tree_ok_alt: "tree_ok st \<longleftrightarrow> shape (ramfs_root st) {} (view st) \<and> counted {} (view st) (opened st)"
  by (auto simp: tree_ok_def counted_def)

lemma view_upd:
  assumes "\<And>n. rnode st a = Some n \<Longrightarrow> tn (f n) = g (tn n)"
  shows "view (upd_node a f st) = (view st)(a := map_option g (view st a))"
  using assms by (cases "rnode st a") (auto simp: view_def fun_eq_iff)

lemma view_upd_same:
  assumes "\<And>n. tn (f n) = tn n"
  shows "view (upd_node a f st) = view st"
  using assms by (auto simp: view_def fun_eq_iff option.map_comp o_def)

lemma view_simps [simp]:
  "view (st\<lparr>rfile := r\<rparr>) = view st" "view (st\<lparr>pc_calls := c\<rparr>) = view st" "view (st\<lparr>ramfs_next_inode := i\<rparr>) = view st"
  "opened (upd_node a f st) = opened st" "opened (st\<lparr>pc_calls := c\<rparr>) = opened st" "opened (st\<lparr>rnode := m\<rparr>) = opened st"
  "opened (st\<lparr>ramfs_next_inode := i\<rparr>) = opened st" "view (pagecache_invalidate k g st) = view st"
  "opened (pagecache_invalidate k g st) = opened st" "view (forget_node a st) = (view st)(a := None)"
  "opened (forget_node a st) = opened st" "ramfs_root (forget_node a st) = ramfs_root st"
  "ramfs_root (pagecache_invalidate k g st) = ramfs_root st"
  by (auto simp: view_def opened_def fun_eq_iff pagecache_invalidate_def forget_node_def)

lemma tn_simps [simp]:
  "t_name (tn n) = rn_name n" "t_dir (tn n) = rn_is_dir n" "t_parent (tn n) = rn_parent n" "t_children (tn n) = rn_children n"
  "t_link (tn n) = rn_link n" "t_nlink (tn n) = rn_nlink n" "t_open (tn n) = rn_open n"
  by (simp_all add: tn_def)

lemma tn_same [simp]:
  "tn (ramfs_set_create_owner e n) = tn n" "tn (ramfs_apply_umask_mode e b n) = tn n" "tn (set_perm m n) = tn n"
  "tn (set_owner u g n) = tn n" "tn (ramfs_free_data_owned n) = tn n" "tn (set_borrowed d l n) = tn n"
  by (auto simp: tn_def ramfs_set_create_owner_def ramfs_apply_umask_mode_def set_perm_def set_owner_def
      ramfs_free_data_owned_def set_borrowed_def Let_def split: option.split)

lemma view_None [simp]: "view st a = None \<longleftrightarrow> rnode st a = None"
  by (simp add: view_def)

lemma view_Some: "rnode st a = Some n \<Longrightarrow> view st a = Some (tn n)"
  by (simp add: view_def)

lemma view_SomeD: "view st a = Some x \<Longrightarrow> \<exists>n. rnode st a = Some n \<and> x = tn n"
  by (auto simp: view_def)

text \<open>Where a node is put below a parent.\<close>

lemma view_add_child:
  assumes "rnode st c = Some x" "rn_name x = name" "c \<noteq> p"
  shows "view (add_child p c st) = attach p c name (view st)"
proof -
  have "view (upd_node c (\<lambda>x. x\<lparr>rn_parent := p\<rparr>) st) = (view st)(c := map_option (\<lambda>n. n\<lparr>t_name := name, t_parent := p\<rparr>) (view st c))"
    using assms by (auto simp: view_def fun_eq_iff tn_def)
  moreover have "view (upd_node p (\<lambda>p. p\<lparr>rn_children := c # rn_children p\<rparr>) s) = put_child p c (view s)" for s
    unfolding put_child_def by (rule view_upd) (simp add: tn_def)
  ultimately show ?thesis by (simp add: add_child_def attach_def)
qed

text \<open>No directory has as many entries as the loops over them look at; no count is about to wrap around.\<close>

definition small :: "ramfs_state \<Rightarrow> bool" where
  "small st \<longleftrightarrow> (\<forall>a n. rnode st a = Some n \<longrightarrow> length (rn_children n) < GUARD)"

definition few :: "ramfs_state \<Rightarrow> bool" where
  "few st \<longleftrightarrow> (\<forall>a n. rnode st a = Some n \<longrightarrow> rn_nlink n < 2 ^ 32 - 1 \<and> rn_open n < 2 ^ 32 - 1)"

lemma view_unlink:
  assumes s: "shape (ramfs_root st) X (view st)" and m: "small st" and a: "rnode st a = Some n"
  shows "view (ramfs_unlink_from_parent a st) = detach a (view st)"
proof (cases "rn_parent n = 0")
  case True
  then show ?thesis using a by (simp add: ramfs_unlink_from_parent_def detach_def view_def)
next
  case False
  note D = shapeD [OF s]
  have "rnode st (rn_parent n) \<noteq> None" using D(4) a False view_Some [OF a] unfolding parents_ok_def by force
  then obtain p where p: "rnode st (rn_parent n) = Some p" by blast
  have "a \<in> set (rn_children p)" using kids_okD(3) [OF D(3) view_Some [OF p], of a] view_Some [OF a] by simp
  moreover have "take GUARD (rn_children p) = rn_children p" using m p unfolding small_def by (meson less_imp_le take_all)
  moreover have pa: "rn_parent n \<noteq> a" using parent_not_self [OF D(6) view_Some [OF a]] False by simp
  ultimately have "ramfs_unlink_from_parent a st = upd_node a (\<lambda>n. n\<lparr>rn_parent := 0\<rparr>)
      (upd_node (rn_parent n) (\<lambda>p. p\<lparr>rn_children := remove1 a (rn_children p)\<rparr>) st)"
    using a p False by (simp add: ramfs_unlink_from_parent_def)
  then show ?thesis using a p False pa by (auto simp: detach_def view_def fun_eq_iff tn_def)
qed

lemma unlink_frame [simp]:
  "opened (ramfs_unlink_from_parent a st) = opened st" "ramfs_root (ramfs_unlink_from_parent a st) = ramfs_root st"
  by (auto simp: ramfs_unlink_from_parent_def split: option.split)

lemma root_frame [simp]:
  "ramfs_root (add_child p c st) = ramfs_root st" "opened (add_child p c st) = opened st"
  by (simp_all add: add_child_def)

lemma upd_node_id [simp]: "upd_node a (\<lambda>x. x) st = st"
  by (simp add: upd_node_def option.map_ident fun_upd_idem)

lemma tree_ok_cong:
  assumes "view s = view s'" "opened s = opened s'" "ramfs_root s = ramfs_root s'"
  shows "tree_ok s = tree_ok s'"
  using assms by (simp add: tree_ok_alt)

text \<open>The shape does not depend on counts and links.\<close>

definition sp :: "tnode \<Rightarrow> cpath \<times> bool \<times> addr \<times> addr list" where
  "sp n = (t_name n, t_dir n, t_parent n, t_children n)"

lemma shape_cong:
  assumes e: "\<And>a. map_option sp (V a) = map_option sp (V' a)" and s: "shape root X V"
  shows "shape root X V'"
proof -
  note D = shapeD [OF s]
  have b: "\<exists>m. V a = Some m \<and> t_name m = t_name n \<and> t_dir m = t_dir n \<and> t_parent m = t_parent n \<and> t_children m = t_children n"
    if "V' a = Some n" for a n
    using e [of a] that by (cases "V a") (auto simp: sp_def)
  have f: "\<exists>m. V' a = Some m \<and> t_dir m = t_dir n \<and> t_parent m = t_parent n" if "V a = Some n" for a n
    using e [of a] that by (cases "V' a") (auto simp: sp_def)
  have n: "V' a = None \<longleftrightarrow> V a = None" for a using e [of a] by (metis option.map_disc_iff)
  have k: "(\<exists>x. V c = Some x \<and> t_parent x = a) \<longleftrightarrow> (\<exists>x. V' c = Some x \<and> t_parent x = a)" for c a using b f by metis
  have "kids_ok V'" using D(3) b unfolding kids_ok_def k by metis
  moreover have "parents_ok V'" using D(4) b n unfolding parents_ok_def by metis
  moreover have "names_ok V'" using D(5) b unfolding names_ok_def by metis
  moreover have "ranked V'" using D(6) b unfolding ranked_def by metis
  moreover have "roots_ok root X V'" using D(7) b f unfolding roots_ok_def by metis
  moreover have "dom V' = dom V" using n by (simp add: dom_def)
  ultimately show ?thesis using D(1,2) n unfolding shape_def by simp
qed

lemma shape_file:
  assumes "shape root (insert a X) V" "V a = Some x" "\<not> t_dir x"
  shows "shape root X V"
  using assms unfolding shape_def roots_ok_def by (metis insert_iff option.inject)

section \<open>Names that are free\<close>

lemma tree_okD:
  assumes "tree_ok st"
  shows "shape (ramfs_root st) {} (view st)" "counted {} (view st) (opened st)" "rnode st 0 = None" "finite (dom (view st))"
  using assms shapeD(1,2) [of "ramfs_root st" "{}" "view st"] by (auto simp: tree_ok_alt)

lemma links_flat_ok:
  assumes "tree_ok st"
  shows "links_flat st"
  unfolding links_flat_def
proof (intro conjI allI impI)
  note T = tree_okD [OF assms]
  show "rnode st 0 = None" using T(3) .
  fix a n assume n: "rnode st a = Some n" "rn_link n \<noteq> 0"
  have "t_link (tn n) \<noteq> 0" using n by simp
  from link_of [OF countedD(1) [OF T(2)] view_Some [OF n(1)] this]
  show "\<not> rn_is_dir n" "\<not> is_dir_at st (rn_link n)" by (auto simp: is_dir_at_def view_def split: option.split)
qed

lemma find_child_free:
  assumes T: "tree_ok st" and m: "small st" and p: "rnode st p = Some q" and f: "ramfs_find_child st p name = 0"
  shows "\<forall>a n. view st a = Some n \<longrightarrow> t_parent n = p \<longrightarrow> t_name n \<noteq> name"
proof (intro allI impI notI)
  fix a n assume n: "view st a = Some n" "t_parent n = p" "t_name n = name"
  note D = shapeD [OF tree_okD(1) [OF T]]
  have a: "a \<in> set (rn_children q)" using kids_okD(3) [OF D(3) view_Some [OF p], of a] n by simp
  have t: "take GUARD (rn_children q) = rn_children q" using m p unfolding small_def by (meson less_imp_le take_all)
  have "named st name a" using n by (auto simp: named_def view_def)
  then obtain c where c: "List.find (named st name) (rn_children q) = Some c" using a by (metis find_None_iff not_None_eq)
  then have "named st name c" using find_SomeD by fast
  then have "c \<noteq> 0" using tree_okD(3) [OF T] by (cases "c = 0") (auto simp: named_def)
  then show False using f p t c by (simp add: ramfs_find_child_def)
qed

lemma find_child_in:
  assumes T: "tree_ok st" and c: "ramfs_find_child st p name = c" "c \<noteq> 0"
  obtains x where "view st c = Some x" "t_parent x = p" "t_name x = name"
proof -
  obtain q y where q: "rnode st p = Some q" "c \<in> set (rn_children q)" "rnode st c = Some y" "rn_name y = name"
    using find_child_named [of st p name] c by auto
  then show thesis using that [of "tn y"] view_Some [OF q(3)]
      kids_okD(3) [OF shapeD(3) [OF tree_okD(1) [OF T]] view_Some [OF q(1)], of c] by auto
qed

section \<open>New nodes\<close>

text \<open>What the operations that make a node ask for: a directory in which the name is free, and a fresh block.\<close>

lemma find_parentD:
  assumes "find_parent e st path = Inr (p, name)"
  shows "is_dir_at st p" "ramfs_find_child st p name = 0" "absolute path" "name \<noteq> []"
    "split_path path = (fst (split_path path), name)" "ramfs_lookup (re_look e) st (fst (split_path path)) = p"
  using assms by (auto simp: find_parent_def Let_def split: if_splits prod.splits)

lemma not_below_new:
  assumes "\<forall>a n. V a = Some n \<longrightarrow> t_parent n \<noteq> c" "c \<noteq> p"
  shows "(c, p) \<notin> (up V)\<^sup>*"
proof
  assume "(c, p) \<in> (up V)\<^sup>*"
  then obtain b where "(c, b) \<in> up V" using assms(2) by (auto elim: converse_rtranclE)
  then show False using assms(1) by (auto simp: up_def)
qed

lemma new_child_ok:
  assumes T: "tree_ok st" and m: "small st" and p: "rnode st p = Some q" "rn_is_dir q" and f: "ramfs_find_child st p name = 0"
    and c: "rnode st c = None" "c \<noteq> 0"
    and y: "t_parent y = 0" "t_children y = []" "t_link y = 0" "t_open y = 0" "\<not> t_dir y \<longrightarrow> t_nlink y = 1"
  shows "shape (ramfs_root st) {} (attach p c name ((view st)(c \<mapsto> y)))"
    "counted {} (attach p c name ((view st)(c \<mapsto> y))) (opened st)"
proof -
  note D = tree_okD [OF T] and S = shapeD [OF tree_okD(1) [OF T]]
  let ?V = "(view st)(c \<mapsto> y)"
  have vc: "view st c = None" using c by simp
  have "c \<noteq> p" using c(1) p(1) by (metis option.distinct(1))
  moreover have "c \<noteq> ramfs_root st" using S(7) vc unfolding roots_ok_def by (metis option.distinct(1))
  moreover have "p \<noteq> 0" using p(1) D(3) by (metis option.distinct(1))
  ultimately have cp: "c \<noteq> p" "c \<noteq> ramfs_root st" "p \<noteq> 0" .
  have np: "\<forall>a n. ?V a = Some n \<longrightarrow> t_parent n \<noteq> c"
  proof (intro allI impI notI)
    fix a n assume n: "?V a = Some n" "t_parent n = c"
    then have "view st a = Some n" using y(1) c(2) by (auto split: if_splits)
    then show False using S(4) n(2) vc c(2) unfolding parents_ok_def by (metis option.distinct(1))
  qed
  have s: "shape (ramfs_root st) {c} ?V" by (rule shape_new [OF D(1) vc c(2) y(1,2)])
  have nm: "\<forall>a n. ?V a = Some n \<longrightarrow> t_parent n = p \<longrightarrow> t_name n \<noteq> name"
    using find_child_free [OF T m p(1) f] y(1) cp(3) by simp
  have vp: "?V p = Some (tn q)" "t_dir (tn q)" using p cp view_Some [OF p(1)] by simp_all
  have vcy: "?V c = Some y" by simp
  show "shape (ramfs_root st) {} (attach p c name ?V)"
    using shape_attach [where V = ?V, OF s vcy y(1) cp(2) vp not_below_new [where V = ?V, OF np cp(1)] nm] by (simp only: Diff_cancel)
  have "counted {} ((view st)(c \<mapsto> y\<lparr>t_parent := p\<rparr>)) (opened st)"
    by (rule counted_new [OF D(2) vc c(2) S(1)]) (use y cp in simp_all)
  then show "counted {} (attach p c name ?V) (opened st)"
    by (rule counted_cong [rotated]) (use cp p in \<open>auto simp: attach_at [OF cp(1)] lt_def view_def\<close>)
qed

text \<open>Making a node and putting it in place, for any change of the other fields.\<close>

definition fresh :: "ramfs_env \<Rightarrow> ramfs_state \<Rightarrow> bool" where
  "fresh e st \<longleftrightarrow> (re_node e \<noteq> 0 \<longrightarrow> rnode st (re_node e) = None) \<and> (re_file e \<noteq> 0 \<longrightarrow> rfile st (re_file e) = None)"

lemma alloc_node_view:
  assumes "ramfs_alloc_node e name d st = (st1, n)" "n \<noteq> 0"
  shows "n = re_node e" "opened st1 = opened st" "ramfs_root st1 = ramfs_root st" "rfile st1 = rfile st"
    "\<And>a. a \<noteq> n \<Longrightarrow> rnode st1 a = rnode st a"
    "view st1 = (view st)(n \<mapsto> \<lparr>t_name = name, t_dir = d, t_parent = 0, t_children = [], t_link = 0, t_nlink = (if d then 2 else 1), t_open = 0\<rparr>)"
    "\<exists>x. rnode st1 n = Some x \<and> rn_name x = name \<and> rn_children x = [] \<and> rn_open x = 0 \<and> rn_is_dir x = d"
  using assms by (auto simp: ramfs_alloc_node_def view_def fun_eq_iff tn_def blank_node_def opened_def split: if_splits)

lemma alloc_node_none:
  assumes "ramfs_alloc_node e name d st = (st1, 0)"
  shows "st1 = st"
  using assms by (auto simp: ramfs_alloc_node_def split: if_splits)

lemma view_rollback:
  "view (rollback_child p n s) =
     ((view s)(p := map_option (\<lambda>q. q\<lparr>t_children := remove1 n (t_children q)\<rparr>) (view s p)))(n := None)"
proof -
  have "view (upd_node p (\<lambda>q. q\<lparr>rn_children := remove1 n (rn_children q)\<rparr>) s) =
      (view s)(p := map_option (\<lambda>q. q\<lparr>t_children := remove1 n (t_children q)\<rparr>) (view s p))"
    by (rule view_upd) (simp add: tn_def)
  then show ?thesis by (simp add: rollback_child_def ramfs_free_node_shallow_def)
qed

lemma made_child:
  assumes T: "tree_ok st" and m: "small st" and fr: "fresh e st" and fp: "find_parent e st path = Inr (p, name)"
    and al: "ramfs_alloc_node e name d st = (st1, n)" "n \<noteq> 0" and f: "\<And>x. tn (f x) = tn x"
  shows "tree_ok (add_child p n (upd_node n f st1))" "tree_ok (rollback_child p n (add_child p n (upd_node n f st1)))"
    "\<exists>x. rnode (add_child p n (upd_node n f st1)) n = Some x \<and> rn_link x = 0 \<and> rn_open x = 0"
proof -
  note A = alloc_node_view [OF al]
  note P = find_parentD [OF fp]
  obtain q where q: "rnode st p = Some q" "rn_is_dir q" using P(1) by (auto simp: is_dir_at_def split: option.splits)
  have c: "rnode st n = None" "n \<noteq> 0" using fr A(1) al(2) by (auto simp: fresh_def)
  have vn: "view st n = None" using c(1) by simp
  have np: "n \<noteq> p" using c q by auto
  let ?y = "\<lparr>t_name = name, t_dir = d, t_parent = 0, t_children = [], t_link = 0, t_nlink = (if d then 2 else 1), t_open = 0\<rparr>"
  have v1: "view (upd_node n f st1) = (view st)(n \<mapsto> ?y)" using view_upd_same [OF f] A(6) by simp
  obtain x where x: "rnode (upd_node n f st1) n = Some x" "rn_name x = name"
    using view_SomeD [of "upd_node n f st1" n ?y] v1 by (metis fun_upd_same tn_simps(1) tnode.select_convs(1))
  have v: "view (add_child p n (upd_node n f st1)) = attach p n name ((view st)(n \<mapsto> ?y))"
    using view_add_child [OF x np] v1 by simp
  show t: "tree_ok (add_child p n (upd_node n f st1))"
    using new_child_ok [OF T m q P(2) c, of ?y] A(2,3) by (simp add: tree_ok_alt v)
  have "view (add_child p n (upd_node n f st1)) n = Some (?y\<lparr>t_name := name, t_parent := p\<rparr>)"
    using np by (simp add: v attach_at)
  then obtain z where z: "rnode (add_child p n (upd_node n f st1)) n = Some z" "tn z = ?y\<lparr>t_name := name, t_parent := p\<rparr>"
    by (auto dest: view_SomeD)
  have "t_link (tn z) = 0" "t_open (tn z) = 0" using z(2) by simp_all
  then show "\<exists>x. rnode (add_child p n (upd_node n f st1)) n = Some x \<and> rn_link x = 0 \<and> rn_open x = 0" using z(1) by auto
  have "view (rollback_child p n (add_child p n (upd_node n f st1))) a = view st a" for a
    using np view_Some [OF q(1)] vn unfolding view_rollback v by (simp add: attach_at del: view_None)
  then have "view (rollback_child p n (add_child p n (upd_node n f st1))) = view st" ..
  moreover have "opened (rollback_child p n s) = opened s" "ramfs_root (rollback_child p n s) = ramfs_root s" for s
    by (simp_all add: rollback_child_def ramfs_free_node_shallow_def)
  ultimately show "tree_ok (rollback_child p n (add_child p n (upd_node n f st1)))" using T A(2,3) by (simp add: tree_ok_alt)
qed

section \<open>Opening and releasing\<close>

lemma open_node_ok:
  assumes T: "tree_ok st" and n: "rnode st n = Some x" "rn_link x = 0" "rn_open x < 2 ^ 32 - 1"
    and f: "rfile st (re_file e) = None" "re_file e \<noteq> 0"
  shows "tree_ok (open_node e fl n st)"
proof -
  let ?V = "(view st)(n \<mapsto> (tn x)\<lparr>t_open := t_open (tn x) + 1\<rparr>)"
  let ?u = "upd_node n (\<lambda>x. x\<lparr>rn_open := add32 (rn_open x) 1\<rparr>) st"
  note D = tree_okD [OF T]
  have vu: "view ?u = (view st)(n := map_option (\<lambda>t. t\<lparr>t_open := t_open t + 1\<rparr>) (view st n))"
    by (rule view_upd) (use n in \<open>auto simp: tn_def add32_def\<close>)
  have v: "view (open_node e fl n st) = ?V" using n(1) vu view_Some [OF n(1)] by (simp add: open_node_def)
  have o: "opened (open_node e fl n st) = (opened st)(re_file e \<mapsto> n)"
    using n(1) by (auto simp: open_node_def opened_def fun_eq_iff ramfs_file_set_backing_def)
  have r: "ramfs_root (open_node e fl n st) = ramfs_root st" using n(1) by (simp add: open_node_def)
  have "counted {} ?V ((opened st)(re_file e \<mapsto> n))"
    by (rule counted_open [OF D(2) view_Some [OF n(1)]]) (use n(2) f D(3) in \<open>auto simp: opened_def\<close>)
  moreover have "shape (ramfs_root st) {} ?V"
    by (rule shape_cong [OF _ D(1)]) (use view_Some [OF n(1)] in \<open>auto simp: sp_def\<close>)
  ultimately show ?thesis by (simp add: tree_ok_alt v o r)
qed

text \<open>What \<open>ramfs_maybe_free_inode\<close> does to a file that may be left without a name and without an open file.\<close>

lemma maybe_free_view:
  assumes s: "shape (ramfs_root st) {} (view st)" and c: "counted {a} (view st) F" and x: "view st a = Some x" "t_link x = 0"
  shows "shape (ramfs_root st) {} (view (ramfs_maybe_free_inode a st))" "counted {} (view (ramfs_maybe_free_inode a st)) F"
    "opened (ramfs_maybe_free_inode a st) = opened st" "ramfs_root (ramfs_maybe_free_inode a st) = ramfs_root st"
    "view (ramfs_maybe_free_inode a st) = view st \<or> view (ramfs_maybe_free_inode a st) = (view st)(a := None) \<and> t_parent x = 0 \<and> \<not> t_dir x"
    "rfile (ramfs_maybe_free_inode a st) = rfile st"
proof -
  note D = shapeD [OF s]
  obtain n where n: "rnode st a = Some n" "x = tn n" using view_SomeD [OF x(1)] by blast
  consider (dir) "t_dir x" | (held) "\<not> t_dir x" "t_nlink x \<noteq> 0 \<or> t_open x \<noteq> 0" | (gone) "\<not> t_dir x" "t_nlink x = 0" "t_open x = 0" by blast
  then have "shape (ramfs_root st) {} (view (ramfs_maybe_free_inode a st)) \<and> counted {} (view (ramfs_maybe_free_inode a st)) F \<and>
    opened (ramfs_maybe_free_inode a st) = opened st \<and> ramfs_root (ramfs_maybe_free_inode a st) = ramfs_root st \<and>
    (view (ramfs_maybe_free_inode a st) = view st \<or> view (ramfs_maybe_free_inode a st) = (view st)(a := None) \<and> t_parent x = 0 \<and> \<not> t_dir x) \<and>
    rfile (ramfs_maybe_free_inode a st) = rfile st"
  proof cases
    case dir
    then have m: "ramfs_maybe_free_inode a st = st" using n by (simp add: ramfs_maybe_free_inode_def)
    have "counted {} (view st) F"
      using c x(1) dir unfolding counted_def alive_ok_def by (metis option.inject singletonD)
    then show ?thesis using s m by simp
  next
    case held
    then have m: "ramfs_maybe_free_inode a st = st" using n by (auto simp: ramfs_maybe_free_inode_def)
    show ?thesis using counted_free(2) [OF c x(1) held(1) x(2) D(1,2) held(2)] s m by simp
  next
    case gone
    note C = counted_free(1) [OF c x(1) gone(1) x(2) D(1,2) gone(2,3)]
    have ch: "t_children x = []" using kids_okD(2) [OF D(3) x(1)] gone(1) by blast
    have ar: "a \<noteq> ramfs_root st" using D(7) x(1) gone(1) unfolding roots_ok_def by (metis option.inject)
    have v: "ramfs_maybe_free_inode a st = forget_node a (pagecache_invalidate (PAGECACHE_ID_RAMFS (rn_ino n)) 0 st)"
      using n gone C by (simp add: ramfs_maybe_free_inode_def)
    have "shape (ramfs_root st) {} ((view st)(a := None))" using shape_del [OF s x(1) _ ch ar] C by simp
    then show ?thesis using C gone(1) by (simp add: v) (simp add: forget_node_def pagecache_invalidate_def)
  qed
  then show "shape (ramfs_root st) {} (view (ramfs_maybe_free_inode a st))" "counted {} (view (ramfs_maybe_free_inode a st)) F"
    "opened (ramfs_maybe_free_inode a st) = opened st" "ramfs_root (ramfs_maybe_free_inode a st) = ramfs_root st"
    "view (ramfs_maybe_free_inode a st) = view st \<or> view (ramfs_maybe_free_inode a st) = (view st)(a := None) \<and> t_parent x = 0 \<and> \<not> t_dir x"
    "rfile (ramfs_maybe_free_inode a st) = rfile st"
    by blast+
qed

lemma release_ok:
  assumes T: "tree_ok st"
  shows "tree_ok (ramfs_release f st)"
proof (cases "rfile st f")
  case None
  then show ?thesis using T by (simp add: ramfs_release_def)
next
  case (Some x)
  note D = tree_okD [OF T]
  let ?a = "f_node x"
  have f: "opened st f = Some ?a" using Some by (simp add: opened_def)
  then obtain t where t: "view st ?a = Some t"
    using countedD(4) [OF D(2)] unfolding opens_ok_def by blast
  have a0: "?a \<noteq> 0" using t D(3) by (metis option.distinct(1) view_None)
  have v0: "view st 0 = None" using D(3) by simp
  note C = counted_close [OF D(2) f t v0]
  let ?u = "upd_node ?a (\<lambda>n. if rn_open n > 0 then n\<lparr>rn_open := rn_open n - 1\<rparr> else n) st"
  have vu: "view ?u = (view st)(?a \<mapsto> t\<lparr>t_open := t_open t - 1\<rparr>)"
    using view_upd [of st ?a "\<lambda>n. if rn_open n > 0 then n\<lparr>rn_open := rn_open n - 1\<rparr> else n" "\<lambda>t. t\<lparr>t_open := t_open t - 1\<rparr>"] t
    by (simp add: tn_def)
  have "shape (ramfs_root st) {} (view ?u)"
    unfolding vu by (rule shape_cong [OF _ D(1)]) (use t in \<open>auto simp: sp_def\<close>)
  then have s: "shape (ramfs_root ?u) {} (view ?u)" by simp
  have c: "counted {?a} (view ?u) ((opened st)(f := None))" using C(1) by (simp add: vu)
  have x: "view ?u ?a = Some (t\<lparr>t_open := t_open t - 1\<rparr>)" "t_link (t\<lparr>t_open := t_open t - 1\<rparr>) = 0" using C(3) by (simp_all add: vu)
  note M = maybe_free_view [OF s c x]
  have "opened (ramfs_release f st) = (opened st)(f := None)"
    using Some a0 M(6) by (simp add: ramfs_release_def Let_def opened_def fun_eq_iff)
  moreover have "view (ramfs_release f st) = view (ramfs_maybe_free_inode ?a ?u)" "ramfs_root (ramfs_release f st) = ramfs_root st"
    using Some a0 M(4) by (simp_all add: ramfs_release_def Let_def)
  ultimately show ?thesis using M(1,2) by (simp add: tree_ok_alt)
qed

end
