(* ===== verification/Ramfs_Ops.thy ===== *)
theory Ramfs_Ops
  imports Ramfs_Steps
begin

text \<open>
  Every operation of \<open>fs/virt/ramfs.c\<close> that changes the state keeps \<open>tree_ok\<close>: creating, linking, removing and
  renaming, and the operations that change the data or the attributes of a node only.
\<close>

section \<open>Creating\<close>

lemma create_ok:
  assumes T: "tree_ok st" and m: "small st" and fr: "fresh e st"
  shows "tree_ok (fst (ramfs_create e path st))"
proof (cases "find_parent e st path")
  case (Inl r)
  then show ?thesis using T by (simp add: ramfs_create_def)
next
  case (Inr pn)
  then obtain p name where fp: "find_parent e st path = Inr (p, name)" by (cases pn) auto
  obtain st1 n where al: "ramfs_alloc_node e name False st = (st1, n)" by fastforce
  show ?thesis
  proof (cases "n = 0")
    case True
    then show ?thesis using fp al T by (auto simp: ramfs_create_def dest: alloc_node_none)
  next
    case False
    note M = made_child [OF T m fr fp al False, of "\<lambda>x. ramfs_apply_umask_mode e 0x1B6 (ramfs_set_create_owner e x)"]
    let ?s = "add_child p n (upd_node n (\<lambda>x. ramfs_apply_umask_mode e 0x1B6 (ramfs_set_create_owner e x)) st1)"
    obtain x where x: "rnode ?s n = Some x" "rn_link x = 0" "rn_open x = 0" using M(3) by auto
    have "rfile ?s = rfile st" using alloc_node_view(4) [OF al False] by (simp add: add_child_def)
    then have f: "rfile ?s (re_file e) = None" "re_file e \<noteq> 0" if "files_ok e" using fr that by (simp_all add: fresh_def files_ok_def)
    have "tree_ok (open_node e fl n ?s)" if "files_ok e" for fl
      by (rule open_node_ok [OF _ x(1,2) _ f [OF that]]) (use M(1) x(3) in simp_all)
    then show ?thesis using fp al False M(2) x(1) by (simp add: ramfs_create_def Let_def)
  qed
qed

lemma mkdir_ok:
  assumes T: "tree_ok st" and m: "small st" and fr: "fresh e st"
  shows "tree_ok (fst (ramfs_mkdir e path st))"
proof -
  define p' where "p' = (if length path > 1 \<and> last path = SLASH then butlast path else path)"
  show ?thesis
  proof (cases "find_parent e st p'")
    case (Inl r)
    then show ?thesis using T unfolding ramfs_mkdir_def p'_def [symmetric] by (simp add: Let_def)
  next
    case (Inr pn)
    then obtain p name where fp: "find_parent e st p' = Inr (p, name)" by (cases pn) auto
    obtain st1 n where al: "ramfs_alloc_node e name True st = (st1, n)" by fastforce
    show ?thesis
    proof (cases "n = 0")
      case True
      then show ?thesis using fp al T unfolding ramfs_mkdir_def p'_def [symmetric] by (auto simp: Let_def dest: alloc_node_none)
    next
      case False
      note M = made_child(1) [OF T m fr fp al False, of "\<lambda>x. ramfs_apply_umask_mode e 0x1FF (ramfs_set_create_owner e x)"]
      then show ?thesis using fp al False unfolding ramfs_mkdir_def p'_def [symmetric] by (simp add: Let_def)
    qed
  qed
qed

lemma symlink_ok:
  assumes T: "tree_ok st" and m: "small st" and fr: "fresh e st"
  shows "tree_ok (fst (ramfs_symlink e path target st))"
proof (cases "find_parent e st path")
  case (Inl r)
  then show ?thesis using T by (simp add: ramfs_symlink_def)
next
  case (Inr pn)
  then obtain p name where fp: "find_parent e st path = Inr (p, name)" by (cases pn) auto
  obtain st1 n where al: "ramfs_alloc_node e name False st = (st1, n)" by fastforce
  show ?thesis
  proof (cases "n = 0")
    case True
    then show ?thesis using fp al T by (auto simp: ramfs_symlink_def dest: alloc_node_none)
  next
    case False
    note M = made_child [OF T m fr fp al False, of "\<lambda>x. x"]
    have v: "view (upd_node n (\<lambda>x. x\<lparr>rn_mode := k\<rparr>) s) = view s" for s k by (rule view_upd_same) (simp add: tn_def)
    have w: "view (upd_node n (\<lambda>x. ramfs_set_create_owner e (x\<lparr>rn_data := d, rn_size := z, rn_cap := c\<rparr>)) s) = view s" for s d z c
      by (rule view_upd_same) (subst tn_same(1), simp add: tn_def)
    have "tree_ok (rollback_child p n (upd_node n (\<lambda>x. x\<lparr>rn_mode := S_IFLNK OR 0x1FF\<rparr>) (add_child p n st1)))"
      using M(2) tree_ok_cong [of "rollback_child p n (upd_node n (\<lambda>x. x\<lparr>rn_mode := S_IFLNK OR 0x1FF\<rparr>) (add_child p n st1))"
        "rollback_child p n (add_child p n st1)"]
      by (simp add: view_rollback v) (simp add: rollback_child_def ramfs_free_node_shallow_def)
    moreover have "tree_ok (upd_node n (\<lambda>x. ramfs_set_create_owner e (x\<lparr>rn_data := d, rn_size := z, rn_cap := c\<rparr>))
        (upd_node n (\<lambda>x. x\<lparr>rn_mode := S_IFLNK OR 0x1FF\<rparr>) (add_child p n st1)))" for d z c
      using M(1) by (simp add: tree_ok_alt v w)
    ultimately show ?thesis using fp al False by (simp add: ramfs_symlink_def Let_def)
  qed
qed

section \<open>Hard links\<close>

lemma link_inode_ok:
  assumes T: "tree_ok st" and m: "small st" and w: "few st" and fr: "fresh e st"
  shows "tree_ok (fst (ramfs_link_inode e a path st))"
proof (cases "snd (ramfs_link_inode e a path st) = 0")
  case False
  then have "fst (ramfs_link_inode e a path st) = st"
    by (auto simp: ramfs_link_inode_def Let_def split: option.splits prod.splits if_splits)
  then show ?thesis using T by simp
next
  case True
  obtain pp name where sp: "split_path path = (pp, name)" by fastforce
  define p where "p = ramfs_lookup (re_look e) st pp"
  obtain n where n: "rnode st a = Some n" "\<not> rn_is_dir n"
    using True by (auto simp: ramfs_link_inode_def split: option.splits if_splits)
  define t where "t = (if rn_link n \<noteq> 0 then rn_link n else a)"
  define l where "l = re_node e"
  have g: "absolute path" "re_tmp e" "name \<noteq> []" "is_dir_at st p" "l \<noteq> 0" "re_name e" "ramfs_find_child st p name = 0"
    using True n sp by (auto simp: ramfs_link_inode_def p_def l_def Let_def split: if_splits)
  obtain q where q: "rnode st p = Some q" "rn_is_dir q" using g(4) by (auto simp: is_dir_at_def split: option.splits)
  have ln: "rnode st l = None" using fr g(5) by (simp add: fresh_def l_def)
  note D = tree_okD [OF T] and S = shapeD [OF tree_okD(1) [OF T]]
  have "\<exists>x. view st t = Some x \<and> \<not> t_dir x \<and> t_link x = 0"
    using link_of(3) [OF countedD(1) [OF D(2)] view_Some [OF n(1)]] n view_Some [OF n(1)] by (auto simp: t_def)
  then obtain x where x: "rnode st t = Some x" "\<not> rn_is_dir x" "rn_link x = 0" by (auto dest: view_SomeD)
  define s1 where "s1 = st\<lparr>rnode := (rnode st)(l \<mapsto> blank_node\<lparr>rn_name := name, rn_link := t\<rparr>)\<rparr>"
  have r: "fst (ramfs_link_inode e a path st) = upd_node t (\<lambda>t. t\<lparr>rn_nlink := add32 (rn_nlink t) 1\<rparr>) (add_child p l s1)"
    using n sp g q(1) by (simp add: ramfs_link_inode_def p_def t_def l_def s1_def Let_def)
  have d: "l \<noteq> p" "l \<noteq> t" "t \<noteq> p" using ln q x by auto
  let ?y = "\<lparr>t_name = name, t_dir = False, t_parent = 0, t_children = [], t_link = t, t_nlink = 0, t_open = 0\<rparr>"
  let ?z = "?y\<lparr>t_link := 0, t_nlink := 1\<rparr>"
  have "view s1 = (view st)(l \<mapsto> ?y)" by (simp add: s1_def view_def fun_eq_iff tn_def blank_node_def)
  moreover have "rnode s1 l = Some (blank_node\<lparr>rn_name := name, rn_link := t\<rparr>)" by (simp add: s1_def)
  ultimately have va: "view (add_child p l s1) = attach p l name ((view st)(l \<mapsto> ?y))"
    using view_add_child [of s1 l _ name p] d(1) by simp
  have xt: "rn_nlink y < 2 ^ 32 - 1" if "rnode (add_child p l s1) t = Some y" for y
    using that w d x(1) by (auto simp: few_def add_child_def s1_def)
  have "view (upd_node t (\<lambda>t. t\<lparr>rn_nlink := add32 (rn_nlink t) 1\<rparr>) (add_child p l s1)) =
      (view (add_child p l s1))(t := map_option (\<lambda>x. x\<lparr>t_nlink := t_nlink x + 1\<rparr>) (view (add_child p l s1) t))"
    by (rule view_upd) (use xt in \<open>force simp: tn_def add32_def\<close>)
  then have v: "view (fst (ramfs_link_inode e a path st)) =
      (attach p l name ((view st)(l \<mapsto> ?y)))(t \<mapsto> (tn x)\<lparr>t_nlink := t_nlink (tn x) + 1\<rparr>)"
    using d view_Some [OF x(1)] by (simp add: r va attach_at)
  have "shape (ramfs_root st) {} (attach p l name ((view st)(l \<mapsto> ?z)))"
    by (rule new_child_ok [OF T m q g(7) ln g(5)]) simp_all
  then have sh: "shape (ramfs_root st) {} (view (fst (ramfs_link_inode e a path st)))"
    by (rule shape_cong [rotated]) (use d view_Some [OF x(1)] view_Some [OF q(1)] in \<open>auto simp: v attach_at sp_def\<close>)
  have p0: "p \<noteq> 0" using q(1) D(3) by (metis option.distinct(1))
  have vl: "view st l = None" using ln by simp
  have "counted {} ((view st)(l \<mapsto> ?y\<lparr>t_parent := p\<rparr>, t \<mapsto> (tn x)\<lparr>t_nlink := t_nlink (tn x) + 1\<rparr>)) (opened st)"
    by (rule counted_link [OF D(2) vl g(5) S(1,2) _ _ _ _ view_Some [OF x(1)]]) (use p0 x in simp_all)
  then have "counted {} (view (fst (ramfs_link_inode e a path st))) (opened st)"
    by (rule counted_cong [rotated]) (use d p0 view_Some [OF q(1)] in \<open>auto simp: v attach_at lt_def\<close>)
  moreover have "ramfs_root (fst (ramfs_link_inode e a path st)) = ramfs_root st" "opened (fst (ramfs_link_inode e a path st)) = opened st"
    by (simp_all add: r s1_def)
  ultimately show ?thesis using sh by (simp add: tree_ok_alt)
qed

lemma link_ok:
  assumes "tree_ok st" "small st" "few st" "fresh e st"
  shows "tree_ok (fst (ramfs_link e old path st))" "tree_ok (fst (ramfs_link_open_file e f path st))"
  using assms link_inode_ok [OF assms] by (auto simp: ramfs_link_def ramfs_link_open_file_def Let_def split: option.split)

section \<open>Opening\<close>

lemma open_ok:
  assumes T: "tree_ok st" and w: "few st" and fr: "fresh e st"
  shows "tree_ok (fst (ramfs_open e path st))"
proof (cases "snd (ramfs_open e path st) = 0")
  case False
  then have "fst (ramfs_open e path st) = st" by (auto simp: ramfs_open_def Let_def split: option.splits if_splits)
  then show ?thesis using T by simp
next
  case True
  define a where "a = ramfs_lookup_nofollow (re_look e) st path"
  define n where "n = ramfs_resolve_link st a"
  obtain y x where y: "rnode st a = Some y" and x: "rnode st n = Some x" and f: "files_ok e"
    using True by (auto simp: ramfs_open_def Let_def a_def n_def split: option.splits if_splits)
  have "rn_link x = 0"
  proof (cases "rn_link y = 0")
    case True
    then show ?thesis using x y by (simp add: n_def ramfs_resolve_link_def)
  next
    case False
    then show ?thesis
      using link_of(3) [OF countedD(1) [OF tree_okD(2) [OF T]] view_Some [OF y]] x y view_Some [OF x]
      by (auto simp: n_def ramfs_resolve_link_def)
  qed
  moreover have "rfile st (re_file e) = None" "re_file e \<noteq> 0" using fr f by (simp_all add: fresh_def files_ok_def)
  ultimately have "tree_ok (open_node e fl n st)" for fl using open_node_ok [OF T x] w x unfolding few_def by blast
  then show ?thesis using y x f by (simp add: ramfs_open_def Let_def a_def [symmetric] n_def [symmetric])
qed

section \<open>Data and attributes\<close>

lemma tree_ok_upd:
  assumes "\<And>n. tn (f n) = tn n"
  shows "tree_ok (upd_node a f st) \<longleftrightarrow> tree_ok st"
  by (rule tree_ok_cong) (simp_all add: view_upd_same [OF assms])

lemma attributes_ok:
  assumes T: "tree_ok st"
  shows "tree_ok (fst (ramfs_chmod e path mode st))" "tree_ok (fst (ramfs_fchmod_file e f mode st))"
    "tree_ok (fst (ramfs_chown e path uid gid st))" "tree_ok (fst (ramfs_lchown e path uid gid st))"
  using T by (auto simp: ramfs_chmod_def ramfs_fchmod_file_def ramfs_chown_def ramfs_lchown_def chown_node_def Let_def tree_ok_upd split: option.split)

lemma xattrs_ok:
  assumes T: "tree_ok st"
  shows "tree_ok (fst (ramfs_setxattr e path name v len flags st))" "tree_ok (fst (ramfs_removexattr e path name st))"
proof -
  have "tree_ok (upd_node i (\<lambda>n. n\<lparr>rn_xattrs := g n, rn_ctime := 0\<rparr>) st)" for i g
    using T by (subst tree_ok_upd) (simp_all add: tn_def)
  moreover have "tree_ok (upd_node i (\<lambda>n. n\<lparr>rn_xattrs := g n\<rparr>) st)" for i g
    using T by (subst tree_ok_upd) (simp_all add: tn_def)
  ultimately show "tree_ok (fst (ramfs_setxattr e path name v len flags st))" "tree_ok (fst (ramfs_removexattr e path name st))"
    using T by (auto simp: ramfs_setxattr_def ramfs_removexattr_def Let_def split: option.split)
qed

lemma tn_ensure [simp]: "tn (fst (ramfs_ensure_heap_data_locked h c b n)) = tn n"
  by (auto simp: ramfs_ensure_heap_data_locked_def ramfs_materialize_node_locked_def tn_def split: option.split)

lemma tn_write_loop: "tn (fst (write_loop alloc pos buf n)) = tn n"
proof (induction alloc pos buf n rule: write_loop.induct)
  case (1 alloc pos buf n)
  have "tn m = tn n" if "write_room alloc pos k n = Some m" for m k
    using that by (auto simp: write_room_def Let_def tn_def split: if_splits option.splits)
  moreover have "tn (write_chunk pos c m) = tn m" for c m by (simp add: write_chunk_def Let_def tn_def)
  ultimately show ?case using 1 by (subst write_loop.simps) (auto simp: Let_def split: option.split)
qed

lemma inode_changed_view [simp]:
  "view (ramfs_inode_changed now a st) = view st" "opened (ramfs_inode_changed now a st) = opened st"
  "ramfs_root (ramfs_inode_changed now a st) = ramfs_root st"
proof -
  have "view (upd_node a (\<lambda>n. n\<lparr>rn_mtime := t, rn_ctime := t, rn_gen := g n\<rparr>) st) = view st" for t g
    by (rule view_upd_same) (simp add: tn_def)
  then show "view (ramfs_inode_changed now a st) = view st" "opened (ramfs_inode_changed now a st) = opened st"
    "ramfs_root (ramfs_inode_changed now a st) = ramfs_root st"
    by (auto simp: ramfs_inode_changed_def split: option.split)
qed

lemma file_fields [simp]:
  "view (set_file_size f k st) = view st" "opened (set_file_size f k st) = opened st" "ramfs_root (set_file_size f k st) = ramfs_root st"
  "view (set_file_gen f a st) = view st" "opened (set_file_gen f a st) = opened st" "ramfs_root (set_file_gen f a st) = ramfs_root st"
  by (auto simp: set_file_size_def set_file_gen_def opened_def fun_eq_iff option.map_comp o_def split: option.split)

lemma view_put:
  assumes "rnode st a = Some n" "tn n' = tn n"
  shows "view (upd_node a (\<lambda>_. n') st) = view st"
  using assms by (auto simp: view_def fun_eq_iff)

lemma put_ok:
  assumes T: "tree_ok st" and "rnode st a = Some n" "tn n' = tn n"
  shows "tree_ok (upd_node a (\<lambda>_. n') st)" "tree_ok (commit e f a n' st)"
  using T view_put [OF assms(2,3)] by (simp_all add: tree_ok_alt commit_def)

lemma write_ok:
  assumes T: "tree_ok st"
  shows "tree_ok (fst (ramfs_write e m f buf off st))"
proof (cases "rfile st f")
  case None
  then show ?thesis using T by (simp add: ramfs_write_def)
next
  case (Some x)
  show ?thesis
  proof (cases "rnode st (f_node x)")
    case None
    then show ?thesis using Some T by (simp add: ramfs_write_def)
  next
    case (Some n)
    obtain n1 r1 where e1: "ramfs_ensure_heap_data_locked (m_is_heap m) (m_copy m) (m_behind m) n = (n1, r1)" by fastforce
    obtain n2 r2 where e2: "write_loop (m_alloc m) off buf n1 = (n2, r2)" by fastforce
    have t: "tn n1 = tn n" "tn n2 = tn n"
      using tn_ensure [of "m_is_heap m" "m_copy m" "m_behind m" n] tn_write_loop [of "m_alloc m" off buf n1] by (simp_all add: e1 e2)
    show ?thesis using T \<open>rfile st f = Some x\<close> Some e1 e2 put_ok [OF T Some t(1)] put_ok [OF T Some t(2)] by (simp add: ramfs_write_def)
  qed
qed

lemma ftruncate_ok:
  assumes T: "tree_ok st"
  shows "tree_ok (fst (ramfs_ftruncate e m f len st))"
proof (cases "rfile st f")
  case None
  then show ?thesis using T by (simp add: ramfs_ftruncate_def)
next
  case (Some x)
  show ?thesis
  proof (cases "rnode st (f_node x)")
    case None
    then show ?thesis using Some T by (simp add: ramfs_ftruncate_def)
  next
    case (Some n)
    obtain n1 r1 where e1: "ramfs_ensure_heap_data_locked (m_is_heap m) (m_copy m) (m_behind m) n = (n1, r1)" by fastforce
    have t1: "tn n1 = tn n" using tn_ensure [of "m_is_heap m" "m_copy m" "m_behind m" n] by (simp add: e1)
    have t2: "tn (n1\<lparr>rn_data := d, rn_size := z, rn_cap := z\<rparr>) = tn n" for d z using t1 by (simp add: tn_def)
    have t3: "tn ((ramfs_free_data_owned n)\<lparr>rn_size := 0\<rparr>) = tn n" using tn_same(5) [of n] by (simp add: tn_def)
    have "view (upd_node (f_node x) (\<lambda>n. n\<lparr>rn_size := z, rn_mtime := t, rn_ctime := t\<rparr>) st) = view st" for z t
      by (rule view_upd_same) (simp add: tn_def)
    then have "tree_ok (set_file_size f z (upd_node (f_node x) (\<lambda>n. n\<lparr>rn_size := z, rn_mtime := t, rn_ctime := t\<rparr>) st))" for z t
      using T by (simp add: tree_ok_alt)
    then show ?thesis
      using T \<open>rfile st f = Some x\<close> Some e1 put_ok [OF T Some t1] put_ok [OF T Some t2] put_ok [OF T Some t3]
      by (simp add: ramfs_ftruncate_def Let_def)
  qed
qed

lemma borrowed_ok:
  assumes T: "tree_ok st" and m: "small st" and fr: "fresh e st"
  shows "tree_ok (fst (ramfs_create_borrowed_file e path data len st))"
proof -
  obtain s r where c: "ramfs_create e path st = (s, r)" by fastforce
  have s: "tree_ok s" using create_ok [OF T m fr, of path] by (simp add: c)
  have "view (upd_node (re_node e) (set_borrowed data len) s) = view s" by (rule view_upd_same) simp
  then have "tree_ok (ramfs_inode_changed (re_now e) (re_node e) (upd_node (re_node e) (set_borrowed data len) s))"
    using s by (simp add: tree_ok_alt)
  then show ?thesis using s c by (simp add: ramfs_create_borrowed_file_def Let_def release_ok)
qed

end
