(* ===== verification/Ramfs_Remove.thy ===== *)
theory Ramfs_Remove
  imports Ramfs_Ops
begin

text \<open>
  Removing and renaming (\<open>ramfs_remove\<close>, \<open>ramfs_rename\<close>, \<open>ramfs_make_whiteout\<close>) keep \<open>tree_ok\<close>, for directories that
  are empty and not open when they are removed, and nodes that do not move below themselves.
\<close>

section \<open>Removing a name\<close>

text \<open>What removing the name of \<open>a\<close> keeps of the other nodes.\<close>

definition kept_but :: "addr \<Rightarrow> tview \<Rightarrow> tview \<Rightarrow> bool" where
  "kept_but a V V' \<longleftrightarrow>
     (\<forall>b m'. V' b = Some m' \<longrightarrow> (\<exists>m. V b = Some m \<and> t_name m' = t_name m \<and> t_dir m' = t_dir m \<and>
        length (t_children m') \<le> length (t_children m) \<and> (t_parent m' = t_parent m \<or> b = a \<and> t_parent m' = 0))) \<and>
     (\<forall>b m. V b = Some m \<longrightarrow> b \<noteq> a \<longrightarrow> t_parent m \<noteq> 0 \<or> t_dir m \<longrightarrow> V' b \<noteq> None) \<and>
     (\<forall>m'. V' a = Some m' \<longrightarrow> t_parent m' = 0)"

lemma named_node:
  assumes T: "tree_ok st" and n: "rnode st a = Some n" "rn_parent n \<noteq> 0"
  shows "\<exists>q. view st (rn_parent n) = Some q \<and> t_dir q" "a \<noteq> ramfs_root st" "rn_parent n \<noteq> a"
proof -
  note S = shapeD [OF tree_okD(1) [OF T]]
  obtain q where q: "view st (rn_parent n) = Some q" using S(4) view_Some [OF n(1)] n(2) unfolding parents_ok_def by fastforce
  have "a \<in> set (t_children q)" using kids_okD(3) [OF S(3) q, of a] view_Some [OF n(1)] by simp
  then have "t_dir q" using kids_okD(2) [OF S(3) q] by (metis empty_iff empty_set)
  then show "\<exists>q. view st (rn_parent n) = Some q \<and> t_dir q" using q by blast
  obtain r where "view st (ramfs_root st) = Some r" "t_parent r = 0" using S(7) unfolding roots_ok_def by blast
  then show "a \<noteq> ramfs_root st" using view_Some [OF n(1)] n(2) by (metis option.inject tn_simps(3))
  show "rn_parent n \<noteq> a" using parent_not_self [OF S(6) view_Some [OF n(1)]] n(2) by simp
qed

text \<open>The view with \<open>a\<close> taken out of its directory.\<close>

lemma detached_at:
  assumes n: "rnode st a = Some n" "rn_parent n \<noteq> 0"
  shows "detach a (view st) b = (if b = a then Some ((tn n)\<lparr>t_parent := 0\<rparr>)
    else if b = rn_parent n then map_option (\<lambda>n. n\<lparr>t_children := remove1 a (t_children n)\<rparr>) (view st b) else view st b)"
  using detach_at [where V = "view st" and c = a and x = "tn n" and a = b, OF view_Some [OF n(1)]] n(2) by simp

lemma remove1_shorter: "remove1 a xs = ys \<Longrightarrow> length ys \<le> length xs"
  by (auto simp: length_remove1)

lemma detached_kept:
  assumes n: "rnode st a = Some n" "rn_parent n \<noteq> 0" and W: "\<And>b. b \<noteq> a \<Longrightarrow> map_option sp (W b) = map_option sp (detach a (view st) b) \<or>
      W b = None \<and> (\<exists>m. detach a (view st) b = Some m \<and> t_parent m = 0 \<and> \<not> t_dir m)"
    and Wa: "W a = None \<or> map_option sp (W a) = Some (sp ((tn n)\<lparr>t_parent := 0\<rparr>))"
  shows "kept_but a (view st) W"
  unfolding kept_but_def
proof (intro conjI allI impI)
  fix b m' assume b: "W b = Some m'"
  show "\<exists>m. view st b = Some m \<and> t_name m' = t_name m \<and> t_dir m' = t_dir m \<and>
      length (t_children m') \<le> length (t_children m) \<and> (t_parent m' = t_parent m \<or> b = a \<and> t_parent m' = 0)"
  proof (cases "b = a")
    case True
    then show ?thesis using Wa b view_Some [OF n(1)] by (auto simp: sp_def)
  next
    case False
    then have "map_option sp (detach a (view st) b) = Some (sp m')" using W [OF False] b by auto
    then show ?thesis using False by (auto simp: detached_at [OF n] sp_def remove1_shorter split: if_splits)
  qed
next
  fix b m assume b: "view st b = Some m" "b \<noteq> a" "t_parent m \<noteq> 0 \<or> t_dir m"
  then have "\<exists>k. detach a (view st) b = Some k \<and> t_parent k = t_parent m \<and> t_dir k = t_dir m" by (auto simp: detached_at [OF n])
  then show "W b \<noteq> None" using W [OF b(2)] b(3) by (metis option.distinct(1) option.inject option.map_disc_iff)
next
  fix m' assume "W a = Some m'"
  then show "t_parent m' = 0" using Wa by (auto simp: sp_def)
qed

lemma remove_link:
  assumes T: "tree_ok st" and m: "small st" and n: "rnode st a = Some n" "rn_parent n \<noteq> 0" "rn_link n \<noteq> 0"
  defines "s \<equiv> upd_node (rn_link n) (\<lambda>t. if rn_nlink t > 0 then t\<lparr>rn_nlink := rn_nlink t - 1\<rparr> else t)
    (forget_node a (ramfs_unlink_from_parent a st))"
  defines "r \<equiv> if (case rnode s (rn_link n) of None \<Rightarrow> False | Some x \<Rightarrow> rn_nlink x = 0) then ramfs_maybe_free_inode (rn_link n) s else s"
  shows "tree_ok r" "kept_but a (view st) (view r)" "opened r = opened st"
proof -
  note D = tree_okD [OF T] and S = shapeD [OF tree_okD(1) [OF T]] and N = named_node [OF T n(1,2)]
  let ?t = "rn_link n"
  obtain x where x: "view st ?t = Some x" using link_of(3) [OF countedD(1) [OF D(2)] view_Some [OF n(1)]] n(3) by auto
  have lt': "t_link (tn n) = ?t" by simp
  note U = counted_unlink_link [OF D(2) view_Some [OF n(1)] lt' n(3) S(1,2) x]
  have tp: "?t \<noteq> rn_parent n" using N(1) x U(3) by auto
  have v1: "view (forget_node a (ramfs_unlink_from_parent a st)) = (detach a (view st))(a := None)"
    using view_unlink [OF D(1) m n(1)] by simp
  have dt: "detach a (view st) ?t = Some x" using U(5) tp x by (simp add: detached_at [OF n(1,2)])
  then have vt: "view (forget_node a (ramfs_unlink_from_parent a st)) ?t = Some x" using U(5) unfolding v1 by simp
  have vs: "view s = (detach a (view st))(a := None, ?t \<mapsto> x\<lparr>t_nlink := t_nlink x - 1\<rparr>)"
    using view_upd [of "forget_node a (ramfs_unlink_from_parent a st)" ?t "\<lambda>t. if rn_nlink t > 0 then t\<lparr>rn_nlink := rn_nlink t - 1\<rparr> else t"
        "\<lambda>t. t\<lparr>t_nlink := t_nlink t - 1\<rparr>"] vt
    unfolding s_def v1 by (simp add: tn_def)
  have "\<not> t_dir (tn n)" using link_of(1) [OF countedD(1) [OF D(2)] view_Some [OF n(1)]] n(3) by simp
  then have ch: "rn_children n = []" using kids_okD(2) [OF S(3) view_Some [OF n(1)]] by auto
  have da: "detach a (view st) a = Some ((tn n)\<lparr>t_parent := 0\<rparr>)" by (simp add: detached_at [OF n(1,2)])
  have "shape (ramfs_root st) ({a} - {a}) ((detach a (view st))(a := None))"
    using shape_del [OF shape_detach [OF D(1) view_Some [OF n(1)]] da] ch N(2) by simp
  then have s1: "shape (ramfs_root st) {} (view s)"
    by (simp only: Diff_cancel) (erule shape_cong [rotated], use dt U(5) in \<open>auto simp: vs sp_def\<close>)
  have c1: "counted {?t} (view s) (opened st)"
    by (rule counted_cong [OF _ U(1)]) (use U(5) tp N(1) in \<open>auto simp: vs detached_at [OF n(1,2)] lt_def\<close>)
  have rs: "r = ramfs_maybe_free_inode ?t s"
    by (auto simp: r_def ramfs_maybe_free_inode_def split: option.split)
  have fr: "ramfs_root s = ramfs_root st" "opened s = opened st" by (simp_all add: s_def)
  have sx: "view s ?t = Some (x\<lparr>t_nlink := t_nlink x - 1\<rparr>)" "t_link (x\<lparr>t_nlink := t_nlink x - 1\<rparr>) = 0" using U(4) by (simp_all add: vs)
  have s2: "shape (ramfs_root s) {} (view s)" using s1 fr by simp
  note M = maybe_free_view [OF s2 c1 sx]
  show "tree_ok r" "opened r = opened st" using M(1-4) fr by (simp_all add: tree_ok_alt rs)
  show "kept_but a (view st) (view r)"
  proof (rule detached_kept [OF n(1,2)])
    fix b assume b: "b \<noteq> a"
    show "map_option sp (view r b) = map_option sp (detach a (view st) b) \<or>
        view r b = None \<and> (\<exists>m. detach a (view st) b = Some m \<and> t_parent m = 0 \<and> \<not> t_dir m)"
      using M(5) b dt by (cases "b = ?t") (auto simp: rs vs sp_def simp del: view_None)
  next
    show "view r a = None \<or> map_option sp (view r a) = Some (sp ((tn n)\<lparr>t_parent := 0\<rparr>))"
      using M(5) U(5) by (auto simp: rs vs simp del: view_None)
  qed
qed

lemma remove_file:
  assumes T: "tree_ok st" and m: "small st" and n: "rnode st a = Some n" "rn_parent n \<noteq> 0" "rn_link n = 0" "\<not> rn_is_dir n"
  defines "s \<equiv> upd_node a (\<lambda>t. if rn_nlink t > 0 then t\<lparr>rn_nlink := rn_nlink t - 1\<rparr> else t) (ramfs_unlink_from_parent a st)"
  shows "tree_ok (ramfs_maybe_free_inode a s)" "kept_but a (view st) (view (ramfs_maybe_free_inode a s))"
    "opened (ramfs_maybe_free_inode a s) = opened st"
proof -
  note D = tree_okD [OF T] and S = shapeD [OF tree_okD(1) [OF T]] and N = named_node [OF T n(1,2)]
  note v1 = view_unlink [OF D(1) m n(1)]
  have da: "detach a (view st) a = Some ((tn n)\<lparr>t_parent := 0\<rparr>)" by (simp add: detached_at [OF n(1,2)])
  let ?y = "(tn n)\<lparr>t_parent := 0, t_nlink := t_nlink (tn n) - 1\<rparr>"
  have vs: "view s = (detach a (view st))(a \<mapsto> ?y)"
    using view_upd [of "ramfs_unlink_from_parent a st" a "\<lambda>t. if rn_nlink t > 0 then t\<lparr>rn_nlink := rn_nlink t - 1\<rparr> else t"
        "\<lambda>t. t\<lparr>t_nlink := t_nlink t - 1\<rparr>"] da
    unfolding s_def v1 by (simp add: tn_def)
  have "shape (ramfs_root st) {} (detach a (view st))"
    by (rule shape_file [OF shape_detach [OF D(1) view_Some [OF n(1)]] da]) (use n(4) in simp)
  then have s1: "shape (ramfs_root st) {} (view s)" by (rule shape_cong [rotated]) (use da in \<open>auto simp: vs sp_def\<close>)
  have "counted {a} ((view st)(a \<mapsto> ?y)) (opened st)"
    by (rule counted_unname [OF D(2) view_Some [OF n(1)]]) (use n in simp_all)
  then have c1: "counted {a} (view s) (opened st)"
    by (rule counted_cong [rotated]) (use N(3) N(1) in \<open>auto simp: vs detached_at [OF n(1,2)] lt_def\<close>)
  have fr: "ramfs_root s = ramfs_root st" "opened s = opened st" by (simp_all add: s_def)
  have sx: "view s a = Some ?y" "t_link ?y = 0" using n(3) by (simp_all add: vs)
  have s2: "shape (ramfs_root s) {} (view s)" using s1 fr by simp
  note M = maybe_free_view [OF s2 c1 sx]
  show "tree_ok (ramfs_maybe_free_inode a s)" "opened (ramfs_maybe_free_inode a s) = opened st"
    using M(1-4) fr by (simp_all add: tree_ok_alt)
  show "kept_but a (view st) (view (ramfs_maybe_free_inode a s))"
    by (rule detached_kept [OF n(1,2)]) (use M(5) in \<open>auto simp: vs sp_def simp del: view_None\<close>)
qed

lemma remove_dir:
  assumes T: "tree_ok st" and m: "small st" and n: "rnode st a = Some n" "rn_parent n \<noteq> 0" "rn_is_dir n" "rn_children n = []" "rn_open n = 0"
  defines "s \<equiv> upd_node a (\<lambda>t. if rn_nlink t > 0 then t\<lparr>rn_nlink := rn_nlink t - 1\<rparr> else t) (ramfs_unlink_from_parent a st)"
  shows "\<exists>r. free_loop [a] s = Some r \<and> tree_ok r \<and> kept_but a (view st) (view r) \<and> opened r = opened st"
proof -
  note D = tree_okD [OF T] and S = shapeD [OF tree_okD(1) [OF T]] and N = named_node [OF T n(1,2)]
  note v1 = view_unlink [OF D(1) m n(1)]
  have da: "detach a (view st) a = Some ((tn n)\<lparr>t_parent := 0\<rparr>)" by (simp add: detached_at [OF n(1,2)])
  have vs: "view s = (detach a (view st))(a \<mapsto> (tn n)\<lparr>t_parent := 0, t_nlink := t_nlink (tn n) - 1\<rparr>)"
    using view_upd [of "ramfs_unlink_from_parent a st" a "\<lambda>t. if rn_nlink t > 0 then t\<lparr>rn_nlink := rn_nlink t - 1\<rparr> else t"
        "\<lambda>t. t\<lparr>t_nlink := t_nlink t - 1\<rparr>"] da
    unfolding s_def v1 by (simp add: tn_def)
  then have "view s a = Some ((tn n)\<lparr>t_parent := 0, t_nlink := t_nlink (tn n) - 1\<rparr>)" by simp
  then obtain k where k: "rnode s a = Some k" "tn k = (tn n)\<lparr>t_parent := 0, t_nlink := t_nlink (tn n) - 1\<rparr>" by (auto dest: view_SomeD)
  have "t_children (tn k) = []" "t_dir (tn k)" using n(3,4) by (simp_all add: k(2))
  then have f: "free_loop [a] s = Some (forget_node a s)" using k(1) by (simp add: free_loop.simps)
  have v: "view (forget_node a s) = (detach a (view st))(a := None)" by (simp add: vs)
  have "shape (ramfs_root st) ({a} - {a}) ((detach a (view st))(a := None))"
    using shape_del [OF shape_detach [OF D(1) view_Some [OF n(1)]] da] n(4) N(2) by simp
  moreover have "counted {} ((view st)(a := None)) (opened st)"
    by (rule counted_free_dir [OF D(2) view_Some [OF n(1)]]) (use n S(1) D(3) in simp_all)
  then have "counted {} (view (forget_node a s)) (opened st)"
    unfolding v by (rule counted_cong [rotated]) (use N(3) N(1) in \<open>auto simp: detached_at [OF n(1,2)] lt_def\<close>)
  moreover have "kept_but a (view st) (view (forget_node a s))" unfolding v by (rule detached_kept [OF n(1,2)]) simp_all
  moreover have "ramfs_root s = ramfs_root st" "opened s = opened st" by (simp_all add: s_def)
  ultimately show ?thesis using f v by (simp add: tree_ok_alt)
qed

text \<open>A directory is removed only when it is empty and not open.\<close>

definition removable :: "ramfs_state \<Rightarrow> addr \<Rightarrow> bool" where
  "removable st a \<longleftrightarrow> (case rnode st a of None \<Rightarrow> True | Some n \<Rightarrow> rn_is_dir n \<longrightarrow> rn_children n = [] \<and> rn_open n = 0)"

lemma remove_effect:
  assumes T: "tree_ok st" and m: "small st" and r: "removable st (ramfs_lookup_nofollow (re_look e) st path)"
  shows "\<exists>st' c. ramfs_remove e path st = Some (st', c) \<and> tree_ok st' \<and> opened st' = opened st \<and>
    (c = 0 \<and> kept_but (ramfs_lookup_nofollow (re_look e) st path) (view st) (view st') \<or> c \<noteq> 0 \<and> st' = st)"
proof -
  define a where "a = ramfs_lookup_nofollow (re_look e) st path"
  show ?thesis
  proof (cases "rnode st a")
    case None
    then show ?thesis using T by (simp add: ramfs_remove_def a_def)
  next
    case (Some n)
    show ?thesis
    proof (cases "path = [SLASH] \<or> rnode st (rn_parent n) = None \<or>
        ramfs_cred e \<noteq> None \<and> \<not> ramfs_may_unlink_node (the (rnode st (rn_parent n))) n (ramfs_cred e)")
      case True
      then have "\<exists>c. ramfs_remove e path st = Some (st, c) \<and> c \<noteq> 0"
        using Some by (auto simp: ramfs_remove_def a_def [symmetric] split: option.split)
      then show ?thesis using T by blast
    next
      case False
      then obtain p where p: "rnode st (rn_parent n) = Some p" by auto
      have p0: "rn_parent n \<noteq> 0" using p tree_okD(3) [OF T] by (metis option.distinct(1))
      have dir: "rn_children n = []" "rn_open n = 0" if "rn_is_dir n" using r Some that by (simp_all add: removable_def a_def)
      have nd: "\<not> rn_is_dir n" if "rn_link n \<noteq> 0" using links_flat_ok [OF T] Some that unfolding links_flat_def by blast
      consider "rn_link n \<noteq> 0" | "rn_link n = 0" "\<not> rn_is_dir n" | "rn_link n = 0" "rn_is_dir n" by blast
      then show ?thesis
      proof cases
        case 1
        then show ?thesis
          using remove_link [OF T m Some p0] False p Some unfolding a_def [symmetric] by (auto simp: ramfs_remove_def a_def [symmetric] Let_def)
      next
        case 2
        then show ?thesis
          using remove_file [OF T m Some p0] False p Some unfolding a_def [symmetric] by (auto simp: ramfs_remove_def a_def [symmetric] Let_def)
      next
        case 3
        then show ?thesis
          using remove_dir [OF T m Some p0] dir False p Some unfolding a_def [symmetric] by (auto simp: ramfs_remove_def a_def [symmetric] Let_def)
      qed
    qed
  qed
qed

section \<open>Moving a node\<close>

lemma move_ok:
  assumes T: "tree_ok st" and m: "small st" and o: "rnode st old = Some n" "rn_parent n \<noteq> 0"
    and p: "rnode st p = Some q" "rn_is_dir q" and np: "(old, p) \<notin> (up (view st))\<^sup>*"
    and nm: "\<And>b k. view st b = Some k \<Longrightarrow> t_parent k = p \<Longrightarrow> t_name k = name \<Longrightarrow> b = old"
  shows "tree_ok (add_child p old (upd_node old (\<lambda>n. n\<lparr>rn_name := name\<rparr>) (ramfs_unlink_from_parent old st)))" (is "tree_ok ?s")
proof -
  note D = tree_okD [OF T] and N = named_node [OF T o]
  note v1 = view_unlink [OF D(1) m o(1)]
  let ?V = "detach old (view st)"
  have da: "?V old = Some ((tn n)\<lparr>t_parent := 0\<rparr>)" by (simp add: detached_at [OF o])
  have op: "old \<noteq> p" using np by blast
  have p0: "p \<noteq> 0" using p(1) D(3) by (metis option.distinct(1))
  have vp: "\<exists>k. ?V p = Some k \<and> t_dir k" using p op view_Some [OF p(1)] by (auto simp: detached_at [OF o])
  then obtain k where k: "?V p = Some k" "t_dir k" by blast
  have v2: "view (upd_node old (\<lambda>n. n\<lparr>rn_name := name\<rparr>) (ramfs_unlink_from_parent old st)) = ?V(old := map_option (\<lambda>n. n\<lparr>t_name := name\<rparr>) (?V old))"
    using view_upd [of "ramfs_unlink_from_parent old st" old "\<lambda>n. n\<lparr>rn_name := name\<rparr>" "\<lambda>n. n\<lparr>t_name := name\<rparr>"] v1 by (simp add: tn_def)
  then have "view (upd_node old (\<lambda>n. n\<lparr>rn_name := name\<rparr>) (ramfs_unlink_from_parent old st)) old = Some ((tn n)\<lparr>t_parent := 0, t_name := name\<rparr>)"
    using da by simp
  then obtain x where x: "rnode (upd_node old (\<lambda>n. n\<lparr>rn_name := name\<rparr>) (ramfs_unlink_from_parent old st)) old = Some x"
      "tn x = (tn n)\<lparr>t_parent := 0, t_name := name\<rparr>" by (auto dest: view_SomeD)
  have xn: "rn_name x = name" using x(2) by (metis tn_simps(1) tnode.select_convs(1) tnode.surjective tnode.update_convs(1))
  have v: "view ?s = attach p old name ?V"
    using view_add_child [OF x(1) xn op] v2 op da by (simp add: fun_eq_iff attach_at)
  have "(old, p) \<notin> (up ?V)\<^sup>*"
  proof
    have "up ?V \<subseteq> up (view st)"
      by (auto simp: up_def detached_at [OF o] split: if_splits)
    moreover assume "(old, p) \<in> (up ?V)\<^sup>*"
    ultimately show False using np rtrancl_mono by blast
  qed
  moreover have "\<forall>a n. ?V a = Some n \<longrightarrow> t_parent n = p \<longrightarrow> t_name n \<noteq> name"
    using nm p0 by (auto simp: detached_at [OF o] split: if_splits)
  ultimately have "shape (ramfs_root st) ({old} - {old}) (attach p old name ?V)"
    using shape_attach [where V = ?V, OF shape_detach [OF D(1) view_Some [OF o(1)]] da _ N(2) k] by simp
  then have "shape (ramfs_root st) {} (view ?s)" unfolding v by (simp only: Diff_cancel)
  moreover have "counted {} (view ?s) (opened st)"
    by (rule counted_cong [OF _ D(2)])
      (use op p0 o(2) N(1) view_Some [OF o(1)] view_Some [OF p(1)] in \<open>auto simp: v attach_at [OF op] detached_at [OF o] lt_def option.map_comp o_def\<close>)
  ultimately show ?thesis by (simp add: tree_ok_alt)
qed

text \<open>What \<open>ramfs_rename\<close> is asked for: the node has a name, and the new directory does not lie below it; there is
  memory for the new name; what the new name names can be removed.\<close>

definition movable :: "ramfs_env \<Rightarrow> cpath \<Rightarrow> cpath \<Rightarrow> ramfs_state \<Rightarrow> bool" where
  "movable e oldpath newpath st \<longleftrightarrow>
     (let old = ramfs_lookup_nofollow (re_look e) st oldpath;
          (pp, name) = split_path newpath;
          p = ramfs_lookup (re_look e) st pp
      in (\<forall>n. rnode st old = Some n \<longrightarrow> rn_parent n \<noteq> 0) \<and> (old, p) \<notin> (up (view st))\<^sup>* \<and> re_name e \<and> re_look e 16 \<and>
         plain_name name \<and> removable st (ramfs_find_child st p name))"

lemma kept_small:
  assumes m: "small st" and K: "kept_but a (view st) (view st')"
  shows "small st'"
  unfolding small_def
proof (intro allI impI)
  fix b k assume "rnode st' b = Some k"
  then obtain t where "view st b = Some t" "length (t_children (tn k)) \<le> length (t_children t)"
    using K view_Some [of st' b k] unfolding kept_but_def by blast
  then obtain j where "rnode st b = Some j" "length (rn_children k) \<le> length (rn_children j)" by (auto dest: view_SomeD)
  then show "length (rn_children k) < GUARD" using m unfolding small_def by fastforce
qed

lemma kept_moves:
  assumes T: "tree_ok st" and m: "small st" and K: "kept_but a (view st) (view st')"
    and a: "view st a = Some x" "t_parent x = p" "t_name x = name" "p \<noteq> 0"
    and o: "rnode st old = Some n" "rn_parent n \<noteq> 0" "old \<noteq> a" and p: "rnode st p = Some q" "rn_is_dir q"
    and np: "(old, p) \<notin> (up (view st))\<^sup>*"
  shows "small st'" "\<exists>n. rnode st' old = Some n \<and> rn_parent n \<noteq> 0" "\<exists>q. rnode st' p = Some q \<and> rn_is_dir q"
    "(old, p) \<notin> (up (view st'))\<^sup>*" "\<And>b k. view st' b = Some k \<Longrightarrow> t_parent k = p \<Longrightarrow> t_name k \<noteq> name"
proof -
  note S = shapeD [OF tree_okD(1) [OF T]]
  have before: "\<exists>m. view st b = Some m \<and> t_name m' = t_name m \<and> t_dir m' = t_dir m \<and> length (t_children m') \<le> length (t_children m) \<and>
      (t_parent m' = t_parent m \<or> b = a \<and> t_parent m' = 0)" if "view st' b = Some m'" for b m'
    using K that unfolding kept_but_def by blast
  have stays: "view st' b \<noteq> None" if "view st b = Some m" "b \<noteq> a" "t_parent m \<noteq> 0 \<or> t_dir m" for b m
    using K that unfolding kept_but_def by blast
  show "small st'" by (rule kept_small [OF m K])
  have "view st' old \<noteq> None" using stays [OF view_Some [OF o(1)] o(3)] o(2) by simp
  then obtain k where k: "rnode st' old = Some k" by auto
  have "t_parent (tn k) = t_parent (tn n)" using before [OF view_Some [OF k]] view_Some [OF o(1)] o(3) by auto
  then show "\<exists>n. rnode st' old = Some n \<and> rn_parent n \<noteq> 0" using k o(2) by simp
  have "p \<noteq> a" using parent_not_self [OF S(6) a(1)] a(2,4) by auto
  then have "view st' p \<noteq> None" using stays [OF view_Some [OF p(1)]] p(2) by simp
  then obtain j where j: "rnode st' p = Some j" by auto
  have "t_dir (tn j) = t_dir (tn q)" using before [OF view_Some [OF j]] view_Some [OF p(1)] by auto
  then show "\<exists>q. rnode st' p = Some q \<and> rn_is_dir q" using j p(2) by simp
  have "up (view st') \<subseteq> up (view st)"
  proof
    fix u assume "u \<in> up (view st')"
    then obtain b k where u: "u = (t_parent k, b)" "view st' b = Some k" "t_parent k \<noteq> 0" by (auto simp: up_def)
    then show "u \<in> up (view st)" using before [OF u(2)] by (auto simp: up_def)
  qed
  then show "(old, p) \<notin> (up (view st'))\<^sup>*" using np rtrancl_mono by blast
  fix b k assume b: "view st' b = Some k" "t_parent k = p"
  show "t_name k \<noteq> name"
  proof
    assume nm: "t_name k = name"
    obtain j where j: "view st b = Some j" "t_name j = name" "t_parent j = p" using before [OF b(1)] b(2) nm a(4) by auto
    have "b = a" using S(5) j a unfolding names_ok_def by metis
    then have "t_parent k = 0" using K b(1) unfolding kept_but_def by blast
    then show False using b(2) a(4) by simp
  qed
qed

lemma rename_ok:
  assumes T: "tree_ok st" and m: "small st" and mv: "movable e oldpath newpath st"
  shows "\<exists>st' c. ramfs_rename e oldpath newpath st = Some (st', c) \<and> tree_ok st'"
proof -
  define old where "old = ramfs_lookup_nofollow (re_look e) st oldpath"
  obtain pp name where sp: "split_path newpath = (pp, name)" by fastforce
  define p where "p = ramfs_lookup (re_look e) st pp"
  define ex where "ex = ramfs_find_child st p name"
  show ?thesis
  proof (cases "absolute oldpath \<and> absolute newpath \<and> oldpath \<noteq> newpath \<and> rnode st old \<noteq> None \<and> re_tmp e \<and> name \<noteq> [] \<and> is_dir_at st p")
    case False
    then show ?thesis using T sp by (auto simp: ramfs_rename_def old_def p_def Let_def)
  next
    case True
    then obtain n where n: "rnode st old = Some n" by blast
    obtain q where q: "rnode st p = Some q" "rn_is_dir q" using True by (auto simp: is_dir_at_def split: option.splits)
    have g: "rn_parent n \<noteq> 0" "(old, p) \<notin> (up (view st))\<^sup>*" "re_name e" "re_look e 16" "plain_name name" "removable st ex"
      using mv n sp by (auto simp: movable_def Let_def old_def p_def ex_def)
    have p0: "p \<noteq> 0" using q(1) tree_okD(3) [OF T] by (metis option.distinct(1))
    let ?mv = "\<lambda>s. add_child p old (upd_node old (\<lambda>n. n\<lparr>rn_name := name\<rparr>) (ramfs_unlink_from_parent old s))"
    have ren: "ramfs_rename e oldpath newpath st =
        (case (if ex \<noteq> 0 \<and> ex \<noteq> old then ramfs_remove e newpath st else Some (st, 0)) of
           None \<Rightarrow> None | Some (s, rr) \<Rightarrow> if rr \<noteq> 0 then Some (s, rr) else Some (?mv s, 0))"
      using True n q sp g(3) by (simp add: ramfs_rename_def old_def [symmetric] p_def [symmetric] ex_def [symmetric] Let_def cong: if_cong option.case_cong)
    show ?thesis
    proof (cases "ex \<noteq> 0 \<and> ex \<noteq> old")
      case False
      have nm: "b = old" if "view st b = Some k" "t_parent k = p" "t_name k = name" for b k
      proof (cases "ex = 0")
        case True
        then show ?thesis using find_child_free [OF T m q(1)] that by (auto simp: ex_def)
      next
        case ex: False
        then obtain y where "view st old = Some y" "t_parent y = p" "t_name y = name"
          using find_child_in [OF T, of p name ex] False by (auto simp: ex_def)
        then show ?thesis using shapeD(5) [OF tree_okD(1) [OF T]] that p0 unfolding names_ok_def by metis
      qed
      have "tree_ok (?mv st)" by (rule move_ok [OF T m n g(1) q g(2)]) (rule nm)
      then show ?thesis using False by (cases "ex = 0") (simp_all add: ren)
    next
      case ex: True
      obtain y where y: "view st ex = Some y" "t_parent y = p" "t_name y = name"
        using find_child_in [OF T, of p name ex] ex by (auto simp: ex_def)
      have d: "is_dir_at st (ramfs_lookup (re_look e) st pp)" using True by (simp add: p_def)
      have "ramfs_lookup_nofollow (re_look e) st newpath = ex"
        using lookup_child [OF links_flat_ok [OF T] _ sp g(5) d] True g(4) by (simp add: ex_def p_def)
      then obtain st' c where r: "ramfs_remove e newpath st = Some (st', c)" "tree_ok st'" "c = 0 \<longrightarrow> kept_but ex (view st) (view st')"
        using remove_effect [OF T m, of e newpath] g(6) by auto
      show ?thesis
      proof (cases "c = 0")
        case False
        then show ?thesis using ex r by (simp add: ren)
      next
        case True
        then have K: "kept_but ex (view st) (view st')" using r(3) by simp
        have oe: "old \<noteq> ex" using ex by simp
        note M = kept_moves [OF T m K y p0 n g(1) oe q g(2)]
        obtain n' where n': "rnode st' old = Some n'" "rn_parent n' \<noteq> 0" using M(2) by blast
        obtain q' where q': "rnode st' p = Some q'" "rn_is_dir q'" using M(3) by blast
        have "tree_ok (?mv st')" by (rule move_ok [OF r(2) M(1) n' q' M(4)]) (use M(5) in blast)
        then show ?thesis using ex r True by (simp add: ren)
      qed
    qed
  qed
qed

section \<open>Whiteouts\<close>

lemma whiteout_ok:
  assumes T: "tree_ok st" and m: "small st" and fr: "fresh e st" and r: "removable st (ramfs_lookup_nofollow (re_look e) st path)"
  shows "\<exists>st' c. ramfs_make_whiteout e path st = Some (st', c) \<and> tree_ok st'"
proof -
  obtain s c where s: "ramfs_remove e path st = Some (s, c)" "tree_ok s" "opened s = opened st"
      "c = 0 \<and> kept_but (ramfs_lookup_nofollow (re_look e) st path) (view st) (view s) \<or> c \<noteq> 0 \<and> s = st"
    using remove_effect [OF T m r] by blast
  have m': "small s" using s(4) m kept_small by blast
  have "rnode s b = None" if "rnode st b = None" for b
  proof (rule ccontr)
    assume "rnode s b \<noteq> None"
    then obtain k where k: "view s b = Some k" by (auto simp: view_def)
    then have "view st b \<noteq> None" using s(4) unfolding kept_but_def by (metis option.distinct(1))
    then show False using that by simp
  qed
  moreover have "rfile s f = None" if "rfile st f = None" for f
    using s(3) that by (metis opened_def option.map_disc_iff)
  ultimately have f': "fresh e s" using fr by (auto simp: fresh_def)
  obtain s2 c2 where c: "ramfs_create e path s = (s2, c2)" by fastforce
  have t2: "tree_ok s2" using create_ok [OF s(2) m' f', of path] by (simp add: c)
  let ?f = "\<lambda>n. ramfs_free_data_owned (n\<lparr>rn_mode := S_IFCHR, rn_uid := RAMFS_WHITEOUT_UID, rn_gid := 0, rn_size := 0\<rparr>)"
  have "tree_ok (upd_node (re_node e) ?f s2)" using t2 by (subst tree_ok_upd) (subst tn_same(5), simp add: tn_def, simp)
  then show ?thesis using T s(1) c t2 by (auto simp: ramfs_make_whiteout_def Let_def release_ok)
qed

section \<open>The loops end\<close>

lemma free_loop_returns:
  assumes "finite (dom (rnode st))"
  shows "\<exists>r. free_loop stack st = Some r"
  using assms
proof (induction "card (dom (rnode st))" arbitrary: st stack rule: less_induct)
  case less
  note smaller = less.hyps and fin = less.prems
  show ?case
  proof (induction stack)
    case Nil
    then show ?case by (simp add: free_loop.simps)
  next
    case (Cons cur stack)
    show ?case
    proof (cases "rnode st cur")
      case None
      then show ?thesis using Cons by (subst free_loop.simps) simp
    next
      case (Some n)
      have r: "rnode (forget_node cur s) = (rnode s)(cur := None)" "rnode (pagecache_invalidate k g s) = rnode s" for s k g
        by (simp_all add: forget_node_def pagecache_invalidate_def)
      have "card (dom ((rnode st)(cur := None))) < card (dom (rnode st))"
        using card_Diff1_less [OF fin domI [of "rnode st", OF Some]] by simp
      then have "\<exists>r. free_loop stk (forget_node cur s) = Some r" if "rnode s = rnode st" for stk s
        using smaller [of "forget_node cur s" stk] fin that by (simp add: r)
      then show ?thesis using Some r by (subst free_loop.simps) (simp add: Let_def)
    qed
  qed
qed

end
