(* ===== verification/Ramfs_Props.thy ===== *)
theory Ramfs_Props
  imports Ramfs_Remove
begin

text \<open>
  The in-memory file system as a whole: every state that the operations reach from \<open>ramfs_register\<close> is a well formed
  tree, and a path that was created is found again.
\<close>

section \<open>Steps\<close>

text \<open>One call of an operation. The premises say what the callers and the allocator see to: blocks are fresh, no
  directory has as many entries as the loops over them look at, no count is about to wrap around; directories
  are empty and not open when they are removed, and no node is moved below itself.\<close>

inductive ramfs_step :: "ramfs_state \<Rightarrow> ramfs_state \<Rightarrow> bool" where
  create: "small st \<Longrightarrow> fresh e st \<Longrightarrow> ramfs_step st (fst (ramfs_create e path st))"
| borrowed: "small st \<Longrightarrow> fresh e st \<Longrightarrow> ramfs_step st (fst (ramfs_create_borrowed_file e path data len st))"
| mkdir: "small st \<Longrightarrow> fresh e st \<Longrightarrow> ramfs_step st (fst (ramfs_mkdir e path st))"
| symlink: "small st \<Longrightarrow> fresh e st \<Longrightarrow> ramfs_step st (fst (ramfs_symlink e path target st))"
| link: "small st \<Longrightarrow> few st \<Longrightarrow> fresh e st \<Longrightarrow> ramfs_step st (fst (ramfs_link e oldpath path st))"
| link_open: "small st \<Longrightarrow> few st \<Longrightarrow> fresh e st \<Longrightarrow> ramfs_step st (fst (ramfs_link_open_file e f path st))"
| openf: "few st \<Longrightarrow> fresh e st \<Longrightarrow> ramfs_step st (fst (ramfs_open e path st))"
| release: "ramfs_step st (ramfs_release f st)"
| remove: "small st \<Longrightarrow> removable st (ramfs_lookup_nofollow (re_look e) st path) \<Longrightarrow> ramfs_remove e path st = Some (st', c) \<Longrightarrow>
    ramfs_step st st'"
| rename: "small st \<Longrightarrow> movable e oldpath path st \<Longrightarrow> ramfs_rename e oldpath path st = Some (st', c) \<Longrightarrow> ramfs_step st st'"
| whiteout: "small st \<Longrightarrow> fresh e st \<Longrightarrow> removable st (ramfs_lookup_nofollow (re_look e) st path) \<Longrightarrow>
    ramfs_make_whiteout e path st = Some (st', c) \<Longrightarrow> ramfs_step st st'"
| chmod: "ramfs_step st (fst (ramfs_chmod e path mode st))"
| fchmod: "ramfs_step st (fst (ramfs_fchmod_file e f mode st))"
| chown: "ramfs_step st (fst (ramfs_chown e path uid gid st))"
| lchown: "ramfs_step st (fst (ramfs_lchown e path uid gid st))"
| writef: "ramfs_step st (fst (ramfs_write e m f buf off st))"
| truncate: "ramfs_step st (fst (ramfs_ftruncate e m f sz st))"
| setxattr: "ramfs_step st (fst (ramfs_setxattr e path name v k flags st))"
| removexattr: "ramfs_step st (fst (ramfs_removexattr e path name st))"

lemma step_ok:
  assumes "ramfs_step st st'" "tree_ok st"
  shows "tree_ok st'"
  using assms
proof cases
  case (remove e path c)
  then show ?thesis using remove_effect [OF assms(2), of e path] by auto
next
  case (rename e oldpath path c)
  then show ?thesis using rename_ok [OF assms(2), of e oldpath path] by auto
next
  case (whiteout e path c)
  then show ?thesis using whiteout_ok [OF assms(2), of e path] by auto
qed (use assms(2) in \<open>simp_all add: create_ok borrowed_ok mkdir_ok symlink_ok link_ok open_ok release_ok attributes_ok write_ok
  ftruncate_ok xattrs_ok\<close>)

text \<open>The state that \<open>ramfs_register\<close> leaves.\<close>

lemma root_ok:
  assumes "ramfs_alloc_node e [] True ramfs_boot = (st, r)" "r \<noteq> 0"
  shows "tree_ok (st\<lparr>ramfs_root := r\<rparr>)" "small (st\<lparr>ramfs_root := r\<rparr>)" "rnode st = [r \<mapsto> the (rnode st r)]" "rfile st = Map.empty"
proof -
  note A = alloc_node_view [OF assms]
  have rn: "r = re_node e" using A(1) .
  have st: "rnode st = [r \<mapsto> blank_node\<lparr>rn_name := [], rn_is_dir := True, rn_ino := 10, rn_mode := S_IFDIR OR 0x1ED,
      rn_nlink := 2, rn_gen := 1, rn_atime := re_now e, rn_mtime := re_now e, rn_ctime := re_now e\<rparr>]" "rfile st = Map.empty"
    using assms by (auto simp: ramfs_alloc_node_def ramfs_boot_def split: if_splits)
  show "small (st\<lparr>ramfs_root := r\<rparr>)" by (auto simp: small_def st blank_node_def GUARD_def split: if_splits)
  show "rnode st = [r \<mapsto> the (rnode st r)]" "rfile st = Map.empty" by (simp_all add: st)
  define V where "V = view (st\<lparr>ramfs_root := r\<rparr>)"
  have V: "V a = (if a = r then Some \<lparr>t_name = [], t_dir = True, t_parent = 0, t_children = [], t_link = 0, t_nlink = 2, t_open = 0\<rparr> else None)" for a
    by (simp add: V_def view_def st tn_def blank_node_def)
  have o: "opened (st\<lparr>ramfs_root := r\<rparr>) = Map.empty" by (simp add: opened_def st fun_eq_iff)
  have "finite (dom V)" by (rule finite_subset [of _ "{r}"]) (auto simp: V split: if_splits)
  moreover have "ranked V" by (auto simp: ranked_def V)
  ultimately have "shape r {} V" using assms(2) by (auto simp: shape_defs V split: if_splits)
  moreover have "counted {} V Map.empty"
    using assms(2) by (auto simp: counted_def targets_ok_def counts_ok_def alive_ok_def opens_ok_def files_of_def V split: if_splits)
  ultimately show "tree_ok (st\<lparr>ramfs_root := r\<rparr>)" by (simp add: tree_ok_alt V_def [symmetric] o)
qed

lemma register_ok:
  assumes r: "ramfs_register_root e e' ramfs_boot = (st, 0)" and n: "re_node e' \<noteq> re_node e"
  shows "tree_ok st"
proof -
  obtain s r where a: "ramfs_alloc_node e [] True ramfs_boot = (s, r)" by fastforce
  have r0: "r \<noteq> 0" using r a by (cases "r = 0") (simp_all add: ramfs_register_root_def Let_def)
  note R = root_ok [OF a r0]
  have "re_node e' \<noteq> r" using n alloc_node_view(1) [OF a r0] by simp
  then have "rnode s (re_node e') = None" by (subst R(3)) simp
  then have "fresh e' (s\<lparr>ramfs_root := r\<rparr>)" by (simp add: fresh_def R(4))
  from mkdir_ok [OF R(1,2) this] show ?thesis using r a r0 by (auto simp: ramfs_register_root_def Let_def)
qed

lemma reach_ok:
  assumes "ramfs_step\<^sup>*\<^sup>* st0 st" "tree_ok st0"
  shows "tree_ok st"
  using assms by (induction rule: rtranclp_induct) (auto intro: step_ok)

section \<open>What the invariant means\<close>

lemma names_count:
  assumes T: "tree_ok st" and n: "rnode st a = Some n" "\<not> rn_is_dir n" "rn_link n = 0"
  shows "rn_nlink n = card {b. \<exists>m. rnode st b = Some m \<and> rn_parent m \<noteq> 0 \<and> (b = a \<or> rn_link m = a)}"
proof -
  note D = tree_okD [OF T]
  have a0: "a \<noteq> 0" using n(1) D(3) by (metis option.distinct(1))
  have nl: "rn_nlink n = (if rn_parent n \<noteq> 0 then 1 else 0) + card (links_to (view st) a)"
    using count_at [OF countedD(2) [OF D(2)] view_Some [OF n(1)]] n by simp
  have lk: "links_to (view st) a = {b. \<exists>m. rnode st b = Some m \<and> rn_link m = a}"
    by (auto simp: links_to_def view_def)
  have lp: "rn_parent m \<noteq> 0" if "rnode st b = Some m" "rn_link m = a" for b m
    using link_of(2) [OF countedD(1) [OF D(2)] view_Some [OF that(1)]] that(2) a0 by simp
  have "{b. \<exists>m. rnode st b = Some m \<and> rn_parent m \<noteq> 0 \<and> (b = a \<or> rn_link m = a)} =
      (if rn_parent n \<noteq> 0 then insert a (links_to (view st) a) else links_to (view st) a)"
    unfolding lk using n(1) lp by auto
  moreover have "a \<notin> links_to (view st) a" using n a0 by (auto simp: lk)
  moreover have "finite (links_to (view st) a)" by (rule finite_links [OF D(4)])
  ultimately show ?thesis using nl by simp
qed

lemma remove_returns:
  assumes "finite (dom (rnode st))"
  shows "\<exists>st' c. ramfs_remove e path st = Some (st', c)"
proof -
  have d: "finite (dom (rnode (upd_node a f st)))" if "finite (dom (rnode st))" for a f st
    by (rule finite_subset [OF _ that]) (auto simp: upd_node_def split: if_splits)
  have "finite (dom (rnode (ramfs_unlink_from_parent a st)))" for a
    using assms d by (auto simp: ramfs_unlink_from_parent_def split: option.split)
  then have "\<exists>r. free_loop [a] (upd_node a f (ramfs_unlink_from_parent a st)) = Some r" for a f
    using free_loop_returns d by blast
  then show ?thesis by (auto simp: ramfs_remove_def Let_def split: option.split)
qed

lemma rename_returns:
  assumes "finite (dom (rnode st))"
  shows "\<exists>st' c. ramfs_rename e oldpath path st = Some (st', c)"
proof -
  obtain s c where "ramfs_remove e path st = Some (s, c)" using remove_returns [OF assms] by blast
  then show ?thesis by (simp add: ramfs_rename_def Let_def split: prod.split)
qed


section \<open>A witness\<close>

text \<open>The file \<open>/a\<close> created beside \<open>/dev\<close> in the file system that \<open>ramfs_register\<close> leaves.\<close>

definition env_at :: "addr \<Rightarrow> addr \<Rightarrow> ramfs_env" where
  "env_at n f = demo_env\<lparr>re_node := n, re_file := f\<rparr>"

definition demo_empty :: ramfs_state where
  "demo_empty = (fst (ramfs_alloc_node (env_at 16 0) [] True ramfs_boot))\<lparr>ramfs_root := 16\<rparr>"

definition demo_root :: ramfs_state where
  "demo_root = fst (ramfs_register_root (env_at 16 0) (env_at 32 0) ramfs_boot)"

lemmas demo_simps = env_at_def demo_env_def ramfs_alloc_node_def demo_empty_def ramfs_boot_def blank_node_def Let_def

lemma demo_reg: "ramfs_register_root (env_at 16 0) (env_at 32 0) ramfs_boot = (demo_root, 0)"
proof (rule prod_eqI)
  show "snd (ramfs_register_root (env_at 16 0) (env_at 32 0) ramfs_boot) = snd (demo_root, 0 :: int)"
    by (simp add: ramfs_register_root_def demo_simps)
qed (simp add: demo_root_def)

lemmas find_simps = find_parent_def absolute_def split_path_def ramfs_lookup_def ramfs_lookup_gen_def is_dir_at_def ramfs_find_child_def

lemma demo_find_dev: "find_parent (env_at 32 0) demo_empty [SLASH, 100, 101, 118] = Inr (16, [100, 101, 118])"
  by (simp add: find_simps demo_simps SLASH_def)

lemma demo_root_eq:
  "demo_root = add_child 16 32 (upd_node 32 (\<lambda>x. ramfs_apply_umask_mode (env_at 32 0) 0x1FF (ramfs_set_create_owner (env_at 32 0) x))
     (fst (ramfs_alloc_node (env_at 32 0) [100, 101, 118] True demo_empty)))"
proof -
  have a: "ramfs_alloc_node (env_at 16 0) [] True ramfs_boot = (fst (ramfs_alloc_node (env_at 16 0) [] True ramfs_boot), 16)"
    by (simp add: ramfs_alloc_node_def env_at_def demo_env_def)
  have m: "(if length [SLASH, 100, 101, 118] > 1 \<and> last [SLASH, 100, 101, 118] = SLASH then butlast [SLASH, 100, 101, 118] else [SLASH, 100, 101, 118])
      = [SLASH, 100, 101, 118]" by (simp add: SLASH_def)
  have "demo_root = fst (ramfs_mkdir (env_at 32 0) [SLASH, 100, 101, 118] demo_empty)"
    unfolding demo_root_def ramfs_register_root_def by (subst a) (simp add: demo_empty_def Let_def)
  then show ?thesis unfolding ramfs_mkdir_def m Let_def demo_find_dev by (simp add: ramfs_alloc_node_def env_at_def demo_env_def)
qed

lemma demo_nodes:
  "rfile demo_root = Map.empty" "rnode demo_root a \<noteq> None \<longrightarrow> a = 16 \<or> a = 32"
  "rnode demo_root a = Some n \<longrightarrow> length (rn_children n) \<le> 1"
  by (auto simp: demo_root_eq add_child_def demo_simps ramfs_apply_umask_mode_def ramfs_set_create_owner_def ramfs_cred_def)

lemma demo_find_new: "find_parent (env_at 48 64) demo_root [SLASH, 97] = Inr (16, [97])"
  by (simp add: find_simps demo_root_eq add_child_def demo_simps SLASH_def named_def ramfs_apply_umask_mode_def ramfs_set_create_owner_def
      ramfs_cred_def GUARD_def)

lemma demo_create:
  "snd (ramfs_create (env_at 48 64) [SLASH, 97] demo_root) = 0"
  "rnode (fst (ramfs_create (env_at 48 64) [SLASH, 97] demo_root)) 48 \<noteq> None"
  unfolding ramfs_create_def demo_find_new
  by (simp_all add: files_ok_def open_node_def add_child_def ramfs_alloc_node_def env_at_def demo_env_def)

lemma demo_ready: "small demo_root" "fresh (env_at 48 64) demo_root"
  using demo_nodes by (fastforce simp: small_def fresh_def GUARD_def env_at_def)+

lemma demo_step: "ramfs_step\<^sup>*\<^sup>* demo_root (fst (ramfs_create (env_at 48 64) [SLASH, 97] demo_root))"
  using demo_ready ramfs_step.create by blast


section \<open>What is created is found\<close>

text \<open>Making a node adds it to its directory and changes nothing else that lookups depend on.\<close>

lemma adds_new:
  assumes T: "tree_ok st" and m: "small st" and fr: "fresh e st" and fp: "find_parent e st path = Inr (p, name)"
    and al: "ramfs_alloc_node e name d st = (st1, n)" "n \<noteq> 0"
    and s: "ramfs_root s = ramfs_root st" "\<And>a. a \<noteq> n \<Longrightarrow> rnode s a = rnode (add_child p n st1) a" "map_option rn_name (rnode s n) = map_option rn_name (rnode st1 n)"
  shows "adds st s p n name"
proof -
  note A = alloc_node_view [OF al] and P = find_parentD [OF fp] and D = tree_okD [OF T] and S = shapeD [OF tree_okD(1) [OF T]]
  obtain q where q: "rnode st p = Some q" using P(1) by (auto simp: is_dir_at_def split: option.splits)
  have c: "rnode st n = None" using fr A(1) al(2) by (auto simp: fresh_def)
  have np: "n \<noteq> p" using c q by auto
  have "n \<notin> set (rn_children k) \<and> rn_parent k \<noteq> n" if k: "rnode st a = Some k" for a k
  proof
    show "n \<notin> set (rn_children k)" using kids_okD(3) [OF S(3) view_Some [OF k], of n] c by (auto simp: view_def)
    show "rn_parent k \<noteq> n"
    proof
      assume "rn_parent k = n"
      then have "view st n \<noteq> None" using S(4) view_Some [OF k] al(2) unfolding parents_ok_def by fastforce
      then show False using c by simp
    qed
  qed
  moreover obtain y where "rnode st1 n = Some y" "rn_name y = name" using A(7) by blast
  then have "\<exists>x. rnode s n = Some x \<and> rn_name x = name" using s(3) by auto
  moreover have "length (rn_children q) < GUARD" using m q unfolding small_def by blast
  ultimately show ?thesis
    using c al(2) np s(1,2) q P(2) A(5) by (auto simp: adds_def add_child_def)
qed

lemma adds_found:
  assumes T: "tree_ok st" and T': "tree_ok s" and A: "adds st s p n name" and fp: "find_parent e st path = Inr (p, name)"
    and nm: "plain_name name" and k: "re_look e 16"
  shows "ramfs_lookup_nofollow (re_look e) s path = n"
    "\<And>q. rnode st (ramfs_lookup mem st q) \<noteq> None \<Longrightarrow> ramfs_lookup mem s q = ramfs_lookup mem st q"
proof -
  note P = find_parentD [OF fp]
  have z: "rnode st 0 = None" "rnode s 0 = None" using tree_okD(3) T T' by blast+
  have c: "rnode st n = None" "n \<noteq> p" using A by (auto simp: adds_def)
  obtain r where "view st (ramfs_root st) = Some r" using shapeD(7) [OF tree_okD(1) [OF T]] unfolding roots_ok_def by blast
  then have r: "ramfs_root st \<noteq> n" using c(1) by (metis option.distinct(1) view_None)
  show l: "ramfs_lookup mem s q = ramfs_lookup mem st q" if "rnode st (ramfs_lookup mem st q) \<noteq> None" for mem q
    by (rule adds_lookup [OF A r z that])
  obtain d where d: "rnode st p = Some d" "rn_is_dir d" using P(1) by (auto simp: is_dir_at_def split: option.splits)
  have lp: "ramfs_lookup (re_look e) s (fst (split_path path)) = p" using l [of "re_look e" "fst (split_path path)"] P(6) d(1) by simp
  have "is_dir_at s p" using A d by (auto simp: adds_def is_dir_at_def)
  then have "is_dir_at s (ramfs_lookup (re_look e) s (fst (split_path path)))" using lp by simp
  from lookup_child [OF links_flat_ok [OF T'] P(3) P(5) nm this]
  show "ramfs_lookup_nofollow (re_look e) s path = n" using k lp adds_find_new [OF A] by simp
qed

lemma last_plain:
  assumes "plain_name (snd (split_path path))"
  shows "last path \<noteq> SLASH"
proof
  assume "last path = SLASH"
  moreover have "path \<noteq> []" using assms by (auto simp: split_path_def plain_name_def Let_def)
  ultimately have "hd (rev path) = SLASH" by (simp add: hd_rev)
  then have "takeWhile (\<lambda>c. c \<noteq> SLASH) (rev path) = []" using \<open>path \<noteq> []\<close> by (cases "rev path") auto
  then show False using assms by (simp add: split_path_def plain_name_def Let_def)
qed

lemma name_link_same [simp]:
  "rn_name (ramfs_set_create_owner e n) = rn_name n" "rn_name (ramfs_apply_umask_mode e b n) = rn_name n"
  "rn_link (ramfs_set_create_owner e n) = rn_link n" "rn_link (ramfs_apply_umask_mode e b n) = rn_link n"
  by (metis tn_simps(1) tn_same(1), metis tn_simps(1) tn_same(2), metis tn_simps(5) tn_same(1), metis tn_simps(5) tn_same(2))

lemma alloc_node_link:
  assumes "ramfs_alloc_node e name d st = (st1, n)" "n \<noteq> 0"
  shows "\<exists>x. rnode st1 n = Some x \<and> rn_link x = 0"
  using assms by (auto simp: ramfs_alloc_node_def blank_node_def split: if_splits)

text \<open>The three operations that make a node under a free name.\<close>

definition made :: "ramfs_env \<Rightarrow> cpath \<Rightarrow> ramfs_state \<Rightarrow> ramfs_state \<Rightarrow> bool" where
  "made e path st s \<longleftrightarrow> (\<exists>p name d st1. find_parent e st path = Inr (p, name) \<and> ramfs_alloc_node e name d st = (st1, re_node e) \<and>
     re_node e \<noteq> 0 \<and> ramfs_root s = ramfs_root st \<and> (\<forall>a. a \<noteq> re_node e \<longrightarrow> rnode s a = rnode (add_child p (re_node e) st1) a) \<and>
     (re_node e \<noteq> p \<longrightarrow> map_option rn_name (rnode s (re_node e)) = map_option rn_name (rnode st1 (re_node e)) \<and>
        (\<exists>x. rnode s (re_node e) = Some x \<and> rn_link x = 0)))"

lemma find_parent_error: "find_parent e st path = Inl r \<Longrightarrow> r \<noteq> 0"
  by (auto simp: find_parent_def Let_def split: if_splits prod.splits)

lemma create_made:
  assumes c: "ramfs_create e path st = (s, 0)"
  shows "made e path st s"
proof -
  obtain p name where fp: "find_parent e st path = Inr (p, name)"
    using c find_parent_error by (cases "find_parent e st path") (auto simp: ramfs_create_def)
  obtain st1 n where al: "ramfs_alloc_node e name False st = (st1, n)" by fastforce
  have n0: "n \<noteq> 0" using c fp al by (cases "n = 0") (simp_all add: ramfs_create_def)
  note A = alloc_node_view [OF al n0]
  let ?t = "add_child p n (upd_node n (\<lambda>x. ramfs_apply_umask_mode e 0x1B6 (ramfs_set_create_owner e x)) st1)"
  have "\<exists>x. rnode ?t n = Some x" using A(7) by (auto simp: add_child_def)
  then obtain x fl where x: "rnode ?t n = Some x" "s = open_node e fl n ?t"
    using c fp al n0 by (auto simp: ramfs_create_def Let_def split: if_splits)
  have "ramfs_root s = ramfs_root st" using x A(3) by (simp add: open_node_def)
  moreover have "rnode s a = rnode (add_child p (re_node e) st1) a" if "a \<noteq> re_node e" for a
    using x(1) that A(1) unfolding x(2) by (simp add: open_node_def add_child_def)
  moreover have "map_option rn_name (rnode s (re_node e)) = map_option rn_name (rnode st1 (re_node e)) \<and>
      (\<exists>x. rnode s (re_node e) = Some x \<and> rn_link x = 0)" if "re_node e \<noteq> p"
    using x(1) that A(1) alloc_node_link [OF al n0] unfolding x(2) by (auto simp: open_node_def add_child_def)
  ultimately show ?thesis unfolding made_def using fp al n0 A(1) by blast
qed

lemma mkdir_made:
  assumes c: "ramfs_mkdir e path st = (s, 0)" and l: "last path \<noteq> SLASH"
  shows "made e path st s"
proof -
  obtain p name where fp: "find_parent e st path = Inr (p, name)"
    using c l find_parent_error by (cases "find_parent e st path") (auto simp: ramfs_mkdir_def)
  obtain st1 n where al: "ramfs_alloc_node e name True st = (st1, n)" by fastforce
  have n0: "n \<noteq> 0" using c fp al l by (cases "n = 0") (simp_all add: ramfs_mkdir_def)
  note A = alloc_node_view [OF al n0]
  have x: "s = add_child p n (upd_node n (\<lambda>x. ramfs_apply_umask_mode e 0x1FF (ramfs_set_create_owner e x)) st1)"
    using c fp al n0 l by (simp add: ramfs_mkdir_def Let_def)
  have "map_option rn_name (rnode s (re_node e)) = map_option rn_name (rnode st1 (re_node e)) \<and>
      (\<exists>x. rnode s (re_node e) = Some x \<and> rn_link x = 0)" if "re_node e \<noteq> p"
    using alloc_node_link [OF al n0] that A(1) by (auto simp: x add_child_def)
  then show ?thesis unfolding made_def using fp al n0 A(1,3) by (auto simp: x add_child_def)
qed

lemma symlink_made:
  assumes c: "ramfs_symlink e path target st = (s, 0)"
  shows "made e path st s"
proof -
  obtain p name where fp: "find_parent e st path = Inr (p, name)"
    using c find_parent_error by (cases "find_parent e st path") (auto simp: ramfs_symlink_def)
  obtain st1 n where al: "ramfs_alloc_node e name False st = (st1, n)" by fastforce
  have n0: "n \<noteq> 0" using c fp al by (cases "n = 0") (simp_all add: ramfs_symlink_def)
  note A = alloc_node_view [OF al n0]
  have x: "s = upd_node n (\<lambda>x. ramfs_set_create_owner e (x\<lparr>rn_data := Some (target @ [0]), rn_size := length target,
      rn_cap := length target + 1\<rparr>)) (upd_node n (\<lambda>x. x\<lparr>rn_mode := S_IFLNK OR 0x1FF\<rparr>) (add_child p n st1))"
    using c fp al n0 by (auto simp: ramfs_symlink_def Let_def split: if_splits)
  have "map_option rn_name (rnode s (re_node e)) = map_option rn_name (rnode st1 (re_node e)) \<and>
      (\<exists>x. rnode s (re_node e) = Some x \<and> rn_link x = 0)" if "re_node e \<noteq> p"
    using alloc_node_link [OF al n0] that A(1) by (auto simp: x add_child_def)
  then show ?thesis unfolding made_def using fp al n0 A(1,3) by (auto simp: x)
qed

lemma made_adds:
  assumes T: "tree_ok st" and m: "small st" and fr: "fresh e st" and c: "made e path st s"
  shows "\<exists>p x. find_parent e st path = Inr (p, snd (split_path path)) \<and> adds st s p (re_node e) (snd (split_path path)) \<and>
    rnode s (re_node e) = Some x \<and> rn_link x = 0"
proof -
  obtain p name d st1 where M: "find_parent e st path = Inr (p, name)" "ramfs_alloc_node e name d st = (st1, re_node e)" "re_node e \<noteq> 0"
    "ramfs_root s = ramfs_root st" "\<And>a. a \<noteq> re_node e \<Longrightarrow> rnode s a = rnode (add_child p (re_node e) st1) a"
    "re_node e \<noteq> p \<longrightarrow> map_option rn_name (rnode s (re_node e)) = map_option rn_name (rnode st1 (re_node e)) \<and>
       (\<exists>x. rnode s (re_node e) = Some x \<and> rn_link x = 0)"
    using c unfolding made_def by blast
  have "is_dir_at st p" by (rule find_parentD(1) [OF M(1)])
  then have np: "re_node e \<noteq> p" using fr M(3) by (auto simp: fresh_def is_dir_at_def)
  then have "adds st s p (re_node e) name" using adds_new [OF T m fr M(1-5)] M(6) by blast
  moreover have "snd (split_path path) = name" using find_parentD(5) [OF M(1)] by (metis snd_conv)
  ultimately show ?thesis using M(1,6) np by blast
qed

text \<open>C40. A path that \<open>ramfs_create\<close>, \<open>ramfs_mkdir\<close> or \<open>ramfs_symlink\<close> made is found again. In a well formed
  state with room in the directory, when the call returns 0, looking the path up gives the new node, a
  further attempt to create it returns -4, and opening it opens the new node. Every path that led to a node
  before leads to the same node. The last name of the path has 1 to 255 bytes and is neither \<open>.\<close> nor \<open>..\<close>.\<close>

theorem ramfs_create_lookup:
  assumes T: "tree_ok st" and m: "small st" and fr: "fresh e st" and nm: "plain_name (snd (split_path path))" and k: "re_look e 16"
    and c: "ramfs_create e path st = (s, 0) \<or> ramfs_mkdir e path st = (s, 0) \<or> ramfs_symlink e path target st = (s, 0)"
  shows "ramfs_lookup_nofollow (re_look e) s path = re_node e \<and> ramfs_create e path s = (s, - 4) \<and>
    (\<forall>mem p. rnode st (ramfs_lookup mem st p) \<noteq> None \<longrightarrow> ramfs_lookup mem s p = ramfs_lookup mem st p) \<and>
    (\<forall>e2. re_look e2 = re_look e \<longrightarrow> files_ok e2 \<longrightarrow>
       (\<exists>s2. ramfs_open e2 path s = (s2, 0) \<and> opened s2 (re_file e2) = Some (re_node e)))"
proof -
  have md: "made e path st s" using create_made mkdir_made [OF _ last_plain [OF nm]] symlink_made c by blast
  have T': "tree_ok s"
    using create_ok [OF T m fr, of path] mkdir_ok [OF T m fr, of path] symlink_ok [OF T m fr, of path target] c by auto
  obtain p x where p: "find_parent e st path = Inr (p, snd (split_path path))" and A: "adds st s p (re_node e) (snd (split_path path))"
      and x: "rnode s (re_node e) = Some x" "rn_link x = 0"
    using made_adds [OF T m fr md] by blast
  note F = adds_found [OF T T' A p nm k] and P = find_parentD [OF p]
  have n0: "re_node e \<noteq> 0" using A by (simp add: adds_def)
  have d: "rnode st p \<noteq> None" "is_dir_at s p" using P(1) A by (auto simp: adds_def is_dir_at_def split: option.splits)
  then have "ramfs_lookup (re_look e) s (fst (split_path path)) = p" using F(2) [of "re_look e"] P(6) by simp
  moreover have "re_tmp e" using p by (auto simp: find_parent_def split: if_splits)
  moreover have "rnode s p \<noteq> None" using d(2) by (auto simp: is_dir_at_def split: option.splits)
  ultimately have "find_parent e s path = Inl (- 4)"
    using P(3,4) d(2) adds_find_new [OF A] n0 by (cases "split_path path") (simp add: find_parent_def)
  then have "ramfs_create e path s = (s, - 4)" by (simp add: ramfs_create_def)
  moreover have "\<exists>s2. ramfs_open e2 path s = (s2, 0) \<and> opened s2 (re_file e2) = Some (re_node e)"
    if "re_look e2 = re_look e" "files_ok e2" for e2
    using x F(1) that by (simp add: Let_def ramfs_open_def ramfs_resolve_link_def open_node_def opened_def ramfs_file_set_backing_def)
  ultimately show ?thesis using F by blast
qed

theorem ramfs_create_lookup_witness:
  "ramfs_lookup_nofollow (re_look (env_at 48 64)) (fst (ramfs_create (env_at 48 64) [SLASH, 97] demo_root)) [SLASH, 97] = 48"
proof -
  have T: "tree_ok demo_root" by (rule register_ok [OF demo_reg]) (simp add: env_at_def)
  have n: "plain_name (snd (split_path [SLASH, 97]))" by (simp add: plain_name_def split_path_def SLASH_def)
  have k: "re_look (env_at 48 64) 16" by (simp add: env_at_def demo_env_def)
  have c: "ramfs_create (env_at 48 64) [SLASH, 97] demo_root = (fst (ramfs_create (env_at 48 64) [SLASH, 97] demo_root), 0)"
    using demo_create(1) by (metis prod.collapse)
  show ?thesis using ramfs_create_lookup [OF T demo_ready n k disjI1 [OF c]] by (simp add: env_at_def)
qed

end
