(* ===== verification/Spec2Isabelle.thy ===== *)
theory Spec2Isabelle
  imports Frame_Thms LibcString Pty_Thms Keyring_Props UserVma_Props Futex_Props Ramfs_Props
begin

text \<open>
  AxonOS: verification of data structures at the core of the kernel.

  AxonOS is a kernel for x86-64 with a Linux system call interface, written in C. This development models
  nine of its parts function by function and proves what the rest of the kernel relies on. File names are
  relative to \<open>src/\<close>; definitions carry the names of the C functions they translate.

  \<^bold>\<open>The parts and how they interact.\<close> At the bottom the physical page pool (\<open>mem/pmm.c\<close>) hands out 4 KiB pages.
  The frame table (\<open>mm/frame.c\<close>) counts references to such pages; it calls the pool for pages and the heap
  for its own table. The kernel heap (\<open>mem/heap.c\<close>) serves \<open>kmalloc\<close>, \<open>krealloc\<close> and \<open>kfree\<close> to all other parts.
  The string library (\<open>libc/string.c\<close>) is used everywhere. On these stand the pseudo terminals
  (\<open>fs/virt/pty.c\<close>), the key store (\<open>core/keyring.c\<close>), the tables of user memory areas with their demand faults
  (\<open>mm/user_vma.c\<close>), the futexes (\<open>syscall/futex/futex.c\<close>) and the in-memory file system
  (\<open>fs/virt/ramfs.c\<close>), which is the root file system.

  \<^bold>\<open>Conventions\<close> (theory \<open>Prelude\<close>). Addresses and sizes are natural numbers with the wrap-around of 64-bit
  arithmetic written out (\<open>add64\<close>, \<open>sub64\<close>, \<open>mul64\<close>); bytes and 32-bit fields are words; 0 is the null pointer. A
  structure is a record, a store of structures a map from addresses. A function that changes state takes
  the state and returns it; a loop that may not end is a \<open>partial_function\<close> over \<open>option\<close>, where \<open>None\<close> means
  that it does not return. A critical section is one step; where a function drops its lock and takes it
  again the model has one definition per section. What a part gets from code that is not modelled with
  it (results of \<open>kmalloc\<close>, the clock, credentials, user memory, page tables) is an argument.

  \<^bold>\<open>Theories, in the order of the parts.\<close>
  \<^item> \<open>Dll\<close>: doubly linked lists through a store, and tilings of an address range; used by the heap.
  \<^item> \<open>Pmm\<close>: the page pool. The locale \<open>page_pool\<close> states what a client may rely on, is interpreted on
    \<open>pmm_alloc_page\<close> and \<open>pmm_free_page\<close>, and gives exclusive ownership and the page count.
  \<^item> \<open>Heap\<close>, \<open>Heap_Inv\<close>, \<open>Heap_Spec\<close>, \<open>Heap_Thms\<close>: the heap with headers, canaries, splitting and merging; the
    representation invariant; the abstraction to a map from live objects to sizes; the contract
    \<open>object_heap\<close> (a locale interpreted on \<open>kmalloc\<close> and \<open>kfree\<close>) and the properties of the three calls,
    of double frees and of the statistics.
  \<^item> \<open>Frame\<close>, \<open>Frame_Thms\<close>: the hash table of frames and its refinement of a map from pages to counts, on
    top of the interpretation of \<open>page_pool\<close>.
  \<^item> \<open>LibcString\<close>: the string, memory and number functions with their word-wise loops, against list
    specifications.
  \<^item> \<open>Pty\<close>, \<open>Pty_Thms\<close>: rings, line discipline, table of pairs and blocking readers. The locale \<open>byte_queue\<close> is
    interpreted on the ring; the line editor is specified on lists; reachable states of the table and
    of waiting readers are inductive relations.
  \<^item> \<open>Keyring\<close>, \<open>Keyring_Thms\<close>, \<open>Keyring_Props\<close>: slots, keyrings and their heap blocks; ownership of blocks in all
    reachable states; linking and reading.
  \<^item> \<open>UserVma\<close>, \<open>UserVma_Thms\<close>, \<open>UserVma_Room\<close>, \<open>UserVma_Fault\<close>, \<open>UserVma_Props\<close>: the two tables of areas read as maps
    from addresses; unmapping and splitting; the two searches for room; the fault handlers.
  \<^item> \<open>Futex\<close>, \<open>Futex_Thms\<close>, \<open>Futex_Props\<close>: the table of queues, an invariant over all interleavings of the
    critical sections, and the exact effect of waking and requeueing.
  \<^item> \<open>Ramfs\<close>: the file system. \<open>Ramfs_Data\<close>: files as byte sequences. \<open>Ramfs_Tree\<close>: the invariant of the tree over a
    view of the nodes, and what attaching, detaching, counting and freeing do to it. \<open>Ramfs_Path\<close>: path lookup and
    what adding a node does to it. \<open>Ramfs_Steps\<close>, \<open>Ramfs_Ops\<close>, \<open>Ramfs_Remove\<close>: each operation as a change of the
    view. \<open>Ramfs_Props\<close>: the step relation, its reachable states, and that what is created is found.

  \<^bold>\<open>Bounds and fuel.\<close> Loops whose end is not evident (list walks in the heap and the frame table, loops to the end of
  a C string, freeing a directory) are partial functions, and the properties state that they return. The searches
  for room run in \<open>USER_VMA_MAX + 16\<close> rounds as in the code; it is proved that this limit is never what
  ends them. Path lookup has the 16 rounds of the code, each consuming the path, and the loops over a
  directory the 65536 entries of the code; the step relation of \<open>Ramfs_Props\<close> asks for smaller directories
  (\<open>small\<close>) and for counts that do not wrap (\<open>few\<close>). It also leaves out the calls after which the code is known
  to go wrong: removing a directory that is not empty or is open, moving a node below itself, moving
  when the new name cannot be allocated. In one call of the file system the same function says which
  path buffers can be allocated in each of its lookups.

  \<^bold>\<open>Not modelled.\<close>
  \<^item> Of the modelled parts: \<open>split\<close> and \<open>is_delim\<close> of the string library; \<open>tmpfs_mount\<close> and the entry of the driver into
    the mount table in \<open>ramfs_register\<close>, which belong to \<open>fs/fs.c\<close>; trace output.
  \<^item> Locks, interrupts and memory ordering: a critical section is atomic. In the file system each call
    is one step, although the code takes its tree lock for parts of a call only.
  \<^item> Code whose meaning is that of the hardware: boot, interrupts, timers, page tables, drivers, display.
  \<^item> The system call dispatcher, processes, threads, the program loader, the mount table, the other file
    systems, the page cache, the network and the cryptographic functions. What the modelled parts use
    of them is an argument or part of their state.
  \<^item> Third-party code and host tools.
\<close>

section \<open>The heap under the file system\<close>

text \<open>The model of \<open>ramfs_ftruncate\<close> describes \<open>krealloc\<close> by \<open>krealloc_buf\<close>: the old bytes as far as they reach, then
  whatever the heap left there. This is what the model of the heap delivers.\<close>

lemma krealloc_delivers_buf:
  assumes m: "heap_models s L" and p: "L p = Some r" and n: "0 < n" "n + 23 < 2 ^ 64"
    and k: "krealloc p n caller s = Some (s', q)" "q \<noteq> 0"
  shows "read_bytes q n s' = krealloc_buf (\<lambda>i. hmem s' (q + i)) (Some (read_bytes p r s)) n"
proof -
  obtain s1 q1 where R: "krealloc_nolock p n caller s = Some (s1, q1)" "realloc_ok p r q1 n L s s1"
    using krealloc_nolock_models [OF m p n] by blast
  have "p \<noteq> 0" using heap_models_bounds [OF m p] by auto
  then have "s' = s1" "q1 = q" using R(1) k n(1) by (auto simp: krealloc_def split: if_splits)
  then have "hmem s' (q + i) = hmem s (p + i)" if "i < r" "i < n" for i
    using R(2) k(2) that by (auto simp: realloc_ok_def resized_def)
  then show ?thesis by (auto simp: read_bytes_def krealloc_buf_def)
qed

end
